(* ===== verification/Xv6_Prelude.thy ===== *)
theory Xv6_Prelude
  imports Main "HOL-Library.Word" "HOL-Library.While_Combinator"
begin

text \<open>
  What every theory of the development shares: the C integer types of
  \<^verbatim>\<open>kernel/types.h\<close> as machine words, the result type of kernel code (a value, a
  \<^verbatim>\<open>panic\<close>, or a loop that never ends), sequencing, bounded and unbounded loops over
  that result type, and generic lemmas on them.
\<close>

unbundle bit_operations_syntax

section \<open>Machine integers\<close>

text \<open>\<^verbatim>\<open>kernel/types.h\<close>; \<^verbatim>\<open>char\<close> is unsigned on RISC-V, so it is \<open>u8\<close> too.\<close>

type_synonym u8 = "8 word"
type_synonym u16 = "16 word"
type_synonym u32 = "32 word"
type_synonym u64 = "64 word"

section \<open>Results of kernel code\<close>

text \<open>
  \<open>Panic\<close> is a call of \<^verbatim>\<open>panic(msg)\<close> (the kernel stops), \<open>Diverge\<close> is control that
  never comes back: a spin or wait loop that never ends, or a thread that is switched out
  for good.
\<close>

datatype 'a res = Ok 'a | Panic string | Diverge

fun bnd :: "'a res \<Rightarrow> ('a \<Rightarrow> 'b res) \<Rightarrow> 'b res" where
  "bnd (Ok x) f = f x"
| "bnd (Panic e) f = Panic e"
| "bnd Diverge f = Diverge"

lemma bnd_assoc [simp]: "bnd (bnd m f) g = bnd m (\<lambda>x. bnd (f x) g)"
  by (cases m) auto

lemma bnd_Ok_right [simp]: "bnd m Ok = m"
  by (cases m) auto

lemma bnd_eq_Ok_iff: "bnd m f = Ok y \<longleftrightarrow> (\<exists>x. m = Ok x \<and> f x = Ok y)"
  by (cases m) auto

lemma bnd_cong [fundef_cong]:
  "m = m' \<Longrightarrow> (\<And>x. m' = Ok x \<Longrightarrow> f x = g x) \<Longrightarrow> bnd m f = bnd m' g"
  by (cases m') auto

lemma bnd_let [simp]: "bnd (let x = a in f x) g = (let x = a in bnd (f x) g)"
  by (simp add: Let_def)

subsection \<open>Loops over an index list\<close>

text \<open>\<^verbatim>\<open>for(p = a; p < &a[N]; p++) body\<close> without an early exit.\<close>

fun foreach :: "('i \<Rightarrow> 's \<Rightarrow> 's res) \<Rightarrow> 'i list \<Rightarrow> 's \<Rightarrow> 's res" where
  "foreach f [] s = Ok s"
| "foreach f (i # is) s = bnd (f i s) (foreach f is)"

lemma foreach_append: "foreach f (xs @ ys) s = bnd (foreach f xs s) (foreach f ys)"
  by (induction xs arbitrary: s) (auto intro: bnd_cong)

text \<open>A loop whose body never fails is a fold of its effect.\<close>

lemma foreach_Ok_fold:
  assumes "\<And>i s. i \<in> set is \<Longrightarrow> P s \<Longrightarrow> f i s = Ok (g i s)"
    and "\<And>i s. i \<in> set is \<Longrightarrow> P s \<Longrightarrow> P (g i s)"
    and "P s"
  shows "foreach f is s = Ok (fold g is s) \<and> P (fold g is s)"
  using assms
proof (induction "is" arbitrary: s)
  case Nil
  then show ?case by simp
next
  case (Cons i "is")
  then have "f i s = Ok (g i s)" and "P (g i s)" by auto
  with Cons show ?case by simp
qed

subsection \<open>Loops that may not end\<close>

text \<open>
  \<^verbatim>\<open>while(c) body\<close> where nothing bounds the number of iterations: \<open>Diverge\<close> when the
  condition never fails, the body's panic when it panics.
\<close>

definition while_res :: "('s \<Rightarrow> bool) \<Rightarrow> ('s \<Rightarrow> 's res) \<Rightarrow> 's \<Rightarrow> 's res" where
  "while_res c b s =
     (case while_option (\<lambda>r. case r of Ok s \<Rightarrow> c s | _ \<Rightarrow> False) (\<lambda>r. bnd r b) (Ok s) of
        None \<Rightarrow> Diverge
      | Some r \<Rightarrow> r)"

lemma while_res_unfold:
  "while_res c b s = (if c s then bnd (b s) (while_res c b) else Ok s)"
proof (cases "c s")
  case False
  then show ?thesis by (simp add: while_res_def while_option_unfold [of _ _ "Ok s"])
next
  case True
  show ?thesis
  proof (cases "b s")
    case (Ok s')
    with True show ?thesis
      by (simp add: while_res_def while_option_unfold [of _ _ "Ok s"])
  next
    case (Panic e)
    with True show ?thesis
      by (simp add: while_res_def while_option_unfold [of _ _ "Ok s"]
          while_option_unfold [of _ _ "Panic e"])
  next
    case Diverge
    with True show ?thesis
      by (simp add: while_res_def while_option_unfold [of _ _ "Ok s"]
          while_option_unfold [of _ _ Diverge])
  qed
qed

lemma while_res_skip [simp]: "\<not> c s \<Longrightarrow> while_res c b s = Ok s"
  by (subst while_res_unfold) simp

text \<open>Partial correctness of the result.\<close>

lemma while_res_rule:
  assumes ret: "while_res c b s = Ok t"
    and "I s"
    and step: "\<And>x y. I x \<Longrightarrow> c x \<Longrightarrow> b x = Ok y \<Longrightarrow> I y"
  shows "I t \<and> \<not> c t"
proof -
  let ?c = "\<lambda>r. case r of Ok s \<Rightarrow> c s | _ \<Rightarrow> False"
  from ret have w: "while_option ?c (\<lambda>r. bnd r b) (Ok s) = Some (Ok t)"
    by (auto simp: while_res_def split: option.splits)
  have "(\<lambda>r. \<forall>x. r = Ok x \<longrightarrow> I x) (Ok t)"
    by (rule while_option_rule [OF _ w])
      (auto simp: bnd_eq_Ok_iff \<open>I s\<close> intro: step split: res.splits)
  moreover from while_option_stop [OF w] have "\<not> c t" by simp
  ultimately show ?thesis by simp
qed

text \<open>Total correctness, with a measure the body decreases.\<close>

lemma while_res_total:
  assumes "I s"
    and step: "\<And>x. I x \<Longrightarrow> c x \<Longrightarrow> \<exists>y. b x = Ok y \<and> I y \<and> (m y :: nat) < m x"
  shows "\<exists>t. while_res c b s = Ok t \<and> I t \<and> \<not> c t"
  using \<open>I s\<close>
proof (induction "m s" arbitrary: s rule: less_induct)
  case less
  show ?case
  proof (cases "c s")
    case False
    with less.prems show ?thesis by simp
  next
    case True
    with less.prems step obtain y where y: "b s = Ok y" "I y" "m y < m s" by blast
    from less.hyps [OF y(3) y(2)] True y(1) show ?thesis
      by (subst while_res_unfold) simp
  qed
qed

subsection \<open>Loops with an early return\<close>

text \<open>
  \<^verbatim>\<open>for(;;) body\<close> whose body either leaves the loop with a result (\<^verbatim>\<open>return\<close>, \<^verbatim>\<open>break\<close>, \<^verbatim>\<open>goto\<close>, or a
  loop condition that fails) or goes on to the next iteration.
\<close>

datatype ('r, 's) ctl = Done 'r | Next 's

definition loop_res :: "('s \<Rightarrow> ('r, 's) ctl res) \<Rightarrow> 's \<Rightarrow> 'r res" where
  "loop_res b s =
     bnd (while_res (\<lambda>x. case x of Next _ \<Rightarrow> True | Done _ \<Rightarrow> False)
            (\<lambda>x. case x of Next s \<Rightarrow> b s | Done r \<Rightarrow> Ok (Done r)) (Next s))
         (\<lambda>x. case x of Done r \<Rightarrow> Ok r | Next _ \<Rightarrow> Diverge)"

lemma loop_res_unfold:
  "loop_res b s = bnd (b s) (\<lambda>x. case x of Done r \<Rightarrow> Ok r | Next s \<Rightarrow> loop_res b s)"
proof -
  have "bnd (while_res (\<lambda>x. case x of Next _ \<Rightarrow> True | Done _ \<Rightarrow> False)
            (\<lambda>x. case x of Next s \<Rightarrow> b s | Done r \<Rightarrow> Ok (Done r)) x)
         (\<lambda>x. case x of Done r \<Rightarrow> Ok r | Next _ \<Rightarrow> Diverge)
      = (case x of Done r \<Rightarrow> Ok r | Next s \<Rightarrow> loop_res b s)" for x
    by (cases x) (simp_all add: loop_res_def)
  then show ?thesis
    unfolding loop_res_def [of b s] by (subst while_res_unfold) simp
qed

text \<open>Total and partial correctness of such a loop.\<close>

lemma loop_res_total:
  assumes "I s"
    and step: "\<And>x. I x \<Longrightarrow> (\<exists>r. b x = Ok (Done r) \<and> Q r) \<or>
       (\<exists>y. b x = Ok (Next y) \<and> I y \<and> (m y :: nat) < m x)"
  shows "\<exists>r. loop_res b s = Ok r \<and> Q r"
  using \<open>I s\<close>
proof (induction "m s" arbitrary: s rule: less_induct)
  case less
  from step [OF less.prems] show ?case
  proof (elim disjE exE conjE)
    fix r assume "b s = Ok (Done r)" "Q r"
    then show ?thesis by (subst loop_res_unfold) simp
  next
    fix y assume y: "b s = Ok (Next y)" "I y" "m y < m s"
    from less.hyps [OF y(3,2)] y(1) show ?thesis by (subst loop_res_unfold) simp
  qed
qed

text \<open>The outcomes of a loop that may panic but comes to an end.\<close>

lemma loop_res_outcome:
  assumes "I s"
    and step: "\<And>x. I x \<Longrightarrow> case b x of Ok (Done r) \<Rightarrow> Q r | Ok (Next y) \<Rightarrow> I y \<and> (m y :: nat) < m x | Panic e \<Rightarrow> E e | Diverge \<Rightarrow> False"
  shows "case loop_res b s of Ok r \<Rightarrow> Q r | Panic e \<Rightarrow> E e | Diverge \<Rightarrow> False"
  using \<open>I s\<close>
proof (induction "m s" arbitrary: s rule: less_induct)
  case less
  have "case loop_res b y of Ok r \<Rightarrow> Q r | Panic e \<Rightarrow> E e | Diverge \<Rightarrow> False" if "b s = Ok (Next y)" for y
    using step [OF less.prems] that less.hyps [of y] by simp
  with step [OF less.prems] show ?case
    by (subst loop_res_unfold) (simp split: res.splits ctl.splits)
qed

lemma loop_res_rule:
  assumes ret: "loop_res b s = Ok r"
    and "I s"
    and next_step: "\<And>x y. I x \<Longrightarrow> b x = Ok (Next y) \<Longrightarrow> I y"
    and done_step: "\<And>x r. I x \<Longrightarrow> b x = Ok (Done r) \<Longrightarrow> Q r"
  shows "Q r"
proof -
  let ?c = "\<lambda>x. case x of Next _ \<Rightarrow> True | Done _ \<Rightarrow> False"
  let ?b = "\<lambda>x. case x of Next s \<Rightarrow> b s | Done r \<Rightarrow> Ok (Done r)"
  from ret obtain x where "while_res ?c ?b (Next s) = Ok x" "(case x of Done r \<Rightarrow> Ok r | Next _ \<Rightarrow> Diverge) = Ok r"
    unfolding loop_res_def bnd_eq_Ok_iff by blast
  then have w: "while_res ?c ?b (Next s) = Ok (Done r)" by (cases x) auto
  let ?I = "\<lambda>x. case x of Next s \<Rightarrow> I s | Done r \<Rightarrow> Q r"
  have "?I (Done r)"
  proof (rule while_res_rule [where I = ?I, OF w, THEN conjunct1])
    show "?I (Next s)" using \<open>I s\<close> by simp
    show "?I y" if "?I x" "?c x" "?b x = Ok y" for x y
      using that next_step done_step by (cases x; cases y) auto
  qed
  then show ?thesis by simp
qed

section \<open>Arrays as functions, C strings\<close>

text \<open>
  A C array of fixed size is a function of the index; the loops of the model stay inside
  its bounds. A C string constant is its bytes with the terminating NUL.
\<close>

definition cstr :: "string \<Rightarrow> u8 list" where
  "cstr s = map of_char s @ [0]"

lemma fold_fun_upd_notin: "k \<notin> set is \<Longrightarrow> fold (\<lambda>i f. f(i := g i (f i))) is f k = f k"
  by (induction "is" arbitrary: f) auto

lemma fold_fun_upd_in:
  "distinct is \<Longrightarrow> k \<in> set is \<Longrightarrow> fold (\<lambda>i f. f(i := g i (f i))) is f k = g k (f k)"
  by (induction "is" arbitrary: f) (auto simp: fold_fun_upd_notin)

section \<open>Word arithmetic\<close>

lemma unat_lt64: "unat (x :: u64) < 2 ^ 64"
proof -
  have "unat x < 2 ^ LENGTH(64)" by (rule unsigned_less)
  then show ?thesis by simp
qed

lemma unat_of_nat64: "k < 2 ^ 64 \<Longrightarrow> unat (of_nat k :: u64) = k"
  by (simp add: unat_of_nat)

lemma unat_minus_one64: "unat (- 1 :: u64) = 2 ^ 64 - 1"
  by (simp add: unsigned_minus_1_eq_mask mask_eq_exp_minus_1)

lemma unat_ucast_u32: "unat (ucast (n :: u32) :: u64) = unat n"
  by transfer (simp add: take_bit_take_bit nat_take_bit_eq)

lemma unat_less_Suc_step: "unat (x :: u64) < Suc k \<longleftrightarrow> x = 0 \<or> unat (x - 1) < k"
proof (cases "x = 0")
  case False
  then have "unat (x - 1) = unat x - 1" "0 < unat x"
    by (simp_all add: unat_minus_one unat_gt_0)
  with False show ?thesis by auto
qed simp

lemma add_of_nat_neq:
  assumes "unat s + k \<le> 2 ^ 64" "unat d + k \<le> 2 ^ 64" "i < k" "j < k" "unat s + i \<noteq> unat d + j"
  shows "(s :: u64) + of_nat i \<noteq> d + of_nat j"
proof
  assume eq: "s + of_nat i = d + of_nat j"
  from assms have "unat (s + of_nat i) = unat s + i" "unat (d + of_nat j) = unat d + j"
    by (simp_all add: unat_word_ariths unat_of_nat)
  with eq assms(5) show False by simp
qed

lemma ex_shift_nat: "(\<exists>i<n. P (k + i)) \<longleftrightarrow> (\<exists>j. k \<le> j \<and> j < k + n \<and> P (j :: nat))"
proof
  assume "\<exists>j. k \<le> j \<and> j < k + n \<and> P j"
  then obtain j where "k \<le> j" "j < k + n" "P j" by blast
  then show "\<exists>i<n. P (k + i)" by (intro exI [of _ "j - k"]) auto
qed (metis le_add1 nat_add_left_cancel_less)

section \<open>Splitting a list at a separator\<close>

fun split_on :: "'a \<Rightarrow> 'a list \<Rightarrow> 'a list list" where
  "split_on c [] = [[]]"
| "split_on c (x # xs) = (if x = c then [] # split_on c xs
     else (case split_on c xs of [] \<Rightarrow> [[x]] | y # ys \<Rightarrow> (x # y) # ys))"

lemma split_on_nonempty: "split_on c xs \<noteq> []"
  by (induction xs) (auto split: list.splits)

lemma split_on_first:
  "split_on c xs = takeWhile (\<lambda>x. x \<noteq> c) xs # (case dropWhile (\<lambda>x. x \<noteq> c) xs of [] \<Rightarrow> [] | _ # ys \<Rightarrow> split_on c ys)"
  by (induction xs) (auto split: list.splits)

lemma split_on_single: "c \<notin> set xs \<Longrightarrow> split_on c xs = [xs]"
  by (induction xs) auto

lemma split_on_append: "split_on c (xs @ ys) = butlast (split_on c xs) @ split_on c (last (split_on c xs) @ ys)"
proof (induction xs)
  case (Cons x xs)
  then show ?case using split_on_nonempty [of c xs] by (cases "split_on c xs") (auto split: list.splits)
qed simp

lemma notin_split_on: "ys \<in> set (split_on c xs) \<Longrightarrow> c \<notin> set ys"
proof (induction xs arbitrary: ys)
  case (Cons x xs)
  then show ?case by (cases "split_on c xs") (auto split: if_splits)
qed simp

lemma set_split_on: "ys \<in> set (split_on c xs) \<Longrightarrow> set ys \<subseteq> set xs"
proof (induction xs arbitrary: ys)
  case (Cons x xs)
  then show ?case by (cases "split_on c xs") (fastforce split: if_splits)+
qed simp

section \<open>Lemma collections\<close>

named_theorems lock_simps \<open>how locking rewrites the state\<close>
named_theorems frame_simps \<open>what an operation leaves alone\<close>

end
