(* ===== verification/Xv6_Structs.thy ===== *)
theory Xv6_Structs
  imports Xv6_Prelude
begin

text \<open>
  The data of the kernel: the constants of \<^verbatim>\<open>param.h\<close>, \<^verbatim>\<open>memlayout.h\<close>, \<^verbatim>\<open>riscv.h\<close> and
  \<^verbatim>\<open>proc.h\<close>, and its structs as records. A pointer into a static array is the index of the
  element, a null pointer is \<open>None\<close>; a pointer to a page of physical memory is its address,
  with 0 for null. A lock is named by a value of \<open>lockid\<close> (in C it is a member of the struct
  it protects), and the lock itself is looked up in the table \<open>lks\<close>. A wait channel (any
  address, in C) is a value of \<open>wchan\<close>, one constructor per address the kernel sleeps on.

  \<open>kernel\<close> is the whole state of the machine as the kernel sees it. \<open>world\<close> adds the rest of
  the system: \<open>env n k\<close> is what the other threads, the other harts and the devices do to the
  kernel state \<open>k\<close> the \<open>n\<close>-th time the running thread is switched out or spins, and \<open>None\<close>
  says that the thread is never resumed. Every theorem holds for every environment that
  meets its hypotheses. \<open>junk\<close> is what local arrays hold before they are written.
\<close>

section \<open>Constants\<close>

definition NPROC :: nat where "NPROC = 64"
definition NCPU :: nat where "NCPU = 8"
definition NOFILE :: nat where "NOFILE = 16"
definition NEVENT :: int where "NEVENT = 256"
definition MAXEVENTNAME :: int where "MAXEVENTNAME = 32"
definition PGSIZE :: u64 where "PGSIZE = 4096"
definition KERNBASE :: u64 where "KERNBASE = 0x80000000"
definition PHYSTOP :: u64 where "PHYSTOP = KERNBASE + 128*1024*1024"
definition MAXVA :: u64 where "MAXVA = push_bit (9 + 9 + 9 + 12 - 1) 1"
definition TRAMPOLINE :: u64 where "TRAMPOLINE = MAXVA - PGSIZE"
definition TRAPFRAME :: u64 where "TRAPFRAME = TRAMPOLINE - PGSIZE"

definition KSTACK :: "nat \<Rightarrow> u64" where
  "KSTACK p = TRAMPOLINE - (of_nat p + 1) * 2 * PGSIZE"

definition PGROUNDUP :: "u64 \<Rightarrow> u64" where
  "PGROUNDUP sz = (sz + PGSIZE - 1) AND NOT (PGSIZE - 1)"

definition PGROUNDDOWN :: "u64 \<Rightarrow> u64" where
  "PGROUNDDOWN a = a AND NOT (PGSIZE - 1)"

section \<open>Locks and processors\<close>

datatype sleepid = Buf_lock nat | Inode_lock nat

datatype lockid =
    Kmem_lock | Pid_lock | Wait_lock | Kq_lock | Proc_lock nat | Tickslock
  | Pipe_lock u64 | Cons_lock | Tx_lock | Pr_lock | Ftable_lock | Bcache_lock
  | Log_lock | Itable_lock | Vdisk_lock | Sleep_lk sleepid

record spinlock =
  lk_locked :: u32
  lk_name :: string
  lk_cpu :: "nat option"

record sleeplock =
  sl_locked :: u32
  sl_name :: string
  sl_pid :: int

text \<open>
  \<^verbatim>\<open>struct cpu\<close>. Its \<^verbatim>\<open>context\<close> is a register save area that only \<^verbatim>\<open>swtch.S\<close> reads and
  writes, and is left out. \<open>sie\<close> is each hart's interrupt-enable bit in \<^verbatim>\<open>sstatus\<close> and
  \<open>hart\<close> its \<^verbatim>\<open>tp\<close> register, for the hart that runs the code.
\<close>

record cpu =
  cpu_proc :: "nat option"
  cpu_noff :: int
  cpu_intena :: bool

record sync =
  lks :: "lockid \<Rightarrow> spinlock"
  cpus :: "nat \<Rightarrow> cpu"
  sie :: "nat \<Rightarrow> bool"
  hart :: nat

section \<open>Processes\<close>

datatype wchan =
    Ch_kq | Ch_proc nat | Ch_ticks | Ch_nread u64 | Ch_nwrite u64 | Ch_cons_r
  | Ch_tx | Ch_sleeplock sleepid | Ch_log | Ch_buf nat | Ch_disk_free

datatype procstate = UNUSED | USED | SLEEPING | RUNNABLE | RUNNING | ZOMBIE

text \<open>Saved registers for kernel context switches; \<open>ctx_s\<close> is \<^verbatim>\<open>s0 .. s11\<close>.\<close>

record context_regs =
  ctx_ra :: u64
  ctx_sp :: u64
  ctx_s :: "u64 list"

text \<open>
  \<^verbatim>\<open>struct trapframe\<close>; \<open>tf_other\<close> holds the saved user registers that the kernel only copies
  as a whole (\<^verbatim>\<open>ra\<close>, \<^verbatim>\<open>gp\<close>, \<^verbatim>\<open>tp\<close>, \<^verbatim>\<open>t0 .. t6\<close>, \<^verbatim>\<open>s0 .. s11\<close>, \<^verbatim>\<open>a6\<close>).
\<close>

record trapframe =
  tf_kernel_satp :: u64
  tf_kernel_sp :: u64
  tf_kernel_trap :: u64
  tf_epc :: u64
  tf_kernel_hartid :: u64
  tf_sp :: u64
  tf_a0 :: u64
  tf_a1 :: u64
  tf_a2 :: u64
  tf_a3 :: u64
  tf_a4 :: u64
  tf_a5 :: u64
  tf_a7 :: u64
  tf_other :: "u64 list"

record proc =
  p_state :: procstate
  p_chan :: "wchan option"
  p_killed :: int
  p_xstate :: int
  p_pid :: int
  p_parent :: "nat option"
  p_kstack :: u64
  p_sz :: u64
  p_pagetable :: u64
  p_trapframe :: u64
  p_context :: context_regs
  p_ofile :: "nat \<Rightarrow> nat option"
  p_cwd :: "nat option"
  p_name :: "u8 list"

text \<open>
  \<^verbatim>\<open>struct event\<close>; \<open>ev_pad\<close> is the four bytes the compiler puts before the 8-aligned
  \<^verbatim>\<open>timestamp\<close>, which a struct copy carries along.
\<close>

record event =
  ev_pid :: int
  ev_name :: "u8 list"
  ev_pad :: "u8 list"
  ev_timestamp :: u64

record kqueue =
  kq_events :: "int \<Rightarrow> event"
  kq_head :: int
  kq_tail :: int
  kq_count :: int

section \<open>Pipes and the console\<close>

definition PIPESIZE :: u32 where "PIPESIZE = 512"
definition INPUT_BUF_SIZE :: u32 where "INPUT_BUF_SIZE = 128"

record pipe =
  pi_data :: "u32 \<Rightarrow> u8"
  pi_nread :: u32
  pi_nwrite :: u32
  pi_readopen :: int
  pi_writeopen :: int

record cons =
  cons_buf :: "u32 \<Rightarrow> u8"
  cons_r :: u32
  cons_w :: u32
  cons_e :: u32

section \<open>Devices\<close>

text \<open>
  A memory-mapped device: \<open>io_hist\<close> is every access to its registers so far, latest first, and
  \<open>io_read h r\<close> is what the device answers to a read of register \<open>r\<close> after the accesses \<open>h\<close>. The devices
  are not part of the kernel, so \<open>io_read\<close> is a parameter of the state.
\<close>

datatype 'v mmio = Rd u32 | Wr u32 'v

record 'v iodev =
  io_hist :: "'v mmio list"
  io_read :: "'v mmio list \<Rightarrow> u32 \<Rightarrow> 'v"

definition io_get :: "u32 \<Rightarrow> 'v iodev \<Rightarrow> 'v \<times> 'v iodev" where
  "io_get r d = (io_read d (io_hist d) r, d\<lparr>io_hist := Rd r # io_hist d\<rparr>)"

definition io_put :: "u32 \<Rightarrow> 'v \<Rightarrow> 'v iodev \<Rightarrow> 'v iodev" where
  "io_put r v d = d\<lparr>io_hist := Wr r v # io_hist d\<rparr>"

section \<open>The disk and the file system\<close>

text \<open>
  A disk block (\<^verbatim>\<open>uchar data[BSIZE]\<close>) is a function of the byte index. Buffer \<open>NBUF\<close> is \<^verbatim>\<open>bcache.head\<close>,
  the head of the list threaded through \<open>b_prev\<close> and \<open>b_next\<close>.
\<close>

type_synonym block = "nat \<Rightarrow> u8"

definition BSIZE :: nat where "BSIZE = 1024"
definition NBUF :: nat where "NBUF = 30"
definition NINODE :: nat where "NINODE = 50"
definition NFILE :: nat where "NFILE = 100"
definition NDEV :: int where "NDEV = 10"
definition ROOTDEV :: u32 where "ROOTDEV = 1"
definition ROOTINO :: u32 where "ROOTINO = 1"
definition MAXOPBLOCKS :: int where "MAXOPBLOCKS = 10"
definition LOGBLOCKS :: int where "LOGBLOCKS = 30"
definition NDIRECT :: nat where "NDIRECT = 12"
definition NINDIRECT :: nat where "NINDIRECT = 256"
definition MAXFILE :: nat where "MAXFILE = 268"
definition DIRSIZ :: nat where "DIRSIZ = 14"
definition NUM :: nat where "NUM = 8"

record buf =
  b_valid :: int
  b_disk :: int
  b_dev :: u32
  b_blockno :: u32
  b_refcnt :: u32
  b_prev :: nat
  b_next :: nat
  b_data :: block

record inode =
  i_dev :: u32
  i_inum :: u32
  i_ref :: int
  i_valid :: int
  i_type :: u16
  i_major :: u16
  i_minor :: u16
  i_nlink :: u16
  i_size :: u32
  i_addrs :: "nat \<Rightarrow> u32"

datatype filetype = FD_NONE | FD_PIPE | FD_INODE | FD_DEVICE

record file_s =
  f_type :: filetype
  f_ref :: int
  f_readable :: bool
  f_writable :: bool
  f_pipe :: u64
  f_ip :: "nat option"
  f_off :: u32
  f_major :: u16

record logheader =
  lh_n :: int
  lh_block :: "nat \<Rightarrow> int"

record log =
  log_start :: int
  log_outstanding :: int
  log_committing :: int
  log_dev :: int
  log_lh :: logheader

record superblock =
  sb_magic :: u32
  sb_size :: u32
  sb_nblocks :: u32
  sb_ninodes :: u32
  sb_nlog :: u32
  sb_logstart :: u32
  sb_inodestart :: u32
  sb_bmapstart :: u32

text \<open>
  The virtio block driver. What a descriptor's address field points to is one of the driver's own
  objects: the request header \<^verbatim>\<open>ops[i]\<close>, the data of buffer \<open>b\<close>, or the status byte \<^verbatim>\<open>info[i].status\<close>.
  The rings \<open>vd_avail_ring\<close> and \<open>vd_used_ring\<close> and the index \<open>vd_used_idx_dev\<close> are shared with the device.
\<close>

datatype dma = Dma_null | Dma_op nat | Dma_data nat | Dma_status nat

record virtq_desc =
  vq_addr :: dma
  vq_len :: u32
  vq_flags :: u16
  vq_next :: u16

record virtio_blk_req =
  vr_type :: u32
  vr_reserved :: u32
  vr_sector :: u64

record vdisk =
  vd_desc :: "nat \<Rightarrow> virtq_desc"
  vd_avail_idx :: u16
  vd_avail_ring :: "nat \<Rightarrow> u16"
  vd_used_idx_dev :: u16
  vd_used_ring :: "nat \<Rightarrow> u32"
  vd_free :: "nat \<Rightarrow> bool"
  vd_used_idx :: u16
  vd_info_b :: "nat \<Rightarrow> nat option"
  vd_info_status :: "nat \<Rightarrow> u8"
  vd_ops :: "nat \<Rightarrow> virtio_blk_req"
  vd_pages :: "u64 \<times> u64 \<times> u64"

text \<open>\<open>blocks\<close> is the content of the disk; \<open>devsw\<close> is \<open>True\<close> at a major number with installed functions.\<close>

record fsys =
  bufs :: "nat \<Rightarrow> buf"
  inodes :: "nat \<Rightarrow> inode"
  files :: "nat \<Rightarrow> file_s"
  logst :: log
  sblk :: superblock
  vdisk :: vdisk
  blocks :: "u32 \<Rightarrow> block"
  devsw :: "nat \<Rightarrow> bool"

section \<open>The machine\<close>

text \<open>Addresses that the linker script and the assembly files fix.\<close>

record image =
  ld_end :: u64
  ld_etext :: u64
  ld_trampoline :: u64
  ld_forkret :: u64
  ld_usertrap :: u64
  ld_kernelvec :: u64
  ld_uservec :: u64
  ld_userret :: u64
  ld_main :: u64

text \<open>The control registers of a hart that the kernel reads or writes.\<close>

record hartregs =
  hr_satp :: u64
  hr_stvec :: u64
  hr_sepc :: u64
  hr_scause :: u64
  hr_stval :: u64
  hr_spp :: bool
  hr_spie :: bool
  hr_stimecmp :: u64
  hr_sie :: u64
  hr_mhartid :: u64
  hr_mstatus :: u64
  hr_mepc :: u64
  hr_medeleg :: u64
  hr_mideleg :: u64
  hr_pmpaddr0 :: u64
  hr_pmpcfg0 :: u64
  hr_mie :: u64
  hr_menvcfg :: u64
  hr_mcounteren :: u64

record kernel =
  sync :: sync
  slks :: "sleepid \<Rightarrow> sleeplock"
  mem :: "u64 \<Rightarrow> u8"
  freelist :: u64
  procs :: "nat \<Rightarrow> proc"
  initproc :: "nat option"
  nextpid :: int
  kq :: kqueue
  tframes :: "u64 \<Rightarrow> trapframe"
  ticks :: u32
  mtime :: u64
  pipes :: "u64 \<Rightarrow> pipe"
  cons_st :: cons
  tx_busy :: int
  panicking :: bool
  panicked :: bool
  uart :: "u8 iodev"
  plic :: "u32 iodev"
  virtio :: "u32 iodev"
  fs :: fsys
  fs_first :: bool
  started :: bool
  junk :: "nat \<Rightarrow> u8"
  kernel_pagetable :: u64
  hregs :: "nat \<Rightarrow> hartregs"
  ld :: image

record world = kernel +
  env :: "nat \<Rightarrow> kernel \<Rightarrow> kernel option"
  nsw :: nat

text \<open>
  The running thread gives up the processor (\<^verbatim>\<open>swtch\<close>, in assembly) or waits for another
  hart: the rest of the system acts, and the thread goes on in the state it finds.
\<close>

definition others_run :: "world \<Rightarrow> world res" where
  "others_run w =
     (case env w (nsw w) (kernel.truncate w) of
        None \<Rightarrow> Diverge
      | Some k \<Rightarrow> Ok (kernel.extend k \<lparr>env = env w, nsw = Suc (nsw w)\<rparr>))"

section \<open>Static storage at boot\<close>

text \<open>
  What the loader leaves: static variables without an initialiser are zero, \<^verbatim>\<open>nextpid\<close> is 1. The
  contents of RAM, the rest of the system and the addresses of the image are parameters.
\<close>

definition zero_context :: context_regs where
  "zero_context = \<lparr>ctx_ra = 0, ctx_sp = 0, ctx_s = replicate 12 0\<rparr>"

definition zero_trapframe :: trapframe where
  "zero_trapframe = \<lparr>tf_kernel_satp = 0, tf_kernel_sp = 0, tf_kernel_trap = 0, tf_epc = 0,
     tf_kernel_hartid = 0, tf_sp = 0, tf_a0 = 0, tf_a1 = 0, tf_a2 = 0, tf_a3 = 0, tf_a4 = 0,
     tf_a5 = 0, tf_a7 = 0, tf_other = replicate 23 0\<rparr>"

definition zero_proc :: proc where
  "zero_proc = \<lparr>p_state = UNUSED, p_chan = None, p_killed = 0, p_xstate = 0, p_pid = 0,
     p_parent = None, p_kstack = 0, p_sz = 0, p_pagetable = 0, p_trapframe = 0,
     p_context = zero_context, p_ofile = (\<lambda>_. None), p_cwd = None, p_name = replicate 16 0\<rparr>"

definition zero_event :: event where
  "zero_event = \<lparr>ev_pid = 0, ev_name = replicate 32 0, ev_pad = replicate 4 0, ev_timestamp = 0\<rparr>"

definition boot_sync :: sync where
  "boot_sync = \<lparr>lks = (\<lambda>_. \<lparr>lk_locked = 0, lk_name = [], lk_cpu = None\<rparr>),
     cpus = (\<lambda>_. \<lparr>cpu_proc = None, cpu_noff = 0, cpu_intena = False\<rparr>), sie = (\<lambda>_. False), hart = 0\<rparr>"

definition zero_fsys :: fsys where
  "zero_fsys = \<lparr>bufs = (\<lambda>_. \<lparr>b_valid = 0, b_disk = 0, b_dev = 0, b_blockno = 0, b_refcnt = 0,
        b_prev = 0, b_next = 0, b_data = (\<lambda>_. 0)\<rparr>),
     inodes = (\<lambda>_. \<lparr>i_dev = 0, i_inum = 0, i_ref = 0, i_valid = 0, i_type = 0, i_major = 0,
        i_minor = 0, i_nlink = 0, i_size = 0, i_addrs = (\<lambda>_. 0)\<rparr>),
     files = (\<lambda>_. \<lparr>f_type = FD_NONE, f_ref = 0, f_readable = False, f_writable = False, f_pipe = 0,
        f_ip = None, f_off = 0, f_major = 0\<rparr>),
     logst = \<lparr>log_start = 0, log_outstanding = 0, log_committing = 0, log_dev = 0,
        log_lh = \<lparr>lh_n = 0, lh_block = (\<lambda>_. 0)\<rparr>\<rparr>,
     sblk = \<lparr>sb_magic = 0, sb_size = 0, sb_nblocks = 0, sb_ninodes = 0, sb_nlog = 0, sb_logstart = 0,
        sb_inodestart = 0, sb_bmapstart = 0\<rparr>,
     vdisk = \<lparr>vd_desc = (\<lambda>_. \<lparr>vq_addr = Dma_null, vq_len = 0, vq_flags = 0, vq_next = 0\<rparr>),
        vd_avail_idx = 0, vd_avail_ring = (\<lambda>_. 0), vd_used_idx_dev = 0, vd_used_ring = (\<lambda>_. 0),
        vd_free = (\<lambda>_. False), vd_used_idx = 0, vd_info_b = (\<lambda>_. None), vd_info_status = (\<lambda>_. 0),
        vd_ops = (\<lambda>_. \<lparr>vr_type = 0, vr_reserved = 0, vr_sector = 0\<rparr>), vd_pages = (0, 0, 0)\<rparr>,
     blocks = (\<lambda>_ _. 0), devsw = (\<lambda>_. False)\<rparr>"

text \<open>A device all of whose registers read 0.\<close>

definition silent_dev :: "'v::zero iodev" where
  "silent_dev = \<lparr>io_hist = [], io_read = (\<lambda>_ _. 0)\<rparr>"

definition boot_world :: "image \<Rightarrow> (u64 \<Rightarrow> u8) \<Rightarrow> (nat \<Rightarrow> kernel \<Rightarrow> kernel option) \<Rightarrow> world" where
  "boot_world im ram e = \<lparr>sync = boot_sync, slks = (\<lambda>_. \<lparr>sl_locked = 0, sl_name = [], sl_pid = 0\<rparr>),
     mem = ram, freelist = 0, procs = (\<lambda>_. zero_proc), initproc = None, nextpid = 1,
     kq = \<lparr>kq_events = (\<lambda>_. zero_event), kq_head = 0, kq_tail = 0, kq_count = 0\<rparr>,
     tframes = (\<lambda>_. zero_trapframe), ticks = 0, mtime = 0,
     pipes = (\<lambda>_. \<lparr>pi_data = (\<lambda>_. 0), pi_nread = 0, pi_nwrite = 0, pi_readopen = 0, pi_writeopen = 0\<rparr>),
     cons_st = \<lparr>cons_buf = (\<lambda>_. 0), cons_r = 0, cons_w = 0, cons_e = 0\<rparr>, tx_busy = 0,
     panicking = False, panicked = False, uart = silent_dev, plic = silent_dev, virtio = silent_dev,
     fs = zero_fsys, fs_first = True, started = False, junk = (\<lambda>_. 0), kernel_pagetable = 0,
     hregs = (\<lambda>h. \<lparr>hr_satp = 0, hr_stvec = 0, hr_sepc = 0, hr_scause = 0, hr_stval = 0,
        hr_spp = False, hr_spie = False, hr_stimecmp = 0, hr_sie = 0, hr_mhartid = of_nat h,
        hr_mstatus = 0, hr_mepc = 0, hr_medeleg = 0, hr_mideleg = 0, hr_pmpaddr0 = 0, hr_pmpcfg0 = 0,
        hr_mie = 0, hr_menvcfg = 0, hr_mcounteren = 0\<rparr>), ld = im,
     env = e, nsw = 0\<rparr>"

text \<open>An image of the size this kernel is linked to, for the examples.\<close>

definition small_image :: image where
  "small_image = \<lparr>ld_end = 0x80023000, ld_etext = 0x80008000, ld_trampoline = 0x80007000,
     ld_forkret = 0x80001C00, ld_usertrap = 0x80002A00, ld_kernelvec = 0x80006000,
     ld_uservec = 0x80007000, ld_userret = 0x8000709C, ld_main = 0x80000C00\<rparr>"

end
