(* ===== verification/Xv6_String.thy ===== *)
theory Xv6_String
  imports Xv6_Structs
begin

text \<open>
  \<^verbatim>\<open>kernel/string.c\<close>: the block and string routines on byte memory, and their copies on a
  \<^verbatim>\<open>char\<close> array of a struct (a byte list) for the callers that pass one. The lemmas say what
  each leaves in memory: \<open>memmove\<close> copies the original block whatever the overlap,
  \<open>safestrcpy\<close> always terminates its result and never writes outside its \<open>n\<close> bytes.
\<close>

type_synonym memory = "u64 \<Rightarrow> u8"

section \<open>Block routines\<close>

primrec memset_loop :: "nat \<Rightarrow> u64 \<Rightarrow> u8 \<Rightarrow> memory \<Rightarrow> memory" where
  "memset_loop 0 p c m = m"
| "memset_loop (Suc k) p c m = memset_loop k (p + 1) c (m(p := c))"

definition memset :: "u64 \<Rightarrow> int \<Rightarrow> u32 \<Rightarrow> memory \<Rightarrow> memory" where
  "memset dst c n m = memset_loop (unat n) dst (word_of_int c) m"

primrec memcmp_loop :: "nat \<Rightarrow> u64 \<Rightarrow> u64 \<Rightarrow> memory \<Rightarrow> int" where
  "memcmp_loop 0 s1 s2 m = 0"
| "memcmp_loop (Suc k) s1 s2 m =
     (if m s1 \<noteq> m s2 then uint (m s1) - uint (m s2) else memcmp_loop k (s1 + 1) (s2 + 1) m)"

definition memcmp :: "u64 \<Rightarrow> u64 \<Rightarrow> u32 \<Rightarrow> memory \<Rightarrow> int" where
  "memcmp v1 v2 n m = memcmp_loop (unat n) v1 v2 m"

primrec copy_up :: "nat \<Rightarrow> u64 \<Rightarrow> u64 \<Rightarrow> memory \<Rightarrow> memory" where
  "copy_up 0 d s m = m"
| "copy_up (Suc k) d s m = copy_up k (d + 1) (s + 1) (m(d := m s))"

primrec copy_down :: "nat \<Rightarrow> u64 \<Rightarrow> u64 \<Rightarrow> memory \<Rightarrow> memory" where
  "copy_down 0 d s m = m"
| "copy_down (Suc k) d s m = copy_down k (d - 1) (s - 1) (m(d - 1 := m (s - 1)))"

definition memmove :: "u64 \<Rightarrow> u64 \<Rightarrow> u32 \<Rightarrow> memory \<Rightarrow> memory" where
  "memmove dst src n m =
     (if n = 0 then m
      else if src < dst \<and> src + ucast n > dst
      then copy_down (unat n) (dst + ucast n) (src + ucast n) m
      else copy_up (unat n) dst src m)"

definition memcpy :: "u64 \<Rightarrow> u64 \<Rightarrow> u32 \<Rightarrow> memory \<Rightarrow> memory" where
  "memcpy dst src n m = memmove dst src n m"

section \<open>String routines\<close>

primrec strncmp_loop :: "nat \<Rightarrow> u64 \<Rightarrow> u64 \<Rightarrow> memory \<Rightarrow> int" where
  "strncmp_loop 0 p q m = 0"
| "strncmp_loop (Suc k) p q m =
     (if m p \<noteq> 0 \<and> m p = m q then strncmp_loop k (p + 1) (q + 1) m
      else uint (m p) - uint (m q))"

definition strncmp :: "u64 \<Rightarrow> u64 \<Rightarrow> u32 \<Rightarrow> memory \<Rightarrow> int" where
  "strncmp p q n m = strncmp_loop (unat n) p q m"

primrec strncpy_loop :: "nat \<Rightarrow> u64 \<Rightarrow> u64 \<Rightarrow> memory \<Rightarrow> memory" where
  "strncpy_loop 0 s t m = m"
| "strncpy_loop (Suc k) s t m =
     (let c = m t; m = m(s := c)
      in if c \<noteq> 0 then strncpy_loop k (s + 1) (t + 1) m
         else memset_loop k (s + 1) 0 m)"

definition strncpy :: "u64 \<Rightarrow> u64 \<Rightarrow> int \<Rightarrow> memory \<Rightarrow> memory" where
  "strncpy s t n m = strncpy_loop (nat n) s t m"

text \<open>\<open>k\<close> is \<^verbatim>\<open>n - 1\<close>, the number of bytes that may still be copied before the final NUL.\<close>

primrec safestrcpy_loop :: "nat \<Rightarrow> u64 \<Rightarrow> u64 \<Rightarrow> memory \<Rightarrow> memory" where
  "safestrcpy_loop 0 s t m = m(s := 0)"
| "safestrcpy_loop (Suc k) s t m =
     (let c = m t; m = m(s := c)
      in if c \<noteq> 0 then safestrcpy_loop k (s + 1) (t + 1) m else m(s + 1 := 0))"

definition safestrcpy :: "u64 \<Rightarrow> u64 \<Rightarrow> int \<Rightarrow> memory \<Rightarrow> memory" where
  "safestrcpy s t n m = (if n \<le> 0 then m else safestrcpy_loop (nat n - 1) s t m)"

text \<open>\<^verbatim>\<open>strlen\<close> does not return on memory with no NUL byte.\<close>

definition strlen :: "memory \<Rightarrow> u64 \<Rightarrow> nat option" where
  "strlen m s = while_option (\<lambda>n. m (s + of_nat n) \<noteq> 0) Suc 0"

subsection \<open>On arrays\<close>

text \<open>
  \<^verbatim>\<open>safestrcpy(dst, src, n)\<close> where both are arrays outside the byte memory. A read past the
  end of \<open>src\<close> yields NUL; the kernel never makes one, since every source it passes is
  terminated.
\<close>

definition arr_get :: "u8 list \<Rightarrow> nat \<Rightarrow> u8" where
  "arr_get xs i = (if i < length xs then xs ! i else 0)"

primrec safestrcpy_arr_loop :: "nat \<Rightarrow> nat \<Rightarrow> u8 list \<Rightarrow> u8 list \<Rightarrow> u8 list" where
  "safestrcpy_arr_loop 0 i dst src = dst[i := 0]"
| "safestrcpy_arr_loop (Suc k) i dst src =
     (let c = arr_get src i; dst = dst[i := c]
      in if c \<noteq> 0 then safestrcpy_arr_loop k (Suc i) dst src else dst[Suc i := 0])"

definition safestrcpy_arr :: "u8 list \<Rightarrow> u8 list \<Rightarrow> int \<Rightarrow> u8 list" where
  "safestrcpy_arr dst src n = (if n \<le> 0 then dst else safestrcpy_arr_loop (nat n - 1) 0 dst src)"


subsection \<open>Abstractions used by the statements\<close>

text \<open>The bytes of a buffer, and the string a buffer holds.\<close>

primrec region :: "memory \<Rightarrow> u64 \<Rightarrow> nat \<Rightarrow> u8 list" where
  "region m a 0 = []"
| "region m a (Suc k) = m a # region m (a + 1) k"

definition cstring :: "u8 list \<Rightarrow> u8 list" where
  "cstring xs = takeWhile (\<lambda>c. c \<noteq> 0) xs"

section \<open>Block routines: what they leave in memory\<close>

lemma memset_loop_apply:
  "memset_loop k p c m a = (if unat (a - p) < k then c else m a)"
proof (induction k arbitrary: p m)
  case (Suc k)
  have "unat (a - p) < Suc k \<longleftrightarrow> a = p \<or> unat (a - (p + 1)) < k"
    using unat_less_Suc_step [of "a - p" k] by (simp add: algebra_simps)
  then show ?case by (simp add: Suc.IH)
qed simp

lemma memset_apply:
  "memset dst c n m a = (if unat (a - dst) < unat n then word_of_int c else m a)"
  by (simp add: memset_def memset_loop_apply)

lemma copy_up_apply:
  assumes "\<And>i j. j < i \<Longrightarrow> i < k \<Longrightarrow> s + of_nat i \<noteq> d + of_nat j" and "k < 2 ^ 64"
  shows "copy_up k d s m a = (if unat (a - d) < k then m (s + (a - d)) else m a)"
  using assms
proof (induction k arbitrary: d s m)
  case (Suc k)
  let ?m = "m(d := m s)"
  have IH: "copy_up k (d + 1) (s + 1) ?m a =
      (if unat (a - (d + 1)) < k then ?m (s + 1 + (a - (d + 1))) else ?m a)"
  proof (rule Suc.IH)
    fix i j :: nat
    assume "j < i" "i < k"
    then show "s + 1 + of_nat i \<noteq> d + 1 + of_nat j"
      using Suc.prems(1) [of "Suc j" "Suc i"] by (simp add: algebra_simps)
  qed (use Suc.prems in simp)
  have off: "unat (a - d) < Suc k \<longleftrightarrow> a = d \<or> unat (a - (d + 1)) < k"
    using unat_less_Suc_step [of "a - d" k] by (simp add: algebra_simps)
  show ?case
  proof (cases "a = d")
    case True
    then have "\<not> unat (a - (d + 1)) < k" using Suc.prems(2) by (simp add: unat_minus_one64)
    with True IH show ?thesis by simp
  next
    case False
    then have "s + (a - d) \<noteq> d" if "unat (a - (d + 1)) < k"
      using Suc.prems(1) [of 0 "unat (a - d)"] that off by (auto simp: unat_gt_0)
    moreover have "s + 1 + (a - (d + 1)) = s + (a - d)" by simp
    ultimately show ?thesis using False IH off by (simp del: add_diff_eq)
  qed
qed simp

lemma copy_down_apply:
  assumes "\<And>i j. i < j \<Longrightarrow> j < k \<Longrightarrow> s + of_nat i \<noteq> d + of_nat j" and "k < 2 ^ 64"
  shows "copy_down k (d + of_nat k) (s + of_nat k) m a =
    (if unat (a - d) < k then m (s + (a - d)) else m a)"
  using assms
proof (induction k arbitrary: m)
  case (Suc k)
  let ?m = "m(d + of_nat k := m (s + of_nat k))"
  have "copy_down (Suc k) (d + of_nat (Suc k)) (s + of_nat (Suc k)) m a =
      copy_down k (d + of_nat k) (s + of_nat k) ?m a"
    by (simp add: algebra_simps)
  also have "\<dots> = (if unat (a - d) < k then ?m (s + (a - d)) else ?m a)"
    by (rule Suc.IH) (use Suc.prems in auto)
  also have "\<dots> = (if unat (a - d) < Suc k then m (s + (a - d)) else m a)"
  proof (cases "unat (a - d) < k")
    case True
    then have "s + (a - d) \<noteq> d + of_nat k"
      using Suc.prems(1) [of "unat (a - d)" k] by simp
    with True show ?thesis by simp
  next
    case False
    have "a = d + of_nat k \<longleftrightarrow> a - d = of_nat k" by (auto simp: algebra_simps)
    also have "\<dots> \<longleftrightarrow> unat (a - d) = k"
      using Suc.prems(2) by (auto simp: unat_of_nat64)
    finally have "a = d + of_nat k \<longleftrightarrow> unat (a - d) = k" .
    with False show ?thesis by (auto simp: less_Suc_eq)
  qed
  finally show ?case .
qed simp


lemma memmove_apply:
  assumes "unat src + unat n \<le> 2 ^ 64" and "unat dst + unat n \<le> 2 ^ 64"
  shows "memmove dst src n m a =
    (if unat (a - dst) < unat n then m (src + (a - dst)) else m a)"
proof -
  let ?n = "unat n"
  have n32: "?n < 2 ^ 32" using unsigned_less [of n] by simp
  then have n64: "?n < 2 ^ 64" by simp
  have un: "of_nat ?n = (ucast n :: u64)" by simp
  show ?thesis
  proof (cases "n = 0")
    case True
    then show ?thesis by (simp add: memmove_def)
  next
    case nz: False
    show ?thesis
    proof (cases "src < dst \<and> src + ucast n > dst")
      case True
      have "copy_down ?n (dst + of_nat ?n) (src + of_nat ?n) m a =
          (if unat (a - dst) < ?n then m (src + (a - dst)) else m a)"
      proof (rule copy_down_apply [OF _ n64])
        fix i j :: nat
        assume "i < j" "j < ?n"
        with True assms show "src + of_nat i \<noteq> dst + of_nat j"
          by (intro add_of_nat_neq [of _ ?n]) (auto simp: word_less_nat_alt)
      qed
      with True nz show ?thesis by (simp add: memmove_def)
    next
      case False
      have "copy_up ?n dst src m a =
          (if unat (a - dst) < ?n then m (src + (a - dst)) else m a)"
      proof (rule copy_up_apply [OF _ n64])
        fix i j :: nat
        assume ij: "j < i" "i < ?n"
        have "unat src + i \<noteq> unat dst + j"
        proof (cases "src < dst")
          case True
          with False have le: "src + ucast n \<le> dst" by simp
          show ?thesis
          proof (cases "unat src + ?n < 2 ^ 64")
            case True
            then have "unat (src + ucast n) = unat src + ?n"
              by (simp add: unat_word_ariths unat_ucast_u32)
            with le ij show ?thesis by (simp add: word_le_nat_alt)
          next
            case False
            with assms True ij show ?thesis by (simp add: word_less_nat_alt)
          qed
        next
          case False
          with ij show ?thesis by (simp add: word_less_nat_alt)
        qed
        with assms ij show "src + of_nat i \<noteq> dst + of_nat j"
          by (intro add_of_nat_neq [of _ ?n]) auto
      qed
      with False nz show ?thesis by (auto simp: memmove_def)
    qed
  qed
qed

section \<open>String routines\<close>

lemma cstring_append_NUL: "\<forall>x\<in>set c. x \<noteq> 0 \<Longrightarrow> cstring (c @ 0 # ys) = c"
  by (induction c) (auto simp: cstring_def)

lemma length_region [simp]: "length (region m a k) = k"
  by (induction k arbitrary: a) auto

lemma nth_region: "i < k \<Longrightarrow> region m a k ! i = m (a + of_nat i)"
proof (induction k arbitrary: a i)
  case (Suc k)
  then show ?case by (cases i) (auto simp: algebra_simps)
qed simp

lemma region_cong: "(\<And>i. i < k \<Longrightarrow> m (a + of_nat i) = m' (a + of_nat i)) \<Longrightarrow> region m a k = region m' a k"
  by (rule nth_equalityI) (auto simp: nth_region)

lemma region_upd:
  assumes "i < k" "k \<le> 2 ^ 64"
  shows "region (m(a + of_nat i := c)) a k = (region m a k)[i := c]"
proof (rule nth_equalityI)
  fix j assume "j < length (region (m(a + of_nat i := c)) a k)"
  then have j: "j < k" by simp
  with assms have "unat (of_nat j :: u64) = j" "unat (of_nat i :: u64) = i"
    by (simp_all add: unat_of_nat64)
  then have "(of_nat j = (of_nat i :: u64)) \<longleftrightarrow> j = i" by metis
  with assms j show "region (m(a + of_nat i := c)) a k ! j = (region m a k)[i := c] ! j"
    by (auto simp: nth_region nth_list_update)
qed simp

lemma strncmp_eq_0_iff:
  "strncmp_loop k p q m = 0 \<longleftrightarrow> cstring (region m p k) = cstring (region m q k)"
proof (induction k arbitrary: p q)
  case (Suc k)
  show ?case
  proof (cases "m p \<noteq> 0 \<and> m p = m q")
    case True
    with Suc.IH [of "p + 1" "q + 1"] show ?thesis by (simp add: cstring_def)
  next
    case False
    then have "strncmp_loop (Suc k) p q m = 0 \<longleftrightarrow> uint (m p) = uint (m q)" by auto
    also have "\<dots> \<longleftrightarrow> m p = m q" by (simp add: word_uint_eq_iff)
    finally have "strncmp_loop (Suc k) p q m = 0 \<longleftrightarrow> m p = m q" .
    with False show ?thesis by (auto simp: cstring_def)
  qed
qed (simp add: cstring_def)

lemma safestrcpy_arr_loop_spec:
  assumes "i + k < length dst"
    and "r = safestrcpy_arr_loop k i dst src" and "c = take k (cstring (drop i src))"
  shows "length r = length dst \<and> take i r = take i dst \<and> take (length c) (drop i r) = c
    \<and> r ! (i + length c) = 0 \<and> drop (Suc (i + k)) r = drop (Suc (i + k)) dst"
  using assms
proof (induction k arbitrary: i dst r c)
  case 0
  then show ?case by simp
next
  case (Suc k)
  let ?x = "arr_get src i"
  show ?case
  proof (cases "?x = 0")
    case True
    then have "cstring (drop i src) = []"
      by (cases "i < length src") (auto simp: arr_get_def cstring_def Cons_nth_drop_Suc [symmetric])
    with True Suc.prems show ?thesis by simp
  next
    case False
    then have i: "i < length src" by (auto simp: arr_get_def split: if_splits)
    then have split: "cstring (drop i src) = ?x # cstring (drop (Suc i) src)"
      using False by (simp add: cstring_def arr_get_def Cons_nth_drop_Suc [symmetric])
    let ?c = "take k (cstring (drop (Suc i) src))"
    have r: "r = safestrcpy_arr_loop k (Suc i) (dst[i := ?x]) src"
      using Suc.prems False by simp
    have IH: "length r = length dst \<and> take (Suc i) r = take (Suc i) (dst[i := ?x])
        \<and> take (length ?c) (drop (Suc i) r) = ?c \<and> r ! (Suc i + length ?c) = 0
        \<and> drop (Suc (Suc i + k)) r = drop (Suc (Suc i + k)) (dst[i := ?x])"
      using Suc.IH [of "Suc i" "dst[i := ?x]" r ?c] Suc.prems(1) r by simp
    have c: "c = ?x # ?c" using Suc.prems(3) split by simp
    have il: "i < length dst" using Suc.prems(1) by simp
    have ri: "r ! i = ?x"
    proof -
      from IH have "take (Suc i) r ! i = take (Suc i) (dst[i := ?x]) ! i" by simp
      with il show ?thesis by simp
    qed
    have "take i r = take i dst"
    proof -
      from IH have "take i (take (Suc i) r) = take i (take (Suc i) (dst[i := ?x]))" by simp
      then show ?thesis by (simp add: min_def)
    qed
    moreover have "take (length c) (drop i r) = c"
      using IH c ri il by (simp add: Cons_nth_drop_Suc [symmetric])
    ultimately show ?thesis using IH c by simp
  qed
qed

lemma safestrcpy_arr_spec:
  assumes "0 < n" and "nat n \<le> length dst"
  shows "cstring (safestrcpy_arr dst src n) = take (nat n - 1) (cstring src)
    \<and> length (safestrcpy_arr dst src n) = length dst
    \<and> 0 \<in> set (take (nat n) (safestrcpy_arr dst src n))
    \<and> drop (nat n) (safestrcpy_arr dst src n) = drop (nat n) dst"
proof -
  let ?r = "safestrcpy_arr dst src n" and ?k = "nat n - 1"
  let ?c = "take ?k (cstring src)"
  have k: "?k < length dst" using assms by simp
  have r: "?r = safestrcpy_arr_loop ?k 0 dst src" using assms by (simp add: safestrcpy_arr_def)
  from safestrcpy_arr_loop_spec [of 0 ?k dst ?r src ?c] k r
  have *: "length ?r = length dst" "take (length ?c) ?r = ?c" "?r ! length ?c = 0"
    "drop (Suc ?k) ?r = drop (Suc ?k) dst" by auto
  have lc: "length ?c < nat n" "length ?c < length dst" using assms by auto
  have nz: "\<forall>x\<in>set ?c. x \<noteq> 0"
    by (auto simp: cstring_def dest: in_set_takeD set_takeWhileD)
  have "?r = take (length ?c) ?r @ ?r ! length ?c # drop (Suc (length ?c)) ?r"
    using * lc by (intro id_take_nth_drop) simp
  then have "?r = ?c @ 0 # drop (Suc (length ?c)) ?r" using * by simp
  then have "cstring ?r = cstring (?c @ 0 # drop (Suc (length ?c)) ?r)" by simp
  also have "\<dots> = ?c" by (rule cstring_append_NUL [OF nz])
  finally have "cstring ?r = ?c" .
  moreover have "0 \<in> set (take (nat n) ?r)"
  proof -
    have "take (nat n) ?r ! length ?c = 0" and "length ?c < length (take (nat n) ?r)"
      using * lc by auto
    then show ?thesis by (metis nth_mem)
  qed
  ultimately show ?thesis using * assms by simp
qed

lemma safestrcpy_loop_region:
  assumes "i + k < N" "N \<le> 2 ^ 64"
    and "\<And>a b. a < N \<Longrightarrow> b < N \<Longrightarrow> s + of_nat a \<noteq> t + of_nat b"
  shows "region (safestrcpy_loop k (s + of_nat i) (t + of_nat i) m) s N =
    safestrcpy_arr_loop k i (region m s N) (region m t N)"
  using assms
proof (induction k arbitrary: i m)
  case 0
  then show ?case by (simp add: region_upd del: fun_upd_apply)
next
  case (Suc k)
  let ?c = "m (t + of_nat i)"
  let ?m = "m(s + of_nat i := ?c)"
  have get: "arr_get (region m t N) i = ?c"
    using Suc.prems(1) by (simp add: arr_get_def nth_region)
  have dst: "region ?m s N = (region m s N)[i := ?c]"
    using Suc.prems by (simp add: region_upd)
  have src: "region ?m t N = region m t N"
  proof (rule region_cong)
    fix j assume "j < N"
    with Suc.prems(1,3) have "t + of_nat j \<noteq> s + of_nat i" by (metis add_lessD1)
    then show "?m (t + of_nat j) = m (t + of_nat j)" by simp
  qed
  show ?case
  proof (cases "?c = 0")
    case True
    have "region (?m(s + of_nat (Suc i) := 0)) s N = (region ?m s N)[Suc i := 0]"
      using Suc.prems by (intro region_upd) auto
    with True get dst show ?thesis by (simp add: algebra_simps del: fun_upd_apply)
  next
    case False
    have "region (safestrcpy_loop k (s + of_nat (Suc i)) (t + of_nat (Suc i)) ?m) s N =
        safestrcpy_arr_loop k (Suc i) (region ?m s N) (region ?m t N)"
      using Suc.prems by (intro Suc.IH) auto
    with False get dst src show ?thesis by (simp add: algebra_simps del: fun_upd_apply)
  qed
qed

text \<open>The routine on memory does to two disjoint buffers what the array version does to their contents.\<close>

lemma safestrcpy_region:
  assumes "0 < n" "nat n \<le> 2 ^ 64"
    and "\<And>a b. a < nat n \<Longrightarrow> b < nat n \<Longrightarrow> s + of_nat a \<noteq> t + of_nat b"
  shows "region (safestrcpy s t n m) s (nat n) =
    safestrcpy_arr (region m s (nat n)) (region m t (nat n)) n"
  using safestrcpy_loop_region [of 0 "nat n - 1" "nat n" s t m] assms
  by (simp add: safestrcpy_def safestrcpy_arr_def)

lemma safestrcpy_loop_frame:
  assumes "k < 2 ^ 64" "\<not> unat (a - s) < Suc k"
  shows "safestrcpy_loop k s t m a = m a"
  using assms
proof (induction k arbitrary: s t m)
  case (Suc k)
  have off: "\<And>j. unat (a - s) < Suc j \<longleftrightarrow> a = s \<or> unat (a - (s + 1)) < j"
    using unat_less_Suc_step [of "a - s"] by (simp add: algebra_simps)
  with Suc.prems have "a \<noteq> s" "\<not> unat (a - (s + 1)) < Suc k" by auto
  moreover from this have "a \<noteq> s + 1" by auto
  ultimately show ?case using Suc.IH [of "s + 1"] Suc.prems(1) by (simp add: Let_def)
qed (auto simp: fun_upd_def)

end
