(* ===== verification/Xv6_Spinlock.thy ===== *)
theory Xv6_Spinlock
  imports Xv6_String
begin

text \<open>
  \<^verbatim>\<open>kernel/spinlock.c\<close> and the accessors \<^verbatim>\<open>cpuid\<close>, \<^verbatim>\<open>mycpu\<close>, \<^verbatim>\<open>myproc\<close> of \<^verbatim>\<open>kernel/proc.c\<close>.
  \<open>push_off\<close>, \<open>pop_off\<close>, \<open>holding\<close>, \<open>acquire\<close> and \<open>release\<close> act on the \<open>sync\<close> part of the state
  only; the spin of \<open>acquire\<close> lets the rest of the system run until the lock word is 0. The
  rewrite rules in \<open>lock_simps\<close> evaluate the uncontended path of a critical section: between
  \<open>acquire L\<close> and \<open>release L\<close> the state is \<open>acq L\<close> of the old one, and afterwards it is
  \<open>settle\<close> of it. The last section is the protocol at the granularity of its memory accesses,
  with any number of harts interleaved, and its mutual exclusion.
\<close>

section \<open>Operations\<close>

definition cpuid :: "sync \<Rightarrow> nat" where
  "cpuid s = hart s"

definition mycpu :: "sync \<Rightarrow> cpu" where
  "mycpu s = cpus s (cpuid s)"

definition set_mycpu :: "(cpu \<Rightarrow> cpu) \<Rightarrow> sync \<Rightarrow> sync" where
  "set_mycpu f s = s\<lparr>cpus := (cpus s)(cpuid s := f (mycpu s))\<rparr>"

definition intr_get :: "sync \<Rightarrow> bool" where
  "intr_get s = sie s (hart s)"

definition intr_off :: "sync \<Rightarrow> sync" where
  "intr_off s = s\<lparr>sie := (sie s)(hart s := False)\<rparr>"

definition intr_on :: "sync \<Rightarrow> sync" where
  "intr_on s = s\<lparr>sie := (sie s)(hart s := True)\<rparr>"

definition push_off :: "sync \<Rightarrow> sync" where
  "push_off s =
     (let old = intr_get s;
          s = intr_off s;
          s = (if cpu_noff (mycpu s) = 0 then set_mycpu (cpu_intena_update (\<lambda>_. old)) s else s)
      in set_mycpu (\<lambda>c. c\<lparr>cpu_noff := cpu_noff c + 1\<rparr>) s)"

definition pop_off :: "sync \<Rightarrow> sync res" where
  "pop_off s =
     (if intr_get s then Panic ''pop_off - interruptible''
      else if cpu_noff (mycpu s) < 1 then Panic ''pop_off''
      else let s = set_mycpu (\<lambda>c. c\<lparr>cpu_noff := cpu_noff c - 1\<rparr>) s
           in Ok (if cpu_noff (mycpu s) = 0 \<and> cpu_intena (mycpu s) then intr_on s else s))"

definition holding :: "lockid \<Rightarrow> sync \<Rightarrow> bool" where
  "holding lk s \<longleftrightarrow> lk_locked (lks s lk) \<noteq> 0 \<and> lk_cpu (lks s lk) = Some (cpuid s)"

definition set_lock :: "lockid \<Rightarrow> (spinlock \<Rightarrow> spinlock) \<Rightarrow> sync \<Rightarrow> sync" where
  "set_lock lk f s = s\<lparr>lks := (lks s)(lk := f (lks s lk))\<rparr>"

definition initlock :: "lockid \<Rightarrow> string \<Rightarrow> world \<Rightarrow> world" where
  "initlock lk nm w =
     w\<lparr>sync := set_lock lk (\<lambda>_. \<lparr>lk_locked = 0, lk_name = nm, lk_cpu = None\<rparr>) (sync w)\<rparr>"

definition acquire :: "lockid \<Rightarrow> world \<Rightarrow> world res" where
  "acquire lk w =
     (let w = w\<lparr>sync := push_off (sync w)\<rparr>
      in if holding lk (sync w) then Panic ''acquire''
         else bnd (while_res (\<lambda>w. lk_locked (lks (sync w) lk) \<noteq> 0) others_run w) (\<lambda>w.
              let w = w\<lparr>sync := set_lock lk (lk_locked_update (\<lambda>_. 1)) (sync w)\<rparr>
              in Ok (w\<lparr>sync := set_lock lk (lk_cpu_update (\<lambda>_. Some (cpuid (sync w)))) (sync w)\<rparr>)))"

definition release :: "lockid \<Rightarrow> world \<Rightarrow> world res" where
  "release lk w =
     (if \<not> holding lk (sync w) then Panic ''release''
      else let s = set_lock lk (lk_cpu_update (\<lambda>_. None)) (sync w);
               s = set_lock lk (lk_locked_update (\<lambda>_. 0)) s
           in bnd (pop_off s) (\<lambda>s. Ok (w\<lparr>sync := s\<rparr>)))"

definition myproc :: "world \<Rightarrow> (nat option \<times> world) res" where
  "myproc w =
     (let s = push_off (sync w); p = cpu_proc (mycpu s)
      in bnd (pop_off s) (\<lambda>s. Ok (p, w\<lparr>sync := s\<rparr>)))"

section \<open>The uncontended path\<close>

definition cpu_ok :: "sync \<Rightarrow> bool" where
  "cpu_ok s \<longleftrightarrow> 0 \<le> cpu_noff (mycpu s) \<and> (0 < cpu_noff (mycpu s) \<longrightarrow> \<not> intr_get s)"

definition lock_free :: "lockid \<Rightarrow> sync \<Rightarrow> bool" where
  "lock_free lk s \<longleftrightarrow> lk_locked (lks s lk) = 0 \<and> lk_cpu (lks s lk) = None"

text \<open>The state inside the critical section, the state after it, and what is left of a finished one.\<close>

definition acq :: "lockid \<Rightarrow> sync \<Rightarrow> sync" where
  "acq lk s =
     set_lock lk (\<lambda>l. l\<lparr>lk_locked := 1, lk_cpu := Some (cpuid s)\<rparr>) (push_off s)"

definition rel :: "lockid \<Rightarrow> sync \<Rightarrow> sync" where
  "rel lk s =
     (let s = set_lock lk (\<lambda>l. l\<lparr>lk_cpu := None, lk_locked := 0\<rparr>) s;
          s = set_mycpu (\<lambda>c. c\<lparr>cpu_noff := cpu_noff c - 1\<rparr>) s
      in if cpu_noff (mycpu s) = 0 \<and> cpu_intena (mycpu s) then intr_on s else s)"

definition settle :: "sync \<Rightarrow> sync" where
  "settle s = (if cpu_noff (mycpu s) = 0 then set_mycpu (cpu_intena_update (\<lambda>_. intr_get s)) s else s)"

definition cur :: "sync \<Rightarrow> nat option" where
  "cur s = cpu_proc (mycpu s)"

lemmas sync_defs =
  cpuid_def mycpu_def set_mycpu_def intr_get_def intr_off_def intr_on_def push_off_def
  set_lock_def cpu_ok_def lock_free_def acq_def rel_def settle_def cur_def holding_def

lemma acquire_free [lock_simps]:
  assumes "lock_free lk (sync w)"
  shows "acquire lk w = Ok (w\<lparr>sync := acq lk (sync w)\<rparr>)"
  using assms by (simp add: acquire_def sync_defs Let_def)

lemma release_held [lock_simps]:
  assumes "holding lk (sync w)" "cpu_ok (sync w)" "0 < cpu_noff (mycpu (sync w))"
  shows "release lk w = Ok (w\<lparr>sync := rel lk (sync w)\<rparr>)"
  using assms by (auto simp: release_def pop_off_def sync_defs Let_def)

lemma rel_acq [lock_simps]:
  assumes "lock_free lk s" "cpu_ok s"
  shows "rel lk (acq lk s) = settle s"
  using assms by (auto simp: sync_defs Let_def fun_upd_def fun_eq_iff intro!: sync.equality cpu.equality spinlock.equality)

lemma acq_simps [lock_simps]:
  "cpu_ok s \<Longrightarrow> cpu_ok (acq lk s)"
  "cpu_ok s \<Longrightarrow> 0 < cpu_noff (mycpu (acq lk s))"
  "holding lk (acq lk s)"
  "lk' \<noteq> lk \<Longrightarrow> lock_free lk' (acq lk s) = lock_free lk' s"
  "cur (acq lk s) = cur s"
  "cpu_ok s \<Longrightarrow> settle (acq lk s) = acq lk s"
  "hart (acq lk s) = hart s"
  by (auto simp: sync_defs Let_def)

lemma settle_simps [lock_simps]:
  "cpu_ok (settle s) = cpu_ok s"
  "lock_free lk (settle s) = lock_free lk s"
  "cur (settle s) = cur s"
  "settle (settle s) = settle s"
  "hart (settle s) = hart s"
  "cpu_noff (mycpu (settle s)) = cpu_noff (mycpu s)"
  by (auto simp: sync_defs Let_def)

lemma myproc_ok [lock_simps]:
  assumes "cpu_ok (sync w)"
  shows "myproc w = Ok (cur (sync w), w\<lparr>sync := settle (sync w)\<rparr>)"
  using assms by (auto simp: myproc_def pop_off_def sync_defs Let_def fun_upd_def fun_eq_iff intro!: sync.equality)


section \<open>Matched push and pop\<close>

lemma push_off_cpu_ok: "cpu_ok s \<Longrightarrow> cpu_ok (push_off s)"
  by (auto simp: sync_defs Let_def)

lemma pop_off_push_off:
  assumes "cpu_ok s"
  shows "pop_off (push_off s) = Ok (settle s)"
  using assms by (auto simp: pop_off_def sync_defs Let_def fun_upd_def fun_eq_iff intro!: sync.equality)

lemma settle_push_off [lock_simps]: "cpu_ok s \<Longrightarrow> settle (push_off s) = push_off s"
  by (auto simp: sync_defs Let_def)

lemma pops_after_pushes:
  assumes "cpu_ok s"
  shows "foreach (\<lambda>_. pop_off) (replicate (Suc n) ()) ((push_off ^^ Suc n) s) = Ok (settle s)"
  using assms
proof (induction n arbitrary: s)
  case 0
  then show ?case by (simp add: pop_off_push_off)
next
  case (Suc n)
  have "foreach (\<lambda>_. pop_off) (replicate (Suc n) ()) ((push_off ^^ Suc n) (push_off s)) =
      Ok (settle (push_off s))"
    by (rule Suc.IH [OF push_off_cpu_ok [OF Suc.prems]])
  then have inner: "foreach (\<lambda>_. pop_off) (replicate (Suc n) ()) ((push_off ^^ Suc (Suc n)) s) =
      Ok (push_off s)"
    by (simp add: funpow_swap1 settle_push_off Suc.prems)
  have "replicate (Suc (Suc n)) () = replicate (Suc n) () @ [()]"
    by (simp add: replicate_append_same [symmetric])
  then show ?case
    using inner by (simp add: foreach_append pop_off_push_off Suc.prems del: replicate.simps funpow.simps)
qed

text \<open>
  C1: \<^verbatim>\<open>push_off\<close> and \<^verbatim>\<open>pop_off\<close> are matched: on a hart whose nesting count is consistent,
  after \<open>n\<close> calls of \<open>push_off\<close> and \<open>n\<close> of \<open>pop_off\<close> no call has panicked, and the nesting
  count and the interrupt-enable bit are what they were before, while in between interrupts
  are off.
\<close>

theorem push_pop_matched:
  assumes "cpu_ok s" and "0 < n"
  shows "\<exists>t. foreach (\<lambda>_. pop_off) (replicate n ()) ((push_off ^^ n) s) = Ok t
    \<and> intr_get t = intr_get s \<and> cpu_noff (mycpu t) = cpu_noff (mycpu s)
    \<and> \<not> intr_get ((push_off ^^ n) s)"
proof -
  obtain k where n: "n = Suc k" using assms(2) by (cases n) auto
  have "\<not> intr_get (push_off r)" for r by (simp add: sync_defs Let_def)
  then have "\<not> intr_get ((push_off ^^ n) s)" by (simp add: n)
  moreover have "intr_get (settle s) = intr_get s" by (simp add: sync_defs)
  ultimately show ?thesis
    using pops_after_pushes [OF assms(1), of k] by (simp add: n settle_simps del: replicate.simps funpow.simps)
qed

theorem push_pop_matched_witness:
  "cpu_ok boot_sync \<and> (\<exists>t. foreach (\<lambda>_. pop_off) (replicate 3 ()) ((push_off ^^ 3) boot_sync) = Ok t
     \<and> intr_get t = intr_get boot_sync)"
proof -
  have "cpu_ok boot_sync" by (simp add: boot_sync_def sync_defs)
  with push_pop_matched [of boot_sync 3] show ?thesis by auto
qed

section \<open>Mutual exclusion of interleaved harts\<close>

text \<open>
  Where a hart is in the code of \<^verbatim>\<open>acquire\<close> and \<^verbatim>\<open>release\<close> for one lock: not in it, in the
  \<^verbatim>\<open>amoswap\<close> loop, past a successful swap but before \<^verbatim>\<open>lk->cpu = mycpu()\<close>, in the critical
  section, and in \<^verbatim>\<open>release\<close> between \<^verbatim>\<open>lk->cpu = 0\<close> and the store that frees the lock word.
\<close>

datatype lpc = Out | Spin | Got | Crit | Rel

type_synonym lsys = "sync \<times> (nat \<Rightarrow> lockid \<Rightarrow> lpc)"

definition at_pc :: "(nat \<Rightarrow> lockid \<Rightarrow> lpc) \<Rightarrow> nat \<Rightarrow> lockid \<Rightarrow> lpc \<Rightarrow> nat \<Rightarrow> lockid \<Rightarrow> lpc" where
  "at_pc pc h lk p = pc(h := (pc h)(lk := p))"

inductive lock_step :: "lsys \<Rightarrow> lsys \<Rightarrow> bool" where
  enter: "pc h lk = Out \<Longrightarrow> \<not> holding lk (s\<lparr>hart := h\<rparr>) \<Longrightarrow>
     lock_step (s, pc) (s, at_pc pc h lk Spin)"
| spin: "pc h lk = Spin \<Longrightarrow> lk_locked (lks s lk) \<noteq> 0 \<Longrightarrow>
     lock_step (s, pc) (set_lock lk (lk_locked_update (\<lambda>_. 1)) s, pc)"
| grab: "pc h lk = Spin \<Longrightarrow> lk_locked (lks s lk) = 0 \<Longrightarrow>
     lock_step (s, pc) (set_lock lk (lk_locked_update (\<lambda>_. 1)) s, at_pc pc h lk Got)"
| own: "pc h lk = Got \<Longrightarrow>
     lock_step (s, pc) (set_lock lk (lk_cpu_update (\<lambda>_. Some h)) s, at_pc pc h lk Crit)"
| disown: "pc h lk = Crit \<Longrightarrow> holding lk (s\<lparr>hart := h\<rparr>) \<Longrightarrow>
     lock_step (s, pc) (set_lock lk (lk_cpu_update (\<lambda>_. None)) s, at_pc pc h lk Rel)"
| unlock: "pc h lk = Rel \<Longrightarrow>
     lock_step (s, pc) (set_lock lk (lk_locked_update (\<lambda>_. 0)) s, at_pc pc h lk Out)"

inductive lock_reachable :: "lsys \<Rightarrow> bool" where
  boot: "(\<And>lk. lock_free lk s) \<Longrightarrow> lock_reachable (s, \<lambda>_ _. Out)"
| step: "lock_reachable x \<Longrightarrow> lock_step x y \<Longrightarrow> lock_reachable y"

definition inside :: "lpc \<Rightarrow> bool" where
  "inside p \<longleftrightarrow> p = Got \<or> p = Crit \<or> p = Rel"

fun lock_inv :: "lsys \<Rightarrow> bool" where
  "lock_inv (s, pc) \<longleftrightarrow>
     (\<forall>lk h. inside (pc h lk) \<longrightarrow> lk_locked (lks s lk) \<noteq> 0) \<and>
     (\<forall>lk h h'. inside (pc h lk) \<longrightarrow> inside (pc h' lk) \<longrightarrow> h = h') \<and>
     (\<forall>lk h. lk_cpu (lks s lk) = Some h \<longleftrightarrow> pc h lk = Crit)"

lemma lock_step_inv: "lock_step x y \<Longrightarrow> lock_inv x \<Longrightarrow> lock_inv y"
proof (induction rule: lock_step.induct)
  case (grab pc h lk s)
  then have "\<not> inside (pc h' lk)" for h' by auto
  with grab show ?case
    by (auto simp: at_pc_def set_lock_def inside_def split: if_splits)
qed (auto simp: at_pc_def set_lock_def inside_def holding_def cpuid_def split: if_splits)

lemma lock_reachable_inv: "lock_reachable x \<Longrightarrow> lock_inv x"
proof (induction rule: lock_reachable.induct)
  case (boot s)
  then show ?case by (simp add: inside_def lock_free_def)
next
  case (step x y)
  then show ?case by (blast intro: lock_step_inv)
qed

text \<open>
  C2: a spin lock is held by at most one hart, however the harts' steps through \<^verbatim>\<open>acquire\<close> and
  \<^verbatim>\<open>release\<close> interleave, and \<^verbatim>\<open>holding(lk)\<close> evaluated on a hart is true exactly when that hart
  is in its critical section: \<^verbatim>\<open>release\<close> never panics for the holder, and \<^verbatim>\<open>acquire\<close> panics for
  no hart but the holder.
\<close>

theorem spinlock_mutual_exclusion:
  assumes "lock_reachable (s, pc)"
  shows "(inside (pc h lk) \<longrightarrow> inside (pc h' lk) \<longrightarrow> h = h')
    \<and> (holding lk (s\<lparr>hart := h\<rparr>) \<longleftrightarrow> pc h lk = Crit)"
proof -
  from assms have inv: "lock_inv (s, pc)" by (rule lock_reachable_inv)
  then have "pc h lk = Crit \<Longrightarrow> lk_locked (lks s lk) \<noteq> 0" by (auto simp: inside_def)
  with inv show ?thesis by (auto simp: holding_def cpuid_def)
qed

theorem spinlock_mutual_exclusion_witness:
  "\<exists>s pc. lock_reachable (s, pc) \<and> pc 0 Kq_lock = Crit \<and> holding Kq_lock (s\<lparr>hart := 0\<rparr>)"
proof -
  let ?p0 = "\<lambda>_ _. Out" and ?s0 = boot_sync
  let ?p1 = "at_pc ?p0 0 Kq_lock Spin" and ?s1 = "set_lock Kq_lock (lk_locked_update (\<lambda>_. 1)) ?s0"
  let ?p2 = "at_pc ?p1 0 Kq_lock Got" and ?s2 = "set_lock Kq_lock (lk_cpu_update (\<lambda>_. Some 0)) ?s1"
  let ?p3 = "at_pc ?p2 0 Kq_lock Crit"
  have "lock_reachable (?s0, ?p0)" by (rule boot) (simp add: lock_free_def boot_sync_def)
  then have "lock_reachable (?s0, ?p1)"
    by (rule step) (rule enter, simp_all add: holding_def boot_sync_def)
  then have "lock_reachable (?s1, ?p2)"
    by (rule step) (rule grab, simp_all add: at_pc_def boot_sync_def)
  then have r: "lock_reachable (?s2, ?p3)"
    by (rule step) (rule own, simp add: at_pc_def)
  have "?p3 0 Kq_lock = Crit" by (simp add: at_pc_def)
  with r spinlock_mutual_exclusion [OF r, of 0 Kq_lock 0] show ?thesis by blast
qed

end
