(* ===== verification/Xv6_Memory.thy ===== *)
theory Xv6_Memory
  imports Xv6_String
begin

text \<open>
  Byte memory: little-endian encodings of machine words, stores and loads, and the division of
  the address space into 4096-byte pages (\<^verbatim>\<open>PGSIZE\<close> of \<^verbatim>\<open>kernel/riscv.h\<close>), with the facts that let
  a write to one page be forgotten when another is read.
\<close>

unbundle bit_operations_syntax

section \<open>Loads and stores\<close>

primrec store_bytes :: "u64 \<Rightarrow> u8 list \<Rightarrow> memory \<Rightarrow> memory" where
  "store_bytes a [] m = m"
| "store_bytes a (b # bs) m = store_bytes (a + 1) bs (m(a := b))"

primrec le_bytes :: "nat \<Rightarrow> 'a::len word \<Rightarrow> u8 list" where
  "le_bytes 0 v = []"
| "le_bytes (Suc n) v = ucast v # le_bytes n (drop_bit 8 v)"

primrec of_le :: "u8 list \<Rightarrow> 'a::len word" where
  "of_le [] = 0"
| "of_le (b # bs) = ucast b OR push_bit 8 (of_le bs)"

definition load64 :: "memory \<Rightarrow> u64 \<Rightarrow> u64" where
  "load64 m a = of_le (region m a 8)"

definition store64 :: "u64 \<Rightarrow> u64 \<Rightarrow> memory \<Rightarrow> memory" where
  "store64 a v m = store_bytes a (le_bytes 8 v) m"

lemma store_bytes_apply:
  "length bs < 2 ^ 64 \<Longrightarrow> store_bytes a bs m x =
    (if unat (x - a) < length bs then bs ! unat (x - a) else m x)"
proof (induction bs arbitrary: a m)
  case (Cons b bs)
  have off: "unat (x - a) < Suc (length bs) \<longleftrightarrow> x = a \<or> unat (x - (a + 1)) < length bs"
    using unat_less_Suc_step [of "x - a" "length bs"] by (simp add: algebra_simps)
  show ?case
  proof (cases "x = a")
    case True
    then show ?thesis using Cons by (simp add: unat_minus_one64)
  next
    case False
    then have "unat (x - a) = Suc (unat (x - (a + 1)))"
      using unat_minus_one [of "x - a"] by (simp add: unat_gt_0 algebra_simps)
    with False Cons off show ?thesis by simp
  qed
qed simp

lemma region_store_bytes:
  assumes "length bs < 2 ^ 64"
  shows "region (store_bytes a bs m) a (length bs) = bs"
  by (rule nth_equalityI) (use assms in \<open>auto simp: nth_region store_bytes_apply unat_of_nat64\<close>)

lemma length_le_bytes [simp]: "length (le_bytes n v) = n"
  by (induction n arbitrary: v) auto

lemma of_le_le_bytes: "of_le (le_bytes n v) = take_bit (8 * n) (v :: 'a::len word)"
proof (induction n arbitrary: v)
  case (Suc n)
  have "ucast (ucast v :: u8) OR push_bit 8 (take_bit (8 * n) (drop_bit 8 v)) = take_bit (8 * Suc n) v"
    by (rule bit_word_eqI) (auto simp: bit_simps)
  with Suc show ?case by simp
qed simp

lemma of_le_le_bytes64: "of_le (le_bytes 8 v) = (v :: u64)"
  by (simp add: of_le_le_bytes take_bit_word_eq_self)

lemma load64_store64 [simp]: "load64 (store64 a v m) a = v"
  using region_store_bytes [of "le_bytes 8 v" a m]
  by (simp add: load64_def store64_def of_le_le_bytes64)

lemma of_le_replicate_0 [simp]: "of_le (replicate n 0) = 0"
  by (induction n) auto

lemma load64_zero [simp]: "load64 (\<lambda>_. 0) a = 0"
  by (simp add: load64_def region_def map_replicate_const)

lemma store64_apply: "\<not> unat (x - a) < 8 \<Longrightarrow> store64 a v m x = m x"
  by (simp add: store64_def store_bytes_apply)

section \<open>Pages\<close>

definition page_of :: "u64 \<Rightarrow> nat" where
  "page_of a = unat a div 4096"

definition aligned :: "u64 \<Rightarrow> bool" where
  "aligned a \<longleftrightarrow> a mod PGSIZE = 0"

lemma unat_PGSIZE [simp]: "unat PGSIZE = 4096"
  by (simp add: PGSIZE_def)

lemma aligned_iff: "aligned a \<longleftrightarrow> unat a mod 4096 = 0"
  by (simp add: aligned_def word_unat_eq_iff unat_mod_distrib PGSIZE_def)

lemma in_page_iff:
  assumes "aligned p"
  shows "unat (a - p) < 4096 \<longleftrightarrow> page_of a = page_of p"
proof -
  obtain k where k: "unat p = 4096 * k"
    using assms by (auto simp: aligned_iff)
  have b: "unat p < 2 ^ 64" "unat a < 2 ^ 64"
    using unsigned_less [of p] unsigned_less [of a] by simp_all
  show ?thesis
  proof (cases "unat p \<le> unat a")
    case True
    then have "unat (a - p) = unat a - unat p" by (simp add: unat_sub word_le_nat_alt)
    with True k show ?thesis by (auto simp: page_of_def)
  next
    case False
    then have "unat (a - p) = unat a + 2 ^ 64 - unat p"
      by (simp add: unat_sub_if_size word_size)
    with False k b show ?thesis by (auto simp: page_of_def)
  qed
qed

lemma aligned_page_eq: "aligned p \<Longrightarrow> aligned q \<Longrightarrow> page_of p = page_of q \<longleftrightarrow> p = q"
  by (auto simp: aligned_iff page_of_def word_unat_eq_iff)

lemma aligned_offset_page:
  assumes "aligned p" "i < 4096"
  shows "page_of (p + of_nat i) = page_of p"
  using in_page_iff [OF assms(1), of "p + of_nat i"] assms(2) by (simp add: unat_of_nat64)

lemma load64_cong:
  assumes "aligned p" "\<And>a. page_of a = page_of p \<Longrightarrow> m a = m' a"
  shows "load64 m p = load64 m' p"
  unfolding load64_def by (rule arg_cong [OF region_cong]) (use assms aligned_offset_page in auto)

lemma memset_page_apply:
  assumes "aligned p"
  shows "memset p c 4096 m a = (if page_of a = page_of p then word_of_int c else m a)"
  using in_page_iff [OF assms, of a] by (simp add: memset_apply)

lemma store64_page_apply:
  assumes "aligned p" "page_of a \<noteq> page_of p"
  shows "store64 p v m a = m a"
  using in_page_iff [OF assms(1), of a] assms(2) by (intro store64_apply) auto


section \<open>Rounding to pages\<close>

lemma round_down_eq: "x AND NOT (PGSIZE - 1) = push_bit 12 (drop_bit 12 x)"
proof -
  have "PGSIZE - 1 = mask 12" by (simp add: PGSIZE_def mask_eq_exp_minus_1)
  then show ?thesis by (simp only:) (rule bit_word_eqI, auto simp: bit_simps)
qed

lemma unat_round_down: "unat (x AND NOT (PGSIZE - 1)) = unat x div 4096 * 4096"
proof -
  have "unat (drop_bit 12 x) = unat x div 4096"
    using unat_drop_bit_eq [of 12 x] by (simp add: drop_bit_eq_div)
  moreover have "unat x div 4096 * 4096 < 2 ^ 64"
    using unat_lt64 [of x] div_times_less_eq_dividend [of "unat x" 4096] by (rule order.strict_trans1 [rotated])
  ultimately show ?thesis
    by (simp add: round_down_eq push_bit_eq_mult unat_word_ariths)
qed

lemma unat_PGROUNDDOWN: "unat (PGROUNDDOWN a) = unat a div 4096 * 4096"
  by (simp add: PGROUNDDOWN_def unat_round_down)

lemma unat_PGROUNDUP:
  assumes "unat a \<le> 2 ^ 64 - 4096"
  shows "unat (PGROUNDUP a) = (unat a + 4095) div 4096 * 4096"
proof -
  have "PGROUNDUP a = (a + 4095) AND NOT (PGSIZE - 1)" 
    by (simp add: PGROUNDUP_def PGSIZE_def add.commute)
  moreover have "unat (a + 4095) = unat a + 4095"
    using assms by (simp add: unat_word_ariths)
  ultimately show ?thesis by (simp add: unat_round_down)
qed

lemma page_offset: "unat (a - PGROUNDDOWN a) = unat a mod 4096"
proof -
  have "unat (PGROUNDDOWN a) \<le> unat a" by (simp add: unat_PGROUNDDOWN)
  then show ?thesis
    by (simp add: unat_sub word_le_nat_alt unat_PGROUNDDOWN minus_div_mult_eq_mod)
qed

lemma page_offset_less: "unat (a - PGROUNDDOWN a) < 4096"
  by (simp add: page_offset)

lemma aligned_PGROUNDDOWN [simp]: "aligned (PGROUNDDOWN a)"
  by (simp add: aligned_iff unat_PGROUNDDOWN)

end
