(* ===== verification/Xv6_Kalloc.thy ===== *)
theory Xv6_Kalloc
  imports Xv6_Spinlock Xv6_Memory
begin

text \<open>
  \<^verbatim>\<open>kernel/kalloc.c\<close>: the physical page allocator. Its free list is threaded through the free pages
  themselves (\<^verbatim>\<open>struct run\<close> is the first word of a free page), so the model keeps it in byte
  memory; \<open>free_list m x ps\<close> says that the list that starts at \<open>x\<close> runs through exactly the pages
  \<open>ps\<close>. The contract that clients use is the locale \<open>page_pool\<close>.
\<close>

unbundle bit_operations_syntax

section \<open>Operations\<close>

definition kfree :: "u64 \<Rightarrow> world \<Rightarrow> world res" where
  "kfree pa w =
     (if pa mod PGSIZE \<noteq> 0 \<or> pa < ld_end (ld w) \<or> pa \<ge> PHYSTOP then Panic ''kfree''
      else
        let w = w\<lparr>mem := memset pa 1 4096 (mem w)\<rparr>
        in bnd (acquire Kmem_lock w) (\<lambda>w.
           let w = w\<lparr>mem := store64 pa (freelist w) (mem w)\<rparr>;
               w = w\<lparr>freelist := pa\<rparr>
           in release Kmem_lock w))"

definition kalloc :: "world \<Rightarrow> (u64 \<times> world) res" where
  "kalloc w =
     bnd (acquire Kmem_lock w) (\<lambda>w.
     let r = freelist w;
         w = (if r \<noteq> 0 then w\<lparr>freelist := load64 (mem w) r\<rparr> else w)
     in bnd (release Kmem_lock w) (\<lambda>w.
        let w = (if r \<noteq> 0 then w\<lparr>mem := memset r 5 4096 (mem w)\<rparr> else w)
        in Ok (r, w)))"

definition freerange :: "u64 \<Rightarrow> u64 \<Rightarrow> world \<Rightarrow> world res" where
  "freerange pa_start pa_end w =
     bnd (while_res (\<lambda>(p, w). p + PGSIZE \<le> pa_end)
           (\<lambda>(p, w). bnd (kfree p w) (\<lambda>w. Ok (p + PGSIZE, w)))
           (PGROUNDUP pa_start, w))
         (\<lambda>(p, w). Ok w)"

definition kinit :: "world \<Rightarrow> world res" where
  "kinit w =
     (let w = initlock Kmem_lock ''kmem'' w
      in freerange (ld_end (ld w)) PHYSTOP w)"

section \<open>The free list as a list of pages\<close>

primrec free_list :: "memory \<Rightarrow> u64 \<Rightarrow> u64 list \<Rightarrow> bool" where
  "free_list m x [] \<longleftrightarrow> x = 0"
| "free_list m x (p # ps) \<longleftrightarrow> x = p \<and> p \<noteq> 0 \<and> free_list m (load64 m p) ps"

definition page_ok :: "u64 \<Rightarrow> u64 \<Rightarrow> bool" where
  "page_ok e pa \<longleftrightarrow> aligned pa \<and> pa \<noteq> 0 \<and> e \<le> pa \<and> pa < PHYSTOP"

definition kmem_inv :: "world \<Rightarrow> u64 list \<Rightarrow> bool" where
  "kmem_inv w ps \<longleftrightarrow> free_list (mem w) (freelist w) ps \<and> distinct ps \<and>
     list_all (page_ok (ld_end (ld w))) ps"

definition kmem_ready :: "world \<Rightarrow> bool" where
  "kmem_ready w \<longleftrightarrow> lock_free Kmem_lock (sync w) \<and> cpu_ok (sync w)"

text \<open>\<open>n\<close> consecutive pages from \<open>p\<close> on.\<close>

primrec page_run :: "u64 \<Rightarrow> nat \<Rightarrow> u64 list" where
  "page_run p 0 = []"
| "page_run p (Suc n) = p # page_run (p + PGSIZE) n"

lemma free_list_cong:
  assumes "list_all aligned ps"
    and "\<And>a. page_of a \<in> page_of ` set ps \<Longrightarrow> m a = m' a"
  shows "free_list m x ps = free_list m' x ps"
  using assms
proof (induction ps arbitrary: x)
  case (Cons p ps)
  then have "load64 m p = load64 m' p" by (intro load64_cong) auto
  with Cons show ?case by simp
qed simp

lemma free_list_fun: "free_list m x ps \<Longrightarrow> free_list m x qs \<Longrightarrow> ps = qs"
proof (induction ps arbitrary: x qs)
  case Nil
  then show ?case by (cases qs) auto
next
  case (Cons p ps)
  then show ?case by (cases qs) auto
qed

text \<open>A free page that is not \<open>p\<close> is untouched by writes to the page \<open>p\<close>.\<close>

lemma free_list_other_page:
  assumes "list_all (page_ok e) ps" "page_ok e p" "p \<notin> set ps"
    and "\<And>a. page_of a \<noteq> page_of p \<Longrightarrow> m' a = m a"
  shows "free_list m' x ps = free_list m x ps"
proof (rule free_list_cong)
  show "list_all aligned ps" using assms(1) by (auto simp: list_all_iff page_ok_def)
  fix a assume "page_of a \<in> page_of ` set ps"
  then have "page_of a \<noteq> page_of p"
    using assms(1-3) by (auto simp: list_all_iff page_ok_def aligned_page_eq)
  then show "m' a = m a" by (rule assms(4))
qed

section \<open>What each operation does\<close>

lemma kfree_panics:
  "\<not> (aligned pa \<and> ld_end (ld w) \<le> pa \<and> pa < PHYSTOP) \<Longrightarrow> kfree pa w = Panic ''kfree''"
  by (cases "pa mod PGSIZE = 0") (auto simp: kfree_def aligned_def)

lemma kfree_eq:
  assumes "kmem_ready w" "aligned pa" "ld_end (ld w) \<le> pa" "pa < PHYSTOP"
  shows "kfree pa w = Ok (w\<lparr>mem := store64 pa (freelist w) (memset pa 1 4096 (mem w)),
                            freelist := pa, sync := settle (sync w)\<rparr>)"
  using assms by (simp add: kfree_def kmem_ready_def aligned_def lock_simps not_less Let_def)

lemma kalloc_eq:
  assumes "kmem_ready w"
  shows "kalloc w = Ok (freelist w,
     if freelist w = 0 then w\<lparr>sync := settle (sync w)\<rparr>
     else w\<lparr>mem := memset (freelist w) 5 4096 (mem w),
            freelist := load64 (mem w) (freelist w), sync := settle (sync w)\<rparr>)"
  using assms by (simp add: kalloc_def kmem_ready_def lock_simps Let_def)

lemma kfree_spec:
  assumes "kmem_ready w" "kmem_inv w ps" "page_ok (ld_end (ld w)) pa" "pa \<notin> set ps"
  shows "\<exists>m. kfree pa w = Ok (w\<lparr>mem := m, freelist := pa, sync := settle (sync w)\<rparr>)
    \<and> kmem_inv (w\<lparr>mem := m, freelist := pa, sync := settle (sync w)\<rparr>) (pa # ps)
    \<and> (\<forall>a. page_of a \<noteq> page_of pa \<longrightarrow> m a = mem w a)"
proof -
  let ?m = "store64 pa (freelist w) (memset pa 1 4096 (mem w))"
  have al: "aligned pa" using assms(3) by (simp add: page_ok_def)
  have frame: "?m a = mem w a" if "page_of a \<noteq> page_of pa" for a
    using al that by (simp add: store64_page_apply memset_page_apply)
  have "free_list ?m (freelist w) ps"
    using assms(2-4) free_list_other_page [of "ld_end (ld w)" ps pa ?m "mem w"] frame
    by (simp add: kmem_inv_def)
  with assms show ?thesis
    by (intro exI [of _ ?m]) (auto simp: kfree_eq page_ok_def kmem_inv_def frame)
qed

lemma kalloc_spec:
  assumes "kmem_ready w" "kmem_inv w (p # ps)"
  shows "\<exists>m f. kalloc w = Ok (p, w\<lparr>mem := m, freelist := f, sync := settle (sync w)\<rparr>)
    \<and> kmem_inv (w\<lparr>mem := m, freelist := f, sync := settle (sync w)\<rparr>) ps
    \<and> m = (\<lambda>a. if page_of a = page_of p then 5 else mem w a)"
proof -
  have p: "freelist w = p" "page_ok (ld_end (ld w)) p" "p \<notin> set ps" "list_all (page_ok (ld_end (ld w))) ps"
    "free_list (mem w) (load64 (mem w) p) ps" "distinct ps"
    using assms(2) by (auto simp: kmem_inv_def)
  then have al: "aligned p" "p \<noteq> 0" by (auto simp: page_ok_def)
  let ?m = "memset p 5 4096 (mem w)"
  have frame: "?m = (\<lambda>a. if page_of a = page_of p then 5 else mem w a)"
    using al by (auto simp: memset_page_apply)
  have "free_list ?m (load64 (mem w) p) ps"
    using p free_list_other_page [of "ld_end (ld w)" ps p ?m "mem w"] frame by simp
  then show ?thesis
    using assms(1) p al frame
    by (intro exI [of _ ?m] exI [of _ "load64 (mem w) p"]) (simp add: kalloc_eq kmem_inv_def)
qed

lemma kalloc_empty:
  assumes "kmem_ready w" "kmem_inv w []"
  shows "kalloc w = Ok (0, w\<lparr>sync := settle (sync w)\<rparr>)"
  using assms by (simp add: kalloc_eq kmem_inv_def)

section \<open>Boot: every page of RAM after the kernel is free\<close>

lemma page_run_bounds:
  "unat p + 4096 * n < 2 ^ 64 \<Longrightarrow> q \<in> set (page_run p n) \<Longrightarrow>
     unat p \<le> unat q \<and> unat q + 4096 \<le> unat p + 4096 * n"
proof (induction n arbitrary: p)
  case (Suc n)
  have "unat (p + PGSIZE) = unat p + 4096" using Suc.prems by (simp add: unat_word_ariths)
  with Suc.prems Suc.IH [of "p + PGSIZE"] show ?case by auto
qed simp

lemma set_page_run:
  "unat p + 4096 * n < 2 ^ 64 \<Longrightarrow>
     q \<in> set (page_run p n) \<longleftrightarrow> (\<exists>i<n. unat q = unat p + 4096 * i)"
proof (induction n arbitrary: p)
  case (Suc n)
  have u: "unat (p + PGSIZE) = unat p + 4096" using Suc.prems by (simp add: unat_word_ariths)
  have "q \<in> set (page_run p (Suc n)) \<longleftrightarrow> q = p \<or> (\<exists>i<n. unat q = unat p + 4096 * Suc i)"
    using Suc.IH [of "p + PGSIZE"] Suc.prems u by (simp add: algebra_simps)
  also have "\<dots> \<longleftrightarrow> (\<exists>i<Suc n. unat q = unat p + 4096 * i)"
    by (subst Ex_less_Suc2) (simp add: word_unat_eq_iff)
  finally show ?case .
qed simp

lemma free_pages_loop:
  assumes "unat p + 4096 * n \<le> unat e" "unat e < unat p + 4096 * n + 4096" "e \<le> PHYSTOP"
    and "aligned p" "p \<noteq> 0" "ld_end (ld w) \<le> p" "kmem_ready w" "kmem_inv w ps"
    and "set (page_run p n) \<inter> set ps = {}"
  shows "\<exists>w'. while_res (\<lambda>(p, w). p + PGSIZE \<le> e)
           (\<lambda>(p, w). bnd (kfree p w) (\<lambda>w. Ok (p + PGSIZE, w))) (p, w) = Ok (p + of_nat (4096 * n), w')
      \<and> kmem_inv w' (rev (page_run p n) @ ps) \<and> kmem_ready w' \<and> ld w' = ld w"
  using assms
proof (induction n arbitrary: p w ps)
  case 0
  have e: "unat e \<le> unat PHYSTOP" using 0 by (simp add: word_le_nat_alt)
  then have "unat (p + PGSIZE) = unat p + 4096"
    using 0 by (simp add: PHYSTOP_def KERNBASE_def unat_word_ariths)
  with 0 have "\<not> p + PGSIZE \<le> e" by (simp add: word_le_nat_alt)
  with 0 show ?case by simp
next
  case (Suc n)
  have e: "unat e \<le> unat PHYSTOP" using Suc.prems by (simp add: word_le_nat_alt)
  then have up: "unat (p + PGSIZE) = unat p + 4096"
    using Suc.prems(1) by (simp add: PHYSTOP_def KERNBASE_def unat_word_ariths)
  have c: "p + PGSIZE \<le> e" using Suc.prems(1) up by (simp add: word_le_nat_alt)
  have "p < PHYSTOP" using e up Suc.prems(1) by (simp add: word_less_nat_alt)
  then have ok: "page_ok (ld_end (ld w)) p" using Suc.prems by (simp add: page_ok_def)
  have "p \<notin> set ps" using Suc.prems(9) by auto
  from kfree_spec [OF Suc.prems(7,8) ok this] obtain m where
    w': "kfree p w = Ok (w\<lparr>mem := m, freelist := p, sync := settle (sync w)\<rparr>)"
      "kmem_inv (w\<lparr>mem := m, freelist := p, sync := settle (sync w)\<rparr>) (p # ps)" by blast
  let ?w = "w\<lparr>mem := m, freelist := p, sync := settle (sync w)\<rparr>"
  have rdy: "kmem_ready ?w" using Suc.prems(7) by (simp add: kmem_ready_def lock_simps)
  have disj: "set (page_run (p + PGSIZE) n) \<inter> set (p # ps) = {}"
    using Suc.prems(1,9) page_run_bounds [of "p + PGSIZE" n p] up e by (auto simp: PHYSTOP_def KERNBASE_def)
  have "\<exists>w''. while_res (\<lambda>(p, w). p + PGSIZE \<le> e)
           (\<lambda>(p, w). bnd (kfree p w) (\<lambda>w. Ok (p + PGSIZE, w))) (p + PGSIZE, ?w)
           = Ok (p + PGSIZE + of_nat (4096 * n), w'')
      \<and> kmem_inv w'' (rev (page_run (p + PGSIZE) n) @ (p # ps)) \<and> kmem_ready w'' \<and> ld w'' = ld ?w"
  proof (rule Suc.IH)
    show "unat (p + PGSIZE) + 4096 * n \<le> unat e" "unat e < unat (p + PGSIZE) + 4096 * n + 4096"
      using Suc.prems(1,2) up by simp_all
    show "aligned (p + PGSIZE)" using Suc.prems(4) up by (simp add: aligned_iff)
    show "p + PGSIZE \<noteq> 0" using up by (auto simp: word_unat_eq_iff)
    show "ld_end (ld ?w) \<le> p + PGSIZE" using Suc.prems(6) up by (simp add: word_le_nat_alt)
  qed (use Suc.prems rdy w'(2) disj in auto)
  then show ?case
    using c w'(1) by (subst while_res_unfold) (auto simp: algebra_simps PGSIZE_def)
qed

text \<open>
  C4: after \<^verbatim>\<open>kinit\<close> at boot the free list holds every page of RAM between the end of the
  kernel image and \<^verbatim>\<open>PHYSTOP\<close>, each once, and no other page; the loop of \<^verbatim>\<open>freerange\<close> ends.
\<close>

theorem kinit_frees_ram:
  assumes "freelist w = 0" "cpu_ok (sync w)" "0 < ld_end (ld w)" "ld_end (ld w) \<le> PHYSTOP"
  shows "\<exists>w' ps. kinit w = Ok w' \<and> kmem_inv w' ps \<and> kmem_ready w'
    \<and> set ps = {pa. aligned pa \<and> ld_end (ld w) \<le> pa \<and> pa < PHYSTOP}"
proof -
  let ?e = "ld_end (ld w)" and ?w = "initlock Kmem_lock ''kmem'' w"
  let ?p = "PGROUNDUP ?e"
  let ?n = "(unat PHYSTOP - unat ?p) div 4096"
  have PH: "unat PHYSTOP = 0x88000000" by (simp add: PHYSTOP_def KERNBASE_def)
  have e: "0 < unat ?e" "unat ?e \<le> 0x88000000"
    using assms(3,4) PH by (simp_all add: word_less_nat_alt word_le_nat_alt)
  then have up: "unat ?p = (unat ?e + 4095) div 4096 * 4096" by (simp add: unat_PGROUNDUP)
  have al: "aligned ?p" using up by (simp add: aligned_iff)
  have pb: "unat ?e \<le> unat ?p" "unat ?p < unat ?e + 4096" "unat ?p \<le> 0x88000000"
    using up e by auto
  have n: "unat ?p + 4096 * ?n = 0x88000000"
  proof -
    have "4096 dvd unat PHYSTOP - unat ?p" using PH al by (intro dvd_diff_nat) (auto simp: aligned_iff)
    then have "4096 * ?n = unat PHYSTOP - unat ?p" by (rule dvd_mult_div_cancel)
    with PH pb(3) show ?thesis by simp
  qed
  have ld: "ld ?w = ld w" by (simp add: initlock_def)
  have rdy: "kmem_ready ?w"
    using assms(2) by (simp add: kmem_ready_def initlock_def sync_defs)
  have inv: "kmem_inv ?w []" using assms(1) by (simp add: kmem_inv_def initlock_def)
  have "\<exists>w'. while_res (\<lambda>(p, w). p + PGSIZE \<le> PHYSTOP)
           (\<lambda>(p, w). bnd (kfree p w) (\<lambda>w. Ok (p + PGSIZE, w))) (?p, ?w) = Ok (?p + of_nat (4096 * ?n), w')
      \<and> kmem_inv w' (rev (page_run ?p ?n) @ []) \<and> kmem_ready w' \<and> ld w' = ld ?w"
    using n PH pb al ld rdy inv e
    by (intro free_pages_loop) (auto simp: word_le_nat_alt word_unat_eq_iff)
  then obtain w' where w': "kinit w = Ok w'" "kmem_inv w' (rev (page_run ?p ?n))" "kmem_ready w'"
    by (auto simp: kinit_def freerange_def ld Let_def)
  have "q \<in> set (page_run ?p ?n) \<longleftrightarrow> aligned q \<and> ?e \<le> q \<and> q < PHYSTOP" for q
  proof -
    obtain k where k: "unat ?p = 4096 * k" using al by (auto simp: aligned_iff)
    have kn: "k + ?n = 557056" using n k by simp
    have "q \<in> set (page_run ?p ?n) \<longleftrightarrow> (\<exists>i<?n. unat q = 4096 * (k + i))"
      using set_page_run [of ?p ?n q] n k by (simp add: algebra_simps)
    also have "\<dots> \<longleftrightarrow> (\<exists>j. k \<le> j \<and> j < 557056 \<and> unat q = 4096 * j)"
      using ex_shift_nat [of ?n "\<lambda>j. unat q = 4096 * j" k] kn by (simp only:)
    also have "\<dots> \<longleftrightarrow> (\<exists>j. unat ?e \<le> 4096 * j \<and> j < 557056 \<and> unat q = 4096 * j)"
    proof -
      have "k \<le> j \<longleftrightarrow> unat ?e \<le> 4096 * j" for j using up k pb(1,2) by auto
      then show ?thesis by simp
    qed
    also have "\<dots> \<longleftrightarrow> aligned q \<and> ?e \<le> q \<and> q < PHYSTOP"
      by (auto simp: aligned_iff word_le_nat_alt word_less_nat_alt PH)
    finally show ?thesis .
  qed
  then have "set (page_run ?p ?n) = {pa. aligned pa \<and> ?e \<le> pa \<and> pa < PHYSTOP}" by blast
  with w' show ?thesis by (intro exI [of _ w'] exI [of _ "rev (page_run ?p ?n)"]) simp
qed

theorem kinit_frees_ram_witness:
  "let w = boot_world small_image (\<lambda>_. 0) (\<lambda>_ _. None) in
     \<exists>w' ps. kinit w = Ok w' \<and> kmem_inv w' ps \<and> 0x80023000 \<in> set ps \<and> 0x80022000 \<notin> set ps"
proof -
  let ?w = "boot_world small_image (\<lambda>_. 0) (\<lambda>_ _. None)"
  have w: "freelist ?w = 0" "cpu_ok (sync ?w)" "ld_end (ld ?w) = 0x80023000"
    by (simp_all add: boot_world_def small_image_def boot_sync_def sync_defs)
  have "\<exists>w' ps. kinit ?w = Ok w' \<and> kmem_inv w' ps \<and> kmem_ready w'
      \<and> set ps = {pa. aligned pa \<and> ld_end (ld ?w) \<le> pa \<and> pa < PHYSTOP}"
    by (rule kinit_frees_ram) (simp_all add: w PHYSTOP_def KERNBASE_def)
  then obtain w' ps where ps: "kinit ?w = Ok w'" "kmem_inv w' ps"
    "set ps = {pa. aligned pa \<and> 0x80023000 \<le> pa \<and> pa < PHYSTOP}"
    unfolding w(3) by blast
  have "0x80023000 \<in> set ps" "0x80022000 \<notin> set ps"
    unfolding ps(3) by (simp_all add: PHYSTOP_def KERNBASE_def aligned_def PGSIZE_def)
  with ps(1,2) show ?thesis unfolding Let_def by blast
qed

section \<open>The contract of a page pool\<close>

text \<open>
  What the clients of the allocator rely on: a pool of distinct valid pages, from which \<open>alloc\<close> takes
  one (or returns the null page when none is left) and to which \<open>give\<close> returns one.
\<close>

primrec alloc_seq :: "('s \<Rightarrow> ('p \<times> 's) res) \<Rightarrow> nat \<Rightarrow> 's \<Rightarrow> ('p list \<times> 's) res" where
  "alloc_seq f 0 s = Ok ([], s)"
| "alloc_seq f (Suc n) s =
     bnd (f s) (\<lambda>(p, s). bnd (alloc_seq f n s) (\<lambda>(ps, s). Ok (p # ps, s)))"

locale page_pool =
  fixes alloc :: "'s \<Rightarrow> ('p \<times> 's) res"
    and give :: "'p \<Rightarrow> 's \<Rightarrow> 's res"
    and pool :: "'s \<Rightarrow> 'p list \<Rightarrow> bool"
    and valid :: "'s \<Rightarrow> 'p \<Rightarrow> bool"
    and null :: 'p
  assumes alloc_null: "pool s [] \<Longrightarrow> \<exists>t. alloc s = Ok (null, t) \<and> pool t []"
    and alloc_page: "pool s (p # ps) \<Longrightarrow> \<exists>t. alloc s = Ok (p, t) \<and> pool t ps \<and> valid t = valid s"
    and give_page: "pool s ps \<Longrightarrow> valid s p \<Longrightarrow> p \<notin> set ps \<Longrightarrow>
        \<exists>t. give p s = Ok t \<and> pool t (p # ps) \<and> valid t = valid s"
    and pool_distinct: "pool s ps \<Longrightarrow> distinct ps"
    and pool_valid: "pool s ps \<Longrightarrow> p \<in> set ps \<Longrightarrow> valid s p"
    and null_invalid: "\<not> valid s null"
begin

lemma alloc_seq_takes:
  "pool s ps \<Longrightarrow> n \<le> length ps \<Longrightarrow>
     \<exists>t. alloc_seq alloc n s = Ok (take n ps, t) \<and> pool t (drop n ps) \<and> valid t = valid s"
proof (induction n arbitrary: s ps)
  case (Suc n)
  then obtain p qs where ps: "ps = p # qs" by (cases ps) auto
  with Suc.prems alloc_page obtain t where t: "alloc s = Ok (p, t)" "pool t qs" "valid t = valid s"
    by blast
  from Suc.IH [OF t(2)] Suc.prems(2) ps t(1,3) show ?case by auto
qed simp

lemma alloc_seq_fresh:
  assumes "pool s ps" "n \<le> length ps"
  shows "\<exists>qs t. alloc_seq alloc n s = Ok (qs, t) \<and> length qs = n \<and> distinct qs \<and> null \<notin> set qs
    \<and> pool t (drop n ps) \<and> set qs \<inter> set (drop n ps) = {}"
proof -
  from alloc_seq_takes [OF assms] obtain t where
    t: "alloc_seq alloc n s = Ok (take n ps, t)" "pool t (drop n ps)" by blast
  have d: "distinct (take n ps @ drop n ps)" using pool_distinct [OF assms(1)] by simp
  moreover have "null \<notin> set (take n ps)"
    using pool_valid [OF assms(1)] null_invalid by (blast dest: in_set_takeD)
  ultimately show ?thesis using t assms(2) by (intro exI [of _ "take n ps"] exI [of _ t]) (auto simp del: append_take_drop_id)
qed

lemma alloc_exhausted:
  assumes "pool s ps"
  shows "\<exists>qs t. alloc_seq alloc (length ps) s = Ok (qs, t) \<and> set qs = set ps \<and>
    (\<exists>u. alloc t = Ok (null, u))"
  using alloc_seq_takes [OF assms, of "length ps"] alloc_null by fastforce

lemma alloc_give_alloc:
  assumes "pool s (p # ps)"
  shows "\<exists>t u. alloc s = Ok (p, t) \<and> give p t = Ok u \<and> pool u (p # ps)"
proof -
  from alloc_page [OF assms] obtain t where t: "alloc s = Ok (p, t)" "pool t ps" "valid t = valid s" by blast
  have "p \<notin> set ps" "valid s p" using pool_distinct [OF assms] pool_valid [OF assms] by auto
  with give_page [OF t(2), of p] t show ?thesis by auto
qed

end

definition kmem_pool :: "world \<Rightarrow> u64 list \<Rightarrow> bool" where
  "kmem_pool w ps \<longleftrightarrow> kmem_ready w \<and> kmem_inv w ps"

interpretation kmem: page_pool kalloc kfree kmem_pool "\<lambda>w. page_ok (ld_end (ld w))" 0
proof
  fix s :: world and p ps
  show "\<exists>t. kalloc s = Ok (0, t) \<and> kmem_pool t []" if "kmem_pool s []"
    using that by (auto simp: kmem_pool_def kalloc_empty kmem_ready_def kmem_inv_def lock_simps)
  show "\<exists>t. kalloc s = Ok (p, t) \<and> kmem_pool t ps \<and> page_ok (ld_end (ld t)) = page_ok (ld_end (ld s))"
    if "kmem_pool s (p # ps)"
    using that kalloc_spec [of s p ps] by (auto simp: kmem_pool_def kmem_ready_def lock_simps)
  show "\<exists>t. kfree p s = Ok t \<and> kmem_pool t (p # ps) \<and> page_ok (ld_end (ld t)) = page_ok (ld_end (ld s))"
    if "kmem_pool s ps" "page_ok (ld_end (ld s)) p" "p \<notin> set ps"
    using that kfree_spec [of s ps p] by (auto simp: kmem_pool_def kmem_ready_def lock_simps)
  show "distinct ps" if "kmem_pool s ps" using that by (simp add: kmem_pool_def kmem_inv_def)
  show "page_ok (ld_end (ld s)) p" if "kmem_pool s ps" "p \<in> set ps"
    using that by (auto simp: kmem_pool_def kmem_inv_def list_all_iff)
  show "\<not> page_ok (ld_end (ld s)) 0" by (simp add: page_ok_def)
qed

section \<open>Operations that only move pages\<close>

text \<open>
  \<open>w'\<close> differs from \<open>w\<close> in memory, the free list and settled lock state only.
\<close>

definition mem_only :: "world \<Rightarrow> world \<Rightarrow> bool" where
  "mem_only w w' \<longleftrightarrow> w' = w\<lparr>mem := mem w', freelist := freelist w', sync := sync w'\<rparr> \<and>
     settle (sync w') = settle (sync w)"

lemma mem_only_refl [simp]: "mem_only w w"
  by (simp add: mem_only_def)

lemma mem_only_mem [simp]: "mem_only w (w\<lparr>mem := m\<rparr>)"
  by (simp add: mem_only_def)

lemma mem_only_trans: 
  assumes "mem_only w w'" "mem_only w' w''" shows "mem_only w w''"
proof -
  have "w'' = w'\<lparr>mem := mem w'', freelist := freelist w'', sync := sync w''\<rparr>" 
    using assms(2) by (simp add: mem_only_def)
  also have "\<dots> = (w\<lparr>mem := mem w', freelist := freelist w', sync := sync w'\<rparr>)
      \<lparr>mem := mem w'', freelist := freelist w'', sync := sync w''\<rparr>"
    using arg_cong [of w' _ "\<lambda>u. u\<lparr>mem := mem w'', freelist := freelist w'', sync := sync w''\<rparr>"] assms(1)
    by (simp add: mem_only_def)
  finally show ?thesis using assms by (simp add: mem_only_def)
qed

lemma mem_only_sync:
  assumes "mem_only w w'"
  shows "lock_free lk (sync w') = lock_free lk (sync w)" "cpu_ok (sync w') = cpu_ok (sync w)"
    "cur (sync w') = cur (sync w)" "hart (sync w') = hart (sync w)"
proof -
  have s: "settle (sync w') = settle (sync w)" using assms by (simp add: mem_only_def)
  show "lock_free lk (sync w') = lock_free lk (sync w)"
    using arg_cong [OF s, of "lock_free lk"] by (simp add: settle_simps)
  show "cpu_ok (sync w') = cpu_ok (sync w)"
    using arg_cong [OF s, of cpu_ok] by (simp add: settle_simps)
  show "cur (sync w') = cur (sync w)"
    using arg_cong [OF s, of cur] by (simp add: settle_simps)
  show "hart (sync w') = hart (sync w)"
    using arg_cong [OF s, of hart] by (simp add: settle_simps)
qed

lemma mem_only_fields:
  assumes "mem_only w w'"
  shows "procs w' = procs w" "ld w' = ld w" "env w' = env w" "kq w' = kq w" "nsw w' = nsw w"
    "tframes w' = tframes w" "kernel_pagetable w' = kernel_pagetable w"
proof -
  have w': "w' = w\<lparr>mem := mem w', freelist := freelist w', sync := sync w'\<rparr>"
    using assms by (simp add: mem_only_def)
  show "procs w' = procs w" by (subst w') simp
  show "ld w' = ld w" by (subst w') simp
  show "env w' = env w" by (subst w') simp
  show "kq w' = kq w" by (subst w') simp
  show "nsw w' = nsw w" by (subst w') simp
  show "tframes w' = tframes w" by (subst w') simp
  show "kernel_pagetable w' = kernel_pagetable w" by (subst w') simp
qed

lemma kmem_pool_mem:
  assumes "kmem_pool w ps" "\<And>a. page_of a \<in> page_of ` set ps \<Longrightarrow> m a = mem w a"
  shows "kmem_pool (w\<lparr>mem := m\<rparr>) ps"
proof -
  have "list_all aligned ps" using assms(1) by (auto simp: kmem_pool_def kmem_inv_def page_ok_def list_all_iff)
  then have "free_list m (freelist w) ps = free_list (mem w) (freelist w) ps"
    by (rule free_list_cong) (rule assms(2))
  with assms(1) show ?thesis by (simp add: kmem_pool_def kmem_inv_def kmem_ready_def)
qed

lemma kalloc_pool:
  assumes "kmem_pool w (p # ps)"
  shows "\<exists>w'. kalloc w = Ok (p, w') \<and> kmem_pool w' ps \<and> mem_only w w' \<and>
     (\<forall>a. page_of a \<noteq> page_of p \<longrightarrow> mem w' a = mem w a)"
  using kalloc_spec [of w p ps] assms
  by (auto simp: kmem_pool_def kmem_ready_def mem_only_def lock_simps)

lemma kalloc_pool_empty:
  assumes "kmem_pool w []"
  shows "\<exists>w'. kalloc w = Ok (0, w') \<and> kmem_pool w' [] \<and> mem_only w w' \<and> mem w' = mem w"
  using kalloc_empty [of w] assms
  by (auto simp: kmem_pool_def kmem_ready_def kmem_inv_def mem_only_def lock_simps)

lemma kfree_pool:
  assumes "kmem_pool w ps" "page_ok (ld_end (ld w)) p" "p \<notin> set ps"
  shows "\<exists>w'. kfree p w = Ok w' \<and> kmem_pool w' (p # ps) \<and> mem_only w w' \<and>
     (\<forall>a. page_of a \<noteq> page_of p \<longrightarrow> mem w' a = mem w a)"
  using kfree_spec [of w ps p] assms
  by (auto simp: kmem_pool_def kmem_ready_def mem_only_def lock_simps)

section \<open>What clients get\<close>

text \<open>
  C3: \<^verbatim>\<open>kalloc\<close> never hands out a page twice: called \<open>n\<close> times on a pool of at least \<open>n\<close> free
  pages it returns \<open>n\<close> different pages, none of them null and none of them left in the pool.
\<close>

theorem kalloc_gives_fresh_pages:
  assumes "kmem_pool w ps" "n \<le> length ps"
  shows "\<exists>qs t. alloc_seq kalloc n w = Ok (qs, t) \<and> length qs = n \<and> distinct qs \<and> 0 \<notin> set qs
    \<and> kmem_pool t (drop n ps) \<and> set qs \<inter> set (drop n ps) = {}"
  using assms by (rule kmem.alloc_seq_fresh)

definition one_page_world :: world where
  "one_page_world = (boot_world small_image (\<lambda>_. 0) (\<lambda>_ _. None))\<lparr>freelist := 0x87FFF000\<rparr>"

lemma one_page_pool: "kmem_pool one_page_world [0x87FFF000]"
  by (simp add: kmem_pool_def kmem_ready_def kmem_inv_def one_page_world_def boot_world_def
      boot_sync_def small_image_def sync_defs page_ok_def aligned_def PGSIZE_def PHYSTOP_def
      KERNBASE_def)

theorem kalloc_gives_fresh_pages_witness:
  "kmem_pool one_page_world [0x87FFF000] \<and>
     (\<exists>qs t. alloc_seq kalloc 1 one_page_world = Ok (qs, t) \<and> length qs = 1 \<and> 0 \<notin> set qs)"
  using one_page_pool kalloc_gives_fresh_pages [OF one_page_pool, of 1] by auto

end
