(* ===== verification/Xv6_Vm.thy ===== *)
theory Xv6_Vm
  imports Xv6_Kalloc
begin

text \<open>
  \<^verbatim>\<open>kernel/vm.c\<close>: Sv39 page tables in byte memory, the kernel page table, user address spaces, and
  the copies between the kernel and user memory.
\<close>

unbundle bit_operations_syntax

section \<open>Page-table entries\<close>

definition PTE_V :: u64 where "PTE_V = 1"
definition PTE_R :: u64 where "PTE_R = 2"
definition PTE_W :: u64 where "PTE_W = 4"
definition PTE_X :: u64 where "PTE_X = 8"
definition PTE_U :: u64 where "PTE_U = 16"

definition PA2PTE :: "u64 \<Rightarrow> u64" where
  "PA2PTE pa = push_bit 10 (drop_bit 12 pa)"

definition PTE2PA :: "u64 \<Rightarrow> u64" where
  "PTE2PA pte = push_bit 12 (drop_bit 10 pte)"

definition PTE_FLAGS :: "u64 \<Rightarrow> u64" where
  "PTE_FLAGS pte = pte AND 0x3FF"

definition PX :: "nat \<Rightarrow> u64 \<Rightarrow> u64" where
  "PX level va = drop_bit (12 + 9 * level) va AND 0x1FF"

text \<open>The address of \<^verbatim>\<open>pagetable[i]\<close>.\<close>

definition pte_addr :: "u64 \<Rightarrow> u64 \<Rightarrow> u64" where
  "pte_addr pt i = pt + 8 * i"

definition UART0 :: u64 where "UART0 = 0x10000000"
definition VIRTIO0 :: u64 where "VIRTIO0 = 0x10001000"
definition PLIC :: u64 where "PLIC = 0x0c000000"

definition MAKE_SATP :: "u64 \<Rightarrow> u64" where
  "MAKE_SATP pt = push_bit 60 8 OR drop_bit 12 pt"

section \<open>Walking and mapping\<close>

text \<open>The loop of \<^verbatim>\<open>walk\<close> from \<open>level\<close> down, at the table page \<open>pagetable\<close>.\<close>

primrec walk_levels :: "nat \<Rightarrow> u64 \<Rightarrow> u64 \<Rightarrow> bool \<Rightarrow> world \<Rightarrow> (u64 \<times> world) res" where
  "walk_levels 0 pagetable va alloc w = Ok (pte_addr pagetable (PX 0 va), w)"
| "walk_levels (Suc l) pagetable va alloc w =
     (let pte = pte_addr pagetable (PX (Suc l) va)
      in if load64 (mem w) pte AND PTE_V \<noteq> 0
         then walk_levels l (PTE2PA (load64 (mem w) pte)) va alloc w
         else if \<not> alloc then Ok (0, w)
         else bnd (kalloc w) (\<lambda>(pagetable, w).
              if pagetable = 0 then Ok (0, w)
              else let w = w\<lparr>mem := memset pagetable 0 4096 (mem w)\<rparr>;
                       w = w\<lparr>mem := store64 pte (PA2PTE pagetable OR PTE_V) (mem w)\<rparr>
                   in walk_levels l pagetable va alloc w))"

definition walk :: "u64 \<Rightarrow> u64 \<Rightarrow> bool \<Rightarrow> world \<Rightarrow> (u64 \<times> world) res" where
  "walk pagetable va alloc w =
     (if va \<ge> MAXVA then Panic ''walk'' else walk_levels 2 pagetable va alloc w)"

definition walkaddr :: "u64 \<Rightarrow> u64 \<Rightarrow> world \<Rightarrow> (u64 \<times> world) res" where
  "walkaddr pagetable va w =
     (if va \<ge> MAXVA then Ok (0, w)
      else bnd (walk pagetable va False w) (\<lambda>(pte, w).
           if pte = 0 then Ok (0, w)
           else if load64 (mem w) pte AND PTE_V = 0 then Ok (0, w)
           else if load64 (mem w) pte AND PTE_U = 0 then Ok (0, w)
           else Ok (PTE2PA (load64 (mem w) pte), w)))"

text \<open>One iteration of the loop of \<^verbatim>\<open>mappages\<close>.\<close>

definition mappages_step :: "u64 \<Rightarrow> u64 \<Rightarrow> u64 \<Rightarrow> u64 \<times> u64 \<times> world \<Rightarrow> (int \<times> world, u64 \<times> u64 \<times> world) ctl res" where
  "mappages_step pagetable lst perm = (\<lambda>(a, pa, w).
     bnd (walk pagetable a True w) (\<lambda>(pte, w).
     if pte = 0 then Ok (Done (-1, w))
     else if load64 (mem w) pte AND PTE_V \<noteq> 0 then Panic ''mappages: remap''
     else let w = w\<lparr>mem := store64 pte (PA2PTE pa OR perm OR PTE_V) (mem w)\<rparr>
          in if a = lst then Ok (Done (0, w))
             else Ok (Next (a + PGSIZE, pa + PGSIZE, w))))"

definition mappages :: "u64 \<Rightarrow> u64 \<Rightarrow> u64 \<Rightarrow> u64 \<Rightarrow> u64 \<Rightarrow> world \<Rightarrow> (int \<times> world) res" where
  "mappages pagetable va sz pa perm w =
     (if va mod PGSIZE \<noteq> 0 then Panic ''mappages: va not aligned''
      else if sz mod PGSIZE \<noteq> 0 then Panic ''mappages: size not aligned''
      else if sz = 0 then Panic ''mappages: size''
      else loop_res (mappages_step pagetable (va + sz - PGSIZE) perm) (va, pa, w))"

section \<open>The kernel page table\<close>

definition kvmmap :: "u64 \<Rightarrow> u64 \<Rightarrow> u64 \<Rightarrow> u64 \<Rightarrow> u64 \<Rightarrow> world \<Rightarrow> world res" where
  "kvmmap kpgtbl va pa sz perm w =
     bnd (mappages kpgtbl va sz pa perm w) (\<lambda>(r, w). if r \<noteq> 0 then Panic ''kvmmap'' else Ok w)"

text \<open>\<^verbatim>\<open>proc_mapstacks\<close> of \<^verbatim>\<open>kernel/proc.c\<close>.\<close>

definition proc_mapstacks :: "u64 \<Rightarrow> world \<Rightarrow> world res" where
  "proc_mapstacks kpgtbl w =
     foreach (\<lambda>i w.
       bnd (kalloc w) (\<lambda>(pa, w).
       if pa = 0 then Panic ''kalloc''
       else kvmmap kpgtbl (KSTACK i) pa PGSIZE (PTE_R OR PTE_W) w)) [0..<NPROC] w"

text \<open>\<^verbatim>\<open>kvmmake\<close> does not test the result of \<^verbatim>\<open>kalloc\<close>.\<close>

definition kvmmake :: "world \<Rightarrow> (u64 \<times> world) res" where
  "kvmmake w =
     bnd (kalloc w) (\<lambda>(kpgtbl, w).
     let w = w\<lparr>mem := memset kpgtbl 0 4096 (mem w)\<rparr>; etext = ld_etext (ld w)
     in bnd (kvmmap kpgtbl UART0 UART0 PGSIZE (PTE_R OR PTE_W) w) (\<lambda>w.
        bnd (kvmmap kpgtbl VIRTIO0 VIRTIO0 PGSIZE (PTE_R OR PTE_W) w) (\<lambda>w.
        bnd (kvmmap kpgtbl PLIC PLIC 0x4000000 (PTE_R OR PTE_W) w) (\<lambda>w.
        bnd (kvmmap kpgtbl KERNBASE KERNBASE (etext - KERNBASE) (PTE_R OR PTE_X) w) (\<lambda>w.
        bnd (kvmmap kpgtbl etext etext (PHYSTOP - etext) (PTE_R OR PTE_W) w) (\<lambda>w.
        bnd (kvmmap kpgtbl TRAMPOLINE (ld_trampoline (ld w)) PGSIZE (PTE_R OR PTE_X) w) (\<lambda>w.
        bnd (proc_mapstacks kpgtbl w) (\<lambda>w. Ok (kpgtbl, w)))))))))"

definition kvminit :: "world \<Rightarrow> world res" where
  "kvminit w = bnd (kvmmake w) (\<lambda>(pt, w). Ok (w\<lparr>kernel_pagetable := pt\<rparr>))"

definition kvminithart :: "world \<Rightarrow> world" where
  "kvminithart w =
     w\<lparr>hregs := (hregs w)(hart (sync w) :=
         (hregs w (hart (sync w)))\<lparr>hr_satp := MAKE_SATP (kernel_pagetable w)\<rparr>)\<rparr>"

section \<open>User page tables\<close>

definition uvmcreate :: "world \<Rightarrow> (u64 \<times> world) res" where
  "uvmcreate w =
     bnd (kalloc w) (\<lambda>(pagetable, w).
     if pagetable = 0 then Ok (0, w)
     else Ok (pagetable, w\<lparr>mem := memset pagetable 0 4096 (mem w)\<rparr>))"

definition uvmunmap_step :: "u64 \<Rightarrow> bool \<Rightarrow> u64 \<times> world \<Rightarrow> (u64 \<times> world) res" where
  "uvmunmap_step pagetable do_free = (\<lambda>(a, w).
     bnd (walk pagetable a False w) (\<lambda>(pte, w).
     if pte = 0 then Ok (a + PGSIZE, w)
     else if load64 (mem w) pte AND PTE_V = 0 then Ok (a + PGSIZE, w)
     else bnd (if do_free then kfree (PTE2PA (load64 (mem w) pte)) w else Ok w) (\<lambda>w.
          Ok (a + PGSIZE, w\<lparr>mem := store64 pte 0 (mem w)\<rparr>))))"

definition uvmunmap :: "u64 \<Rightarrow> u64 \<Rightarrow> u64 \<Rightarrow> bool \<Rightarrow> world \<Rightarrow> world res" where
  "uvmunmap pagetable va npages do_free w =
     (if va mod PGSIZE \<noteq> 0 then Panic ''uvmunmap: not aligned''
      else bnd (while_res (\<lambda>(a, w). a < va + npages * PGSIZE) (uvmunmap_step pagetable do_free) (va, w))
           (\<lambda>(a, w). Ok w))"

definition uvmdealloc :: "u64 \<Rightarrow> u64 \<Rightarrow> u64 \<Rightarrow> world \<Rightarrow> (u64 \<times> world) res" where
  "uvmdealloc pagetable oldsz newsz w =
     (if newsz \<ge> oldsz then Ok (oldsz, w)
      else bnd (if PGROUNDUP newsz < PGROUNDUP oldsz
                then let npages = (ucast ((PGROUNDUP oldsz - PGROUNDUP newsz) div PGSIZE) :: u32)
                     in uvmunmap pagetable (PGROUNDUP newsz) (scast npages) True w
                else Ok w) (\<lambda>w. Ok (newsz, w)))"

definition uvmalloc_step ::
  "u64 \<Rightarrow> u64 \<Rightarrow> u64 \<Rightarrow> u64 \<Rightarrow> u64 \<times> world \<Rightarrow> (u64 \<times> world, u64 \<times> world) ctl res" where
  "uvmalloc_step pagetable oldsz newsz xperm = (\<lambda>(a, w).
     if \<not> a < newsz then Ok (Done (newsz, w))
     else bnd (kalloc w) (\<lambda>(pa, w).
          if pa = 0
          then bnd (uvmdealloc pagetable a oldsz w) (\<lambda>(_, w). Ok (Done (0, w)))
          else let w = w\<lparr>mem := memset pa 0 4096 (mem w)\<rparr>
               in bnd (mappages pagetable a PGSIZE pa (PTE_R OR PTE_U OR xperm) w) (\<lambda>(r, w).
                  if r \<noteq> 0
                  then bnd (kfree pa w) (\<lambda>w.
                       bnd (uvmdealloc pagetable a oldsz w) (\<lambda>(_, w). Ok (Done (0, w))))
                  else Ok (Next (a + PGSIZE, w)))))"

definition uvmalloc :: "u64 \<Rightarrow> u64 \<Rightarrow> u64 \<Rightarrow> u64 \<Rightarrow> world \<Rightarrow> (u64 \<times> world) res" where
  "uvmalloc pagetable oldsz newsz xperm w =
     (if newsz < oldsz then Ok (oldsz, w)
      else let oldsz = PGROUNDUP oldsz
           in loop_res (uvmalloc_step pagetable oldsz newsz xperm) (oldsz, w))"

text \<open>
  \<^verbatim>\<open>freewalk\<close> recurses over the page-table tree. \<open>n\<close> bounds the depth of the recursion: a tree that
  is deeper than RAM has pages contains a cycle, and the C function never returns on it.
\<close>

primrec freewalk_depth :: "nat \<Rightarrow> u64 \<Rightarrow> world \<Rightarrow> world res" where
  "freewalk_depth 0 pagetable w = Diverge"
| "freewalk_depth (Suc n) pagetable w =
     bnd (foreach (\<lambda>i w.
            let pte = load64 (mem w) (pte_addr pagetable i)
            in if pte AND PTE_V \<noteq> 0 \<and> pte AND (PTE_R OR PTE_W OR PTE_X) = 0
               then bnd (freewalk_depth n (PTE2PA pte) w) (\<lambda>w.
                    Ok (w\<lparr>mem := store64 (pte_addr pagetable i) 0 (mem w)\<rparr>))
               else if pte AND PTE_V \<noteq> 0 then Panic ''freewalk: leaf''
               else Ok w) (map of_nat [0..<512]) w)
         (\<lambda>w. kfree pagetable w)"

definition freewalk :: "u64 \<Rightarrow> world \<Rightarrow> world res" where
  "freewalk pagetable w = freewalk_depth (Suc 32768) pagetable w"

definition uvmfree :: "u64 \<Rightarrow> u64 \<Rightarrow> world \<Rightarrow> world res" where
  "uvmfree pagetable sz w =
     bnd (if sz > 0 then uvmunmap pagetable 0 (PGROUNDUP sz div PGSIZE) True w else Ok w) (\<lambda>w.
     freewalk pagetable w)"

text \<open>One iteration of the loop of \<^verbatim>\<open>uvmcopy\<close>; \<open>Done (Some i)\<close> is \<^verbatim>\<open>goto err\<close>.\<close>

definition uvmcopy_step ::
  "u64 \<Rightarrow> u64 \<Rightarrow> u64 \<Rightarrow> u64 \<times> world \<Rightarrow> (u64 option \<times> world, u64 \<times> world) ctl res" where
  "uvmcopy_step old new sz = (\<lambda>(i, w).
     if \<not> i < sz then Ok (Done (None, w))
     else bnd (walk old i False w) (\<lambda>(pte, w).
       if pte = 0 then Ok (Next (i + PGSIZE, w))
       else if load64 (mem w) pte AND PTE_V = 0 then Ok (Next (i + PGSIZE, w))
       else let pa = PTE2PA (load64 (mem w) pte); flags = PTE_FLAGS (load64 (mem w) pte)
            in bnd (kalloc w) (\<lambda>(pg, w).
               if pg = 0 then Ok (Done (Some i, w))
               else let w = w\<lparr>mem := memmove pg pa 4096 (mem w)\<rparr>
                    in bnd (mappages new i PGSIZE pg flags w) (\<lambda>(r, w).
                       if r \<noteq> 0 then bnd (kfree pg w) (\<lambda>w. Ok (Done (Some i, w)))
                       else Ok (Next (i + PGSIZE, w))))))"

definition uvmcopy :: "u64 \<Rightarrow> u64 \<Rightarrow> u64 \<Rightarrow> world \<Rightarrow> (int \<times> world) res" where
  "uvmcopy old new sz w =
     bnd (loop_res (uvmcopy_step old new sz) (0, w)) (\<lambda>(err, w).
     case err of
       None \<Rightarrow> Ok (0, w)
     | Some i \<Rightarrow> bnd (uvmunmap new 0 (i div PGSIZE) True w) (\<lambda>w. Ok (-1, w)))"

definition uvmclear :: "u64 \<Rightarrow> u64 \<Rightarrow> world \<Rightarrow> world res" where
  "uvmclear pagetable va w =
     bnd (walk pagetable va False w) (\<lambda>(pte, w).
     if pte = 0 then Panic ''uvmclear''
     else Ok (w\<lparr>mem := store64 pte (load64 (mem w) pte AND NOT PTE_U) (mem w)\<rparr>))"

section \<open>Copying between the kernel and user memory\<close>

definition ismapped :: "u64 \<Rightarrow> u64 \<Rightarrow> world \<Rightarrow> (bool \<times> world) res" where
  "ismapped pagetable va w =
     bnd (walk pagetable va False w) (\<lambda>(pte, w).
     if pte = 0 then Ok (False, w)
     else if load64 (mem w) pte AND PTE_V \<noteq> 0 then Ok (True, w)
     else Ok (False, w))"

text \<open>
  The process that runs, for code that dereferences \<^verbatim>\<open>myproc()\<close>: a null pointer is a page fault in
  the kernel, which \<^verbatim>\<open>kerneltrap\<close> turns into a panic.
\<close>

definition myproc_deref :: "world \<Rightarrow> (nat \<times> world) res" where
  "myproc_deref w = bnd (myproc w) (\<lambda>(p, w).
     case p of None \<Rightarrow> Panic ''kerneltrap'' | Some i \<Rightarrow> Ok (i, w))"

definition vmfault :: "u64 \<Rightarrow> u64 \<Rightarrow> world \<Rightarrow> (u64 \<times> world) res" where
  "vmfault pagetable va w =
     bnd (myproc_deref w) (\<lambda>(p, w).
     if va \<ge> p_sz (procs w p) then Ok (0, w)
     else let va = PGROUNDDOWN va
          in bnd (ismapped pagetable va w) (\<lambda>(b, w).
             if b then Ok (0, w)
             else bnd (kalloc w) (\<lambda>(pa, w).
                  if pa = 0 then Ok (0, w)
                  else let w = w\<lparr>mem := memset pa 0 4096 (mem w)\<rparr>
                       in bnd (mappages (p_pagetable (procs w p)) va PGSIZE pa (PTE_W OR PTE_U OR PTE_R) w)
                          (\<lambda>(r, w). if r \<noteq> 0 then bnd (kfree pa w) (\<lambda>w. Ok (0, w))
                                    else Ok (pa, w)))))"

text \<open>
  The kernel side of a copy is an object outside the pages that user memory lives in, so it is
  the list of its bytes: the \<open>len\<close> bytes at \<^verbatim>\<open>src\<close> for \<open>copyout\<close>, and for \<open>copyin\<close> and \<open>copyinstr\<close>
  the bytes stored at \<^verbatim>\<open>dst\<close> by the time the call returns, returned next to the status.
\<close>

function copyout :: "u64 \<Rightarrow> u64 \<Rightarrow> u8 list \<Rightarrow> world \<Rightarrow> (int \<times> world) res" where
  "copyout pagetable dstva src w =
     (if src = [] then Ok (0, w)
      else let va0 = PGROUNDDOWN dstva
           in if va0 \<ge> MAXVA then Ok (-1, w)
              else bnd (walkaddr pagetable va0 w) (\<lambda>(pa0, w).
                   bnd (if pa0 = 0 then vmfault pagetable va0 w else Ok (pa0, w)) (\<lambda>(pa0, w).
                   if pa0 = 0 then Ok (-1, w)
                   else bnd (walk pagetable va0 False w) (\<lambda>(pte, w).
                        if pte = 0 then Panic ''kerneltrap''
                        else if load64 (mem w) pte AND PTE_W = 0 then Ok (-1, w)
                        else let n = min (4096 - unat (dstva - va0)) (length src);
                                 w = w\<lparr>mem := store_bytes (pa0 + (dstva - va0)) (take n src) (mem w)\<rparr>
                             in copyout pagetable (va0 + PGSIZE) (drop n src) w))))"
  by pat_completeness auto
termination
  by (relation "measure (\<lambda>(pt, va, src, w). length src)") (auto simp: page_offset_less)

declare copyout.simps [simp del]

function copyin :: "u64 \<Rightarrow> u64 \<Rightarrow> nat \<Rightarrow> world \<Rightarrow> (int \<times> u8 list \<times> world) res" where
  "copyin pagetable srcva len w =
     (if len = 0 then Ok (0, [], w)
      else let va0 = PGROUNDDOWN srcva
           in bnd (walkaddr pagetable va0 w) (\<lambda>(pa0, w).
              bnd (if pa0 = 0 then vmfault pagetable va0 w else Ok (pa0, w)) (\<lambda>(pa0, w).
              if pa0 = 0 then Ok (-1, [], w)
              else let n = min (4096 - unat (srcva - va0)) len;
                       bs = region (mem w) (pa0 + (srcva - va0)) n
                   in bnd (copyin pagetable (va0 + PGSIZE) (len - n) w) (\<lambda>(r, rest, w).
                      Ok (r, bs @ rest, w)))))"
  by pat_completeness auto
termination
  by (relation "measure (\<lambda>(pt, va, len, w). len)") (auto simp: page_offset_less)

declare copyin.simps [simp del]

text \<open>The inner loop of \<^verbatim>\<open>copyinstr\<close>: at most \<open>n\<close> bytes from \<open>p\<close> on, and whether a NUL ended it.\<close>

primrec copyinstr_page :: "nat \<Rightarrow> u64 \<Rightarrow> memory \<Rightarrow> bool \<times> u8 list" where
  "copyinstr_page 0 p m = (False, [])"
| "copyinstr_page (Suc n) p m =
     (if m p = 0 then (True, [0])
      else let (got_null, bs) = copyinstr_page n (p + 1) m in (got_null, m p # bs))"

function copyinstr :: "u64 \<Rightarrow> u64 \<Rightarrow> nat \<Rightarrow> world \<Rightarrow> (int \<times> u8 list \<times> world) res" where
  "copyinstr pagetable srcva mx w =
     (if mx = 0 then Ok (-1, [], w)
      else let va0 = PGROUNDDOWN srcva
           in bnd (walkaddr pagetable va0 w) (\<lambda>(pa0, w).
              if pa0 = 0 then Ok (-1, [], w)
              else let n = min (4096 - unat (srcva - va0)) mx;
                       (got_null, bs) = copyinstr_page n (pa0 + (srcva - va0)) (mem w)
                   in if got_null then Ok (0, bs, w)
                      else bnd (copyinstr pagetable (va0 + PGSIZE) (mx - n) w) (\<lambda>(r, rest, w).
                           Ok (r, bs @ rest, w))))"
  by pat_completeness auto
termination
  by (relation "measure (\<lambda>(pt, va, mx, w). mx)") (auto simp: page_offset_less)

declare copyinstr.simps [simp del]

end
