(* ===== verification/Xv6_Pagetable.thy ===== *)
theory Xv6_Pagetable
  imports Xv6_Vm
begin

text \<open>
  What the page-table code of \<^verbatim>\<open>kernel/vm.c\<close> does to a page table seen as a function from virtual
  pages to entries. \<open>tables\<close> is the set of pages of the three-level tree, \<open>pt_wf\<close> says that it is a
  tree (no page is shared) of pages of RAM, \<open>pte_at\<close> is the entry for an address, 0 when the path
  to it is not there. \<^verbatim>\<open>walk\<close> without allocation reads it, \<^verbatim>\<open>walk\<close> with allocation extends the tree
  without changing any entry, \<^verbatim>\<open>mappages\<close> and \<^verbatim>\<open>uvmunmap\<close> change exactly the entries of their range.
\<close>

unbundle bit_operations_syntax

section \<open>Entries and addresses\<close>

lemma PX_take_bit: "PX l va = take_bit 9 (drop_bit (12 + 9 * l) va)"
    by (simp add: PX_def take_bit_eq_mask mask_eq_exp_minus_1)

lemma PX_less: "PX l va < 512"
proof -
  have "unat (take_bit 9 (drop_bit (12 + 9 * l) va)) < 2 ^ 9"
    unfolding unsigned_take_bit_eq by (rule take_bit_nat_less_exp)
  then show ?thesis by (simp add: PX_take_bit word_less_nat_alt)
qed

lemma bit_lt_exp:
  assumes "x < (2 ^ n :: u64)" "n < 64" "n \<le> k"
  shows "\<not> bit x k"
proof -
  have "take_bit n x = x"
    using assms(1) by (simp add: take_bit_eq_mod mod_word_less)
  then have "bit x k = bit (take_bit n x) k" by simp
  also have "\<dots> = False" using assms(3) by (simp add: bit_simps)
  finally show ?thesis by simp
qed

lemma aligned_bit: "aligned p \<Longrightarrow> k < 12 \<Longrightarrow> \<not> bit p k"
proof -
  assume a: "aligned p" "k < 12"
  then have "take_bit 12 p = 0" by (simp add: take_bit_eq_mod aligned_def PGSIZE_def)
  with a(2) have "bit p k = bit (0 :: u64) k" by (metis bit_take_bit_iff)
  then show ?thesis by simp
qed

lemma PTE2PA_PA2PTE:
  assumes "aligned pa" "pa < PHYSTOP" "fl < 1024"
  shows "PTE2PA (PA2PTE pa OR fl) = pa"
proof (rule bit_word_eqI)
  fix k assume "k < LENGTH(64)"
  have "pa < 2 ^ 32" using assms(2) by (rule less_trans) (simp add: PHYSTOP_def KERNBASE_def)
  then have hi: "\<not> bit pa k" if "32 \<le> k" for k using that by (intro bit_lt_exp [of pa 32]) auto
  have fl: "\<not> bit fl k" if "10 \<le> k" for k using that assms(3) by (intro bit_lt_exp [of fl 10]) auto
  show "bit (PTE2PA (PA2PTE pa OR fl)) k = bit pa k"
  proof (cases "12 \<le> k \<and> k < 32")
    case True
    then have "12 \<le> k" "\<not> bit fl (10 + (k - 12))" "k - 12 < 54" "k < 64" using fl by auto
    then show ?thesis by (auto simp: PTE2PA_def PA2PTE_def bit_simps)
  next
    case False
    then have "\<not> bit pa k" using aligned_bit [OF assms(1), of k] hi [of k] by auto
    with False fl show ?thesis by (auto simp: PTE2PA_def PA2PTE_def bit_simps)
  qed
qed

lemma load64_store64_disjoint:
  assumes "8 \<le> unat (b - a)" "8 \<le> unat (a - b)"
  shows "load64 (store64 a v m) b = load64 m b"
proof -
  have "store64 a v m (b + of_nat i) = m (b + of_nat i)" if "i < 8" for i
  proof (rule store64_apply)
    have "unat (b - a) \<le> 2 ^ 64 - 8"
      using assms(2) unat_sub_if_size [of a b] unat_sub_if_size [of b a] unat_lt64 [of a] unat_lt64 [of b]
      by (auto simp: word_size split: if_splits)
    then have "unat (b - a + of_nat i) = unat (b - a) + i"
      using that by (simp add: unat_word_ariths unat_of_nat)
    with assms(1) show "\<not> unat (b + of_nat i - a) < 8"
      by (simp add: algebra_simps)
  qed
  then show ?thesis unfolding load64_def by (intro arg_cong [OF region_cong]) auto
qed

lemma unat_8: "i < 512 \<Longrightarrow> unat (8 * i :: u64) = 8 * unat i"
  by (simp add: unat_word_ariths word_less_nat_alt)

lemma pte_byte_page:
  assumes "aligned p" "i < 512" "k < 8"
  shows "page_of (pte_addr p i + of_nat k) = page_of p"
proof -
  have "pte_addr p i + of_nat k = p + of_nat (8 * unat i + k)"
    by (simp add: pte_addr_def)
  moreover have "8 * unat i + k < 4096" using assms(2,3) by (simp add: word_less_nat_alt)
  ultimately show ?thesis using aligned_offset_page [OF assms(1)] by (simp only:)
qed

lemma load64_pte_cong:
  assumes "aligned p" "i < 512" "\<And>a. page_of a = page_of p \<Longrightarrow> m a = m' a"
  shows "load64 m (pte_addr p i) = load64 m' (pte_addr p i)"
  unfolding load64_def
  by (rule arg_cong [OF region_cong]) (use assms pte_byte_page in auto)

lemma store64_pte_apply:
  assumes "aligned p" "i < 512" "page_of a \<noteq> page_of p"
  shows "store64 (pte_addr p i) v m a = m a"
proof (rule store64_apply)
  show "\<not> unat (a - pte_addr p i) < 8"
  proof
    assume l: "unat (a - pte_addr p i) < 8"
    have "a = pte_addr p i + of_nat (unat (a - pte_addr p i))" by simp
    with pte_byte_page [OF assms(1,2) l] assms(3) show False by simp
  qed
qed

lemma load64_store64_pte:
  assumes "i < 512" "j < 512"
  shows "load64 (store64 (pte_addr p j) v m) (pte_addr p i) = (if i = j then v else load64 m (pte_addr p i))"
proof (cases "i = j")
  case False
  have sub: "8 \<le> unat (pte_addr p x - pte_addr p y)" if "x < 512" "y < 512" "x \<noteq> y" for x y
  proof -
    have eq: "pte_addr p x - pte_addr p y = 8 * x - 8 * y" by (simp add: pte_addr_def)
    have ne: "unat x \<noteq> unat y" using that(3) by (simp add: word_unat_eq_iff)
    have b: "unat x < 512" "unat y < 512" using that by (simp_all add: word_less_nat_alt)
    show ?thesis
      unfolding eq using ne b that(1,2)
      by (auto simp: unat_sub_if_size word_size unat_8)
  qed
  show ?thesis
    using False assms sub by (simp add: load64_store64_disjoint)
qed simp

lemma same_page_PX:
  assumes "va < MAXVA" "va' < MAXVA"
  shows "(\<forall>k\<le>2. PX k va = PX k va') \<longleftrightarrow> PGROUNDDOWN va = PGROUNDDOWN va'"
proof -
  have hi: "\<not> bit x k" if "x < MAXVA" "38 \<le> k" for x k
    using that by (intro bit_lt_exp [of x 38]) (auto simp: MAXVA_def)
  have rd: "PGROUNDDOWN x = push_bit 12 (drop_bit 12 x)" for x
    by (simp add: PGROUNDDOWN_def round_down_eq)
  show ?thesis
  proof
    assume a: "\<forall>k\<le>2. PX k va = PX k va'"
    show "PGROUNDDOWN va = PGROUNDDOWN va'"
      unfolding rd
    proof (rule bit_word_eqI)
      fix n assume n: "n < LENGTH(64)"
      have "bit va n = bit va' n" if "12 \<le> n" "n < 39"
      proof -
        let ?k = "(n - 12) div 9" and ?r = "(n - 12) mod 9"
        have k: "?k \<le> 2" "?r < 9" "n = 12 + 9 * ?k + ?r" using that by auto
        have "bit (PX ?k va) ?r = bit (PX ?k va') ?r" using a k(1) by simp
        then show ?thesis using k(2,3) by (simp add: PX_take_bit bit_simps)
      qed
      with hi [OF assms(1), of n] hi [OF assms(2), of n] n
      show "bit (push_bit 12 (drop_bit 12 va)) n = bit (push_bit 12 (drop_bit 12 va')) n"
        by (cases "n < 39") (auto simp: bit_simps)
    qed
  next
    assume a: "PGROUNDDOWN va = PGROUNDDOWN va'"
    have "bit va n = bit va' n" if "12 \<le> n" for n
    proof (cases "n < 64")
      case True
      have "bit (push_bit 12 (drop_bit 12 va)) n = bit (push_bit 12 (drop_bit 12 va')) n"
        using a by (simp only: rd)
      with that True show ?thesis by (simp add: bit_simps)
    next
      case False
      then show ?thesis using hi [OF assms(1), of n] hi [OF assms(2), of n] by simp
    qed
    then show "\<forall>k\<le>2. PX k va = PX k va'"
      by (auto simp: PX_take_bit bit_simps intro!: bit_word_eqI)
  qed
qed

lemma PGROUNDDOWN_aligned: "aligned a \<Longrightarrow> PGROUNDDOWN a = a"
  by (auto simp: aligned_iff word_unat_eq_iff unat_PGROUNDDOWN)

section \<open>The tree of table pages\<close>

definition pte_of :: "memory \<Rightarrow> u64 \<Rightarrow> u64 \<Rightarrow> u64" where
  "pte_of m pt i = load64 m (pte_addr pt i)"

text \<open>The valid entries of a table page, and the page such an entry points to.\<close>

definition kids :: "memory \<Rightarrow> u64 \<Rightarrow> u64 set" where
  "kids m pt = {i. i < 512 \<and> pte_of m pt i AND PTE_V \<noteq> 0}"

definition kid :: "memory \<Rightarrow> u64 \<Rightarrow> u64 \<Rightarrow> u64" where
  "kid m pt i = PTE2PA (pte_of m pt i)"

text \<open>The pages of the tree, its well-formedness, and the entry and the entry's address for a page.\<close>

primrec tables :: "nat \<Rightarrow> memory \<Rightarrow> u64 \<Rightarrow> u64 set" where
  "tables 0 m pt = {pt}"
| "tables (Suc l) m pt = insert pt (\<Union>i\<in>kids m pt. tables l m (kid m pt i))"

primrec pt_wf :: "nat \<Rightarrow> u64 \<Rightarrow> memory \<Rightarrow> u64 \<Rightarrow> bool" where
  "pt_wf 0 e m pt \<longleftrightarrow> page_ok e pt"
| "pt_wf (Suc l) e m pt \<longleftrightarrow> page_ok e pt \<and>
     (\<forall>i\<in>kids m pt. pt_wf l e m (kid m pt i) \<and> pt \<notin> tables l m (kid m pt i)) \<and>
     (\<forall>i\<in>kids m pt. \<forall>j\<in>kids m pt. i \<noteq> j \<longrightarrow>
        tables l m (kid m pt i) \<inter> tables l m (kid m pt j) = {})"

primrec pte_at :: "nat \<Rightarrow> memory \<Rightarrow> u64 \<Rightarrow> u64 \<Rightarrow> u64" where
  "pte_at 0 m pt va = pte_of m pt (PX 0 va)"
| "pte_at (Suc l) m pt va =
     (if PX (Suc l) va \<in> kids m pt then pte_at l m (kid m pt (PX (Suc l) va)) va else 0)"

primrec leaf_at :: "nat \<Rightarrow> memory \<Rightarrow> u64 \<Rightarrow> u64 \<Rightarrow> u64 option" where
  "leaf_at 0 m pt va = Some (pte_addr pt (PX 0 va))"
| "leaf_at (Suc l) m pt va =
     (if PX (Suc l) va \<in> kids m pt then leaf_at l m (kid m pt (PX (Suc l) va)) va else None)"

lemma PX_kids: "PX l va \<in> kids m pt \<longleftrightarrow> load64 m (pte_addr pt (PX l va)) AND PTE_V \<noteq> 0"
  by (simp add: kids_def pte_of_def PX_less)

lemma pte_of_cong:
  assumes "page_ok e pt" "\<And>x. page_of x = page_of pt \<Longrightarrow> m' x = m x"
  shows "i < 512 \<Longrightarrow> pte_of m' pt i = pte_of m pt i"
    and "kids m' pt = kids m pt" and "i \<in> kids m pt \<Longrightarrow> kid m' pt i = kid m pt i"
proof -
  show eq: "pte_of m' pt i = pte_of m pt i" if "i < 512" for i
    unfolding pte_of_def using assms that by (intro load64_pte_cong) (auto simp: page_ok_def)
  show "kids m' pt = kids m pt" using eq by (auto simp: kids_def)
  show "i \<in> kids m pt \<Longrightarrow> kid m' pt i = kid m pt i" using eq by (simp add: kid_def kids_def)
qed

lemma pt_in_tables [simp]: "pt \<in> tables l m pt"
  by (cases l) auto

lemma pt_wf_page_ok: "pt_wf l e m pt \<Longrightarrow> page_ok e pt"
  by (cases l) auto

lemma tables_page_ok: "pt_wf l e m pt \<Longrightarrow> q \<in> tables l m pt \<Longrightarrow> page_ok e q"
  by (induction l arbitrary: pt) auto

text \<open>Bytes outside the table pages do not matter.\<close>

lemma pt_frame:
  assumes "pt_wf l e m pt" "\<And>a q. q \<in> tables l m pt \<Longrightarrow> page_of a = page_of q \<Longrightarrow> m' a = m a"
  shows "tables l m' pt = tables l m pt \<and> pt_wf l e m' pt \<and> pte_at l m' pt va = pte_at l m pt va
    \<and> leaf_at l m' pt va = leaf_at l m pt va"
  using assms
proof (induction l arbitrary: pt)
  case 0
  then show ?case using pte_of_cong(1) [of e pt m' m] by (simp add: PX_less)
next
  case (Suc l)
  have pt: "page_ok e pt" using Suc.prems(1) by simp
  have "m' x = m x" if "page_of x = page_of pt" for x using Suc.prems(2) [of pt x] that by simp
  note own = pte_of_cong [of e pt m' m, OF pt this]
  have IH: "tables l m' (kid m pt i) = tables l m (kid m pt i) \<and> pt_wf l e m' (kid m pt i) \<and>
      pte_at l m' (kid m pt i) va = pte_at l m (kid m pt i) va \<and>
      leaf_at l m' (kid m pt i) va = leaf_at l m (kid m pt i) va"
    if "i \<in> kids m pt" for i
    using Suc.IH [of "kid m pt i"] Suc.prems that by auto
  show ?case using Suc.prems own(2,3) IH by auto
qed

lemma walk_levels_no_alloc:
  "walk_levels l pt va False w = Ok (case leaf_at l (mem w) pt va of None \<Rightarrow> 0 | Some a \<Rightarrow> a, w)"
  by (induction l arbitrary: pt) (simp_all add: Let_def PX_kids kid_def pte_of_def)

lemma pte_at_leaf: "pte_at l m pt va = (case leaf_at l m pt va of None \<Rightarrow> 0 | Some a \<Rightarrow> load64 m a)"
  by (induction l arbitrary: pt) (simp_all add: pte_of_def)

section \<open>Changes to the tree\<close>

lemma leaf_in_table:
  "leaf_at l m pt va = Some a \<Longrightarrow> \<exists>q\<in>tables l m pt. a = pte_addr q (PX 0 va)"
  by (induction l arbitrary: pt) (auto split: if_splits)

lemma pte_addr_nonzero: "page_ok e q \<Longrightarrow> i < 512 \<Longrightarrow> pte_addr q i \<noteq> 0"
proof
  assume a: "page_ok e q" "i < 512" "pte_addr q i = 0"
  have "unat (8 * i) = 8 * unat i" "unat i < 512" using a(2) by (simp_all add: unat_8 word_less_nat_alt)
  moreover have "unat q < 0x88000000" "q \<noteq> 0"
    using a(1) by (simp_all add: page_ok_def PHYSTOP_def KERNBASE_def word_less_nat_alt)
  ultimately have "unat (pte_addr q i) = unat q + 8 * unat i" "0 < unat q"
    by (simp_all add: pte_addr_def unat_word_ariths unat_gt_0)
  with a(3) show False by simp
qed

lemma page_ok_neq: "page_ok e p \<Longrightarrow> page_ok e' q \<Longrightarrow> p \<noteq> q \<Longrightarrow> page_of p \<noteq> page_of q"
  by (simp add: page_ok_def aligned_page_eq)

lemma leaf_nonzero:
  assumes "pt_wf l e m pt" "leaf_at l m pt va = Some a"
  shows "a \<noteq> 0"
proof -
  obtain q where "q \<in> tables l m pt" "a = pte_addr q (PX 0 va)" using leaf_in_table [OF assms(2)] by blast
  then show ?thesis using pte_addr_nonzero [OF tables_page_ok [OF assms(1)] PX_less] by simp
qed

text \<open>
  A change of memory confined to one subtable and to pages \<open>S\<close> outside the tree leaves the rest of
  the tree as it was.
\<close>

lemma subtable_change:
  assumes wf: "pt_wf (Suc l) e m pt" and i: "i \<in> kids m pt"
    and frame: "\<And>x. page_of x \<notin> page_of ` (tables l m (kid m pt i) \<union> S) \<Longrightarrow> m' x = m x"
    and S: "S \<inter> tables (Suc l) m pt = {}" "\<And>p. p \<in> S \<Longrightarrow> page_ok e p"
    and wf': "pt_wf l e m' (kid m pt i)" "tables l m' (kid m pt i) \<subseteq> tables l m (kid m pt i) \<union> S"
  shows "kids m' pt = kids m pt" and "\<forall>j\<in>kids m pt. kid m' pt j = kid m pt j"
    and "\<forall>j\<in>kids m pt. j \<noteq> i \<longrightarrow> tables l m' (kid m pt j) = tables l m (kid m pt j) \<and>
      pte_at l m' (kid m pt j) va = pte_at l m (kid m pt j) va \<and>
      leaf_at l m' (kid m pt j) va = leaf_at l m (kid m pt j) va"
    and "pt_wf (Suc l) e m' pt"
    and "tables (Suc l) m' pt \<subseteq> tables (Suc l) m pt \<union> S"
proof -
  let ?F = "tables l m (kid m pt i) \<union> S"
  have wfc: "pt_wf l e m (kid m pt i)" "pt \<notin> tables l m (kid m pt i)" using wf i by auto
  have okF: "page_ok e q" if "q \<in> ?F" for q
    using that tables_page_ok [OF wfc(1)] S(2) by blast
  have out: "m' x = m x" if "page_ok e r" "r \<notin> ?F" "page_of x = page_of r" for x r
  proof (rule frame)
    show "page_of x \<notin> page_of ` ?F"
    proof
      assume "page_of x \<in> page_of ` ?F"
      then obtain q where q: "q \<in> ?F" "page_of x = page_of q" by blast
      then have "r \<noteq> q" using that(2) by blast
      from page_ok_neq [OF that(1) okF [OF q(1)] this] that(3) q(2) show False by simp
    qed
  qed
  have okp: "page_ok e pt" using wf by simp
  have "pt \<notin> ?F" using wfc(2) S(1) by auto
  then have "m' x = m x" if "page_of x = page_of pt" for x using out [OF okp _ that] by blast
  note own = pte_of_cong [of e pt m' m, OF okp this]
  show own2: "kids m' pt = kids m pt" by (rule own(2))
  show own3: "\<forall>j\<in>kids m pt. kid m' pt j = kid m pt j" using own(3) by blast
  have other: "tables l m' (kid m pt j) = tables l m (kid m pt j) \<and> pt_wf l e m' (kid m pt j) \<and>
      pte_at l m' (kid m pt j) va = pte_at l m (kid m pt j) va \<and>
      leaf_at l m' (kid m pt j) va = leaf_at l m (kid m pt j) va"
    if j: "j \<in> kids m pt" "j \<noteq> i" for j
  proof (rule pt_frame)
    show wfj: "pt_wf l e m (kid m pt j)" using wf j by auto
    show "m' x = m x" if r: "r \<in> tables l m (kid m pt j)" "page_of x = page_of r" for x r
    proof (rule out [OF tables_page_ok [OF wfj r(1)] _ r(2)])
      have "r \<in> tables (Suc l) m pt" using r(1) j(1) by auto
      moreover have "r \<notin> tables l m (kid m pt i)" using wf i j r(1) by auto
      ultimately show "r \<notin> ?F" using S(1) by auto
    qed
  qed
  then show "\<forall>j\<in>kids m pt. j \<noteq> i \<longrightarrow> tables l m' (kid m pt j) = tables l m (kid m pt j) \<and>
      pte_at l m' (kid m pt j) va = pte_at l m (kid m pt j) va \<and>
      leaf_at l m' (kid m pt j) va = leaf_at l m (kid m pt j) va" by blast
  have sub: "tables l m' (kid m pt j) \<subseteq> tables l m (kid m pt j) \<union> S" if "j \<in> kids m pt" for j
    using other [OF that] wf'(2) by (cases "j = i") auto
  then show "tables (Suc l) m' pt \<subseteq> tables (Suc l) m pt \<union> S"
    using own2 own3 by auto
  have disj: "tables l m' (kid m pt j) \<inter> tables l m' (kid m pt k) = {}"
    if jk: "j \<in> kids m pt" "k \<in> kids m pt" "j \<noteq> k" for j k
  proof -
    have d: "tables l m (kid m pt j) \<inter> tables l m (kid m pt k) = {}" using wf jk by simp
    have "S \<inter> tables l m (kid m pt j) = {}" "S \<inter> tables l m (kid m pt k) = {}" using S(1) jk by auto
    moreover have "tables l m' (kid m pt k) = tables l m (kid m pt k) \<or>
        tables l m' (kid m pt j) = tables l m (kid m pt j)" using other jk by metis
    ultimately show ?thesis using sub [OF jk(1)] sub [OF jk(2)] d by blast
  qed
  have "pt_wf l e m' (kid m pt j) \<and> pt \<notin> tables l m' (kid m pt j)" if j: "j \<in> kids m pt" for j
    using sub [OF j] wf j S(1) other [OF j] wf'(1) by (cases "j = i") auto
  with disj show "pt_wf (Suc l) e m' pt" using own2 own3 okp by simp
qed

text \<open>
  A store through the address that \<^verbatim>\<open>walk\<close> returns changes the entry for that page and no other.
\<close>

lemma leaf_store:
  assumes "pt_wf l e m pt" "leaf_at l m pt va = Some a"
  shows "pt_wf l e (store64 a v m) pt \<and> tables l (store64 a v m) pt \<subseteq> tables l m pt \<and>
    pte_at l (store64 a v m) pt va' = (if \<forall>k\<le>l. PX k va' = PX k va then v else pte_at l m pt va')"
  using assms
proof (induction l arbitrary: pt)
  case 0
  then have a: "a = pte_addr pt (PX 0 va)" by simp
  show ?case using 0 unfolding a by (simp add: pte_of_def load64_store64_pte PX_less)
next
  case (Suc l)
  let ?i = "PX (Suc l) va" and ?m = "store64 a v m"
  have i: "?i \<in> kids m pt" "leaf_at l m (kid m pt ?i) va = Some a"
    using Suc.prems(2) by (auto split: if_splits)
  then have wfc: "pt_wf l e m (kid m pt ?i)" using Suc.prems(1) by auto
  obtain q where q: "q \<in> tables l m (kid m pt ?i)" "a = pte_addr q (PX 0 va)"
    using leaf_in_table [OF i(2)] by blast
  have fr: "?m x = m x" if "page_of x \<notin> page_of ` (tables l m (kid m pt ?i) \<union> {})" for x
  proof -
    have "page_of x \<noteq> page_of q" using that q(1) by auto
    then show ?thesis
      using tables_page_ok [OF wfc q(1)] unfolding q(2) by (simp add: store64_pte_apply page_ok_def PX_less)
  qed
  note IH = Suc.IH [OF wfc i(2)]
  have emp: "{} \<inter> tables (Suc l) m pt = {}" "\<And>p. p \<in> {} \<Longrightarrow> page_ok e p" by auto
  have wfi: "pt_wf l e ?m (kid m pt ?i)" "tables l ?m (kid m pt ?i) \<subseteq> tables l m (kid m pt ?i) \<union> {}"
    using IH by auto
  note sub = subtable_change [OF Suc.prems(1) i(1) fr emp wfi]
  have "pte_at (Suc l) ?m pt va' =
      (if \<forall>k\<le>Suc l. PX k va' = PX k va then v else pte_at (Suc l) m pt va')"
  proof (cases "PX (Suc l) va' = ?i")
    case True
    then have eq: "(\<forall>k\<le>Suc l. PX k va' = PX k va) \<longleftrightarrow> (\<forall>k\<le>l. PX k va' = PX k va)"
      using le_Suc_eq by auto
    show ?thesis
      unfolding eq using True IH i(1) sub(1,2) by (cases "\<forall>k\<le>l. PX k va' = PX k va") auto
  next
    case False
    then have "\<not> (\<forall>k\<le>Suc l. PX k va' = PX k va)" by blast
    with False sub(1,2) sub(3) [where va = va'] show ?thesis by auto
  qed
  with sub(4,5) show ?case by simp
qed

text \<open>A zeroed page is an empty table of any level.\<close>

lemma zero_table:
  assumes "page_ok e p" "\<And>a. page_of a = page_of p \<Longrightarrow> m a = 0"
  shows "tables l m p = {p} \<and> pt_wf l e m p \<and> pte_at l m p va = 0"
proof -
  have z: "pte_of m p i = 0" if "i < 512" for i
    using pte_of_cong(1) [OF assms(1), of m "\<lambda>_. 0" i] assms(2) that by (simp add: pte_of_def)
  then have "kids m p = {}" by (simp add: kids_def)
  with z assms(1) PX_less show ?thesis by (cases l) auto
qed

section \<open>Walking with allocation\<close>

text \<open>A well-formed page table none of whose pages is free, next to the pool of free pages.\<close>

definition pt_ok :: "nat \<Rightarrow> u64 \<Rightarrow> world \<Rightarrow> u64 list \<Rightarrow> bool" where
  "pt_ok l pt w ps \<longleftrightarrow> kmem_pool w ps \<and> pt_wf l (ld_end (ld w)) (mem w) pt \<and>
     tables l (mem w) pt \<inter> set ps = {}"

text \<open>
  \<open>w'\<close> extends the page table \<open>pt\<close> of \<open>w\<close> with pages from the front of the pool and changes
  nothing else.
\<close>

definition pt_grows :: "nat \<Rightarrow> u64 \<Rightarrow> world \<Rightarrow> u64 list \<Rightarrow> world \<Rightarrow> nat \<Rightarrow> bool" where
  "pt_grows l pt w ps w' n \<longleftrightarrow> mem_only w w' \<and> n \<le> length ps \<and> kmem_pool w' (drop n ps) \<and>
     pt_wf l (ld_end (ld w)) (mem w') pt \<and>
     tables l (mem w') pt \<subseteq> tables l (mem w) pt \<union> set (take n ps) \<and>
     (\<forall>x. page_of x \<notin> page_of ` (tables l (mem w) pt \<union> set (take n ps)) \<longrightarrow> mem w' x = mem w x)"

lemma pool_pages: "kmem_pool w ps \<Longrightarrow> p \<in> set ps \<Longrightarrow> page_ok (ld_end (ld w)) p"
  by (auto simp: kmem_pool_def kmem_inv_def list_all_iff)

lemma pool_distinct: "kmem_pool w ps \<Longrightarrow> distinct ps"
  by (simp add: kmem_pool_def kmem_inv_def)

text \<open>Linking a fresh zeroed page into an empty slot.\<close>

lemma link_table:
  assumes wf: "pt_wf (Suc l) e m pt" and i: "i < 512" "i \<notin> kids m pt"
    and p: "page_ok e p" "p \<notin> tables (Suc l) m pt"
    and m1: "\<And>x. page_of x \<noteq> page_of p \<Longrightarrow> m1 x = m x" "\<And>x. page_of x = page_of p \<Longrightarrow> m1 x = 0"
    and m2: "m2 = store64 (pte_addr pt i) (PA2PTE p OR PTE_V) m1"
  shows "pt_wf (Suc l) e m2 pt" "tables (Suc l) m2 pt = insert p (tables (Suc l) m pt)"
    "pte_at (Suc l) m2 pt va = pte_at (Suc l) m pt va"
    "i \<in> kids m2 pt" "kid m2 pt i = p"
    "\<And>x. page_of x \<noteq> page_of p \<Longrightarrow> page_of x \<noteq> page_of pt \<Longrightarrow> m2 x = m x"
    "\<And>x. page_of x = page_of p \<Longrightarrow> m2 x = 0"
proof -
  have okp: "page_ok e pt" using wf by simp
  have ne: "page_of p \<noteq> page_of pt" using p okp page_ok_neq [OF p(1) okp] by auto
  have st: "m2 x = m1 x" if "page_of x \<noteq> page_of pt" for x
    using that okp i(1) unfolding m2 by (simp add: store64_pte_apply page_ok_def)
  show fr: "m2 x = m x" if "page_of x \<noteq> page_of p" "page_of x \<noteq> page_of pt" for x
    using that st m1(1) by simp
  show z: "m2 x = 0" if "page_of x = page_of p" for x using that st ne m1(2) by simp
  have "m1 x = m x" if "page_of x = page_of pt" for x using that ne m1(1) by simp
  note m1e = pte_of_cong(1) [of e pt m1 m, OF okp this]
  have e2: "pte_of m2 pt j = (if j = i then PA2PTE p OR PTE_V else pte_of m pt j)" if "j < 512" for j
    using that i(1) m1e unfolding m2 pte_of_def by (simp add: load64_store64_pte)
  have "bit (pte_of m2 pt i AND PTE_V) 0"
    using e2 [OF i(1)] by (simp add: bit_simps PTE_V_def)
  then have "pte_of m2 pt i AND PTE_V \<noteq> 0" by auto
  then have k2: "kids m2 pt = insert i (kids m pt)"
    using e2 i by (auto simp: kids_def split: if_splits)
  show "i \<in> kids m2 pt" by (simp add: k2)
  show kp: "kid m2 pt i = p"
    using e2 [OF i(1)] p(1) by (simp add: kid_def PTE2PA_PA2PTE page_ok_def PTE_V_def)
  have ko: "kid m2 pt j = kid m pt j" if "j \<in> kids m pt" for j
    using that e2 i(2) by (auto simp: kid_def kids_def)
  have zt: "tables l m2 p = {p} \<and> pt_wf l e m2 p \<and> pte_at l m2 p va = 0"
    by (rule zero_table [OF p(1) z])
  have ch: "tables l m2 (kid m pt j) = tables l m (kid m pt j) \<and> pt_wf l e m2 (kid m pt j) \<and>
      pte_at l m2 (kid m pt j) va = pte_at l m (kid m pt j) va \<and>
      leaf_at l m2 (kid m pt j) va = leaf_at l m (kid m pt j) va"
    if j: "j \<in> kids m pt" for j
  proof (rule pt_frame)
    show wfj: "pt_wf l e m (kid m pt j)" using wf j by auto
    show "m2 x = m x" if r: "r \<in> tables l m (kid m pt j)" "page_of x = page_of r" for x r
    proof -
      have "page_ok e r" by (rule tables_page_ok [OF wfj r(1)])
      moreover have "r \<noteq> p" "r \<noteq> pt" using r(1) j p(2) wf by auto
      ultimately have "page_of r \<noteq> page_of p" "page_of r \<noteq> page_of pt"
        using page_ok_neq p(1) okp by blast+
      with r(2) show ?thesis by (intro fr) auto
    qed
  qed
  have t2: "tables l m2 (kid m2 pt j) = (if j = i then {p} else tables l m (kid m pt j))"
    if "j \<in> kids m2 pt" for j
    using that k2 kp ko ch zt i(2) by auto
  have w2: "pt_wf l e m2 (kid m2 pt j)" if "j \<in> kids m2 pt" for j
    using that k2 kp ko ch zt i(2) by auto
  have pj: "p \<notin> tables l m (kid m pt j)" if "j \<in> kids m pt" for j
    using that p(2) by auto
  have "(\<Union>j\<in>kids m2 pt. tables l m2 (kid m2 pt j)) = insert p (\<Union>j\<in>kids m pt. tables l m (kid m pt j))"
    using t2 k2 i(2) by auto
  then show "tables (Suc l) m2 pt = insert p (tables (Suc l) m pt)" by auto
  have "pt \<noteq> p" using ne by auto
  then have own: "pt \<notin> tables l m2 (kid m2 pt j)" if "j \<in> kids m2 pt" for j
    using that t2 [OF that] k2 wf i(2) by auto
  have dj: "tables l m (kid m pt j) \<inter> tables l m (kid m pt k) = {}"
    if "j \<in> kids m pt" "k \<in> kids m pt" "j \<noteq> k" for j k
    using wf that by simp
  have "tables l m2 (kid m2 pt j) \<inter> tables l m2 (kid m2 pt k) = {}"
    if "j \<in> kids m2 pt" "k \<in> kids m2 pt" "j \<noteq> k" for j k
    unfolding t2 [OF that(1)] t2 [OF that(2)] using that k2 dj [of j k] pj by auto
  with w2 own okp show "pt_wf (Suc l) e m2 pt" by simp
  show "pte_at (Suc l) m2 pt va = pte_at (Suc l) m pt va"
    using k2 kp ko ch zt i(2) by (cases "PX (Suc l) va = i") auto
qed

lemma pt_grows_trans:
  assumes "pt_grows l pt w ps w1 n" "pt_grows l pt w1 (drop n ps) w2 k"
  shows "pt_grows l pt w ps w2 (n + k)"
proof -
  have m: "mem_only w w2" using assms mem_only_trans unfolding pt_grows_def by blast
  have t: "take (n + k) ps = take n ps @ take k (drop n ps)" by (rule take_add)
  have ld: "ld w1 = ld w" using assms(1) mem_only_fields(2) unfolding pt_grows_def by blast
  have "mem w2 x = mem w x" if x: "page_of x \<notin> page_of ` (tables l (mem w) pt \<union> set (take (n + k) ps))" for x
  proof -
    have "page_of x \<notin> page_of ` (tables l (mem w) pt \<union> set (take n ps))" using x t by auto
    moreover from this have "page_of x \<notin> page_of ` (tables l (mem w1) pt \<union> set (take k (drop n ps)))"
      using x t assms(1) unfolding pt_grows_def by auto
    ultimately show ?thesis using assms unfolding pt_grows_def by simp
  qed
  with m t ld show ?thesis using assms by (auto simp: pt_grows_def add.commute)
qed

lemma pt_grows_ok:
  assumes "pt_ok l pt w ps" "pt_grows l pt w ps w' n"
  shows "pt_ok l pt w' (drop n ps)"
proof -
  have "ld w' = ld w" using assms(2) mem_only_fields(2) unfolding pt_grows_def by blast
  moreover have "distinct (take n ps @ drop n ps)" using assms(1) pool_distinct unfolding pt_ok_def by auto
  then have "set (take n ps) \<inter> set (drop n ps) = {}" unfolding distinct_append by blast
  then have "tables l (mem w') pt \<inter> set (drop n ps) = {}"
    using assms set_drop_subset [of n ps] unfolding pt_ok_def pt_grows_def by blast
  ultimately show ?thesis using assms(2) by (simp add: pt_ok_def pt_grows_def)
qed

lemma pt_ok_kid:
  assumes "pt_ok (Suc l) pt w ps" "i \<in> kids (mem w) pt"
  shows "pt_ok l (kid (mem w) pt i) w ps"
proof -
  have "tables l (mem w) (kid (mem w) pt i) \<subseteq> tables (Suc l) (mem w) pt" using assms(2) by auto
  moreover have "tables (Suc l) (mem w) pt \<inter> set ps = {}" using assms(1) unfolding pt_ok_def by blast
  ultimately have "tables l (mem w) (kid (mem w) pt i) \<inter> set ps = {}" by blast
  with assms show ?thesis by (simp add: pt_ok_def)
qed

lemma subtable_grows:
  assumes ok: "pt_ok (Suc l) pt w ps"
    and i: "PX (Suc l) va \<in> kids (mem w) pt" and c: "c = kid (mem w) pt (PX (Suc l) va)"
    and g: "pt_grows l c w ps w' n" and same: "\<forall>va'. pte_at l (mem w') c va' = pte_at l (mem w) c va'"
  shows "pt_grows (Suc l) pt w ps w' n"
    and "\<forall>va'. pte_at (Suc l) (mem w') pt va' = pte_at (Suc l) (mem w) pt va'"
    and "leaf_at (Suc l) (mem w') pt va = leaf_at l (mem w') c va"
proof -
  let ?e = "ld_end (ld w)" and ?i = "PX (Suc l) va"
  have pt: "pt_wf (Suc l) ?e (mem w) pt" "kmem_pool w ps" "tables (Suc l) (mem w) pt \<inter> set ps = {}"
    using ok by (simp_all add: pt_ok_def del: tables.simps pt_wf.simps)
  have S: "set (take n ps) \<inter> tables (Suc l) (mem w) pt = {}"
    using pt(3) set_take_subset [of n ps] by blast
  have S2: "page_ok ?e p" if "p \<in> set (take n ps)" for p
    using pool_pages [OF pt(2)] that by (blast dest: in_set_takeD)
  have fr: "mem w' x = mem w x" if "page_of x \<notin> page_of ` (tables l (mem w) (kid (mem w) pt ?i) \<union> set (take n ps))" for x
    using g that c by (simp add: pt_grows_def)
  have wf': "pt_wf l ?e (mem w') (kid (mem w) pt ?i)"
    "tables l (mem w') (kid (mem w) pt ?i) \<subseteq> tables l (mem w) (kid (mem w) pt ?i) \<union> set (take n ps)"
    using g c by (simp_all add: pt_grows_def)
  note sub = subtable_change [OF pt(1) i fr S S2 wf']
  have "tables l (mem w) (kid (mem w) pt ?i) \<subseteq> tables (Suc l) (mem w) pt" using i by auto
  then have "mem w' x = mem w x" if "page_of x \<notin> page_of ` (tables (Suc l) (mem w) pt \<union> set (take n ps))" for x
    using that by (intro fr) blast
  then show "pt_grows (Suc l) pt w ps w' n"
    using g sub(4,5) by (simp add: pt_grows_def del: tables.simps pt_wf.simps)
  have "pte_at (Suc l) (mem w') pt va' = pte_at (Suc l) (mem w) pt va'" for va'
    using sub(1,2) sub(3) [where va = va'] same c by (cases "PX (Suc l) va' = ?i") auto
  then show "\<forall>va'. pte_at (Suc l) (mem w') pt va' = pte_at (Suc l) (mem w) pt va'" by blast
  show "leaf_at (Suc l) (mem w') pt va = leaf_at l (mem w') c va" using sub(1,2) i c by simp
qed

lemma link_grows:
  assumes ok: "pt_ok (Suc l) pt w (p # qs)" and i: "i < 512" "i \<notin> kids (mem w) pt"
  shows "\<exists>w1. kalloc w = Ok (p, w1) \<and>
    (let w2 = w1\<lparr>mem := store64 (pte_addr pt i) (PA2PTE p OR PTE_V) (memset p 0 4096 (mem w1))\<rparr>
     in pt_grows (Suc l) pt w (p # qs) w2 1 \<and> i \<in> kids (mem w2) pt \<and> kid (mem w2) pt i = p \<and>
        tables l (mem w2) p = {p} \<and>
        (\<forall>va. pte_at (Suc l) (mem w2) pt va = pte_at (Suc l) (mem w) pt va))"
proof -
  let ?e = "ld_end (ld w)"
  have pool: "kmem_pool w (p # qs)" and wf: "pt_wf (Suc l) ?e (mem w) pt"
    and dj: "tables (Suc l) (mem w) pt \<inter> set (p # qs) = {}"
    using ok by (simp_all add: pt_ok_def del: tables.simps pt_wf.simps)
  from kalloc_pool [OF pool] obtain w1 where w1: "kalloc w = Ok (p, w1)" "kmem_pool w1 qs"
    "mem_only w w1" "\<forall>a. page_of a \<noteq> page_of p \<longrightarrow> mem w1 a = mem w a" by blast
  have okp: "page_ok ?e p" and pqs: "p \<notin> set qs" and okt: "page_ok ?e pt"
    using pool_pages [OF pool] pool_distinct [OF pool] wf by auto
  then have al: "aligned p" by (simp add: page_ok_def)
  let ?m1 = "memset p 0 4096 (mem w1)"
  let ?m2 = "store64 (pte_addr pt i) (PA2PTE p OR PTE_V) ?m1"
  have m1: "?m1 x = mem w x" if "page_of x \<noteq> page_of p" for x
    using that w1(4) al by (simp add: memset_page_apply)
  have m1z: "?m1 x = 0" if "page_of x = page_of p" for x
    using that al by (simp add: memset_page_apply)
  have pt: "p \<notin> tables (Suc l) (mem w) pt" using dj by auto
  note link = link_table [where ?m1.0 = ?m1 and ?m2.0 = ?m2, OF wf i okp pt m1 m1z refl]
  have "?m2 x = mem w1 x" if "page_of x \<in> page_of ` set qs" for x
  proof -
    obtain q where q: "q \<in> set qs" "page_of x = page_of q" using \<open>page_of x \<in> page_of ` set qs\<close> by blast
    have "page_ok ?e q" using pool_pages [OF pool] q(1) by simp
    moreover have "q \<noteq> p" "q \<noteq> pt" using q(1) pqs dj by auto
    ultimately have "page_of x \<noteq> page_of p" "page_of x \<noteq> page_of pt"
      using q(2) page_ok_neq okp okt by metis+
    then show ?thesis using link(6) w1(4) by simp
  qed
  then have pool2: "kmem_pool (w1\<lparr>mem := ?m2\<rparr>) qs" by (rule kmem_pool_mem [OF w1(2)])
  have "?m2 x = mem w x" if "page_of x \<notin> page_of ` (tables (Suc l) (mem w) pt \<union> set (take 1 (p # qs)))" for x
    using that by (intro link(6)) auto
  then have "pt_grows (Suc l) pt w (p # qs) (w1\<lparr>mem := ?m2\<rparr>) 1"
    using pool2 link(1,2) mem_only_trans [OF w1(3) mem_only_mem [of w1 ?m2]]
    by (simp add: pt_grows_def del: tables.simps pt_wf.simps)
  moreover have "tables l ?m2 p = {p}" using zero_table [of ?e p ?m2 l, OF okp link(7)] by blast
  ultimately show ?thesis using w1(1) link(3-5) by (simp add: Let_def del: pte_at.simps)
qed

lemma walk_levels_alloc:
  assumes "pt_ok l pt w ps"
  shows "\<exists>a w' n. walk_levels l pt va True w = Ok (a, w') \<and> pt_grows l pt w ps w' n \<and>
    (\<forall>va'. pte_at l (mem w') pt va' = pte_at l (mem w) pt va') \<and> n \<le> l \<and>
    (if a = 0 then n < l \<and> drop n ps = [] else leaf_at l (mem w') pt va = Some a)"
  using assms
proof (induction l arbitrary: pt w ps)
  case 0
  have "pt_grows 0 pt w ps w 0" using 0 by (simp add: pt_grows_def pt_ok_def)
  moreover have "pte_addr pt (PX 0 va) \<noteq> 0" using 0 pte_addr_nonzero PX_less by (auto simp: pt_ok_def)
  ultimately show ?case by (intro exI [of _ "pte_addr pt (PX 0 va)"] exI [of _ w] exI [of _ 0]) simp
next
  case (Suc l)
  let ?i = "PX (Suc l) va"
  consider (valid) "?i \<in> kids (mem w) pt" | (empty) "?i \<notin> kids (mem w) pt" "ps = []"
    | (fresh) p qs where "?i \<notin> kids (mem w) pt" "ps = p # qs" by (cases ps) auto
  then show ?case
  proof cases
    case valid
    let ?c = "kid (mem w) pt ?i"
    from Suc.IH [OF pt_ok_kid [OF Suc.prems valid]] obtain a w' n where r: "walk_levels l ?c va True w = Ok (a, w')"
      "pt_grows l ?c w ps w' n" "\<forall>va'. pte_at l (mem w') ?c va' = pte_at l (mem w) ?c va'"
      "n \<le> l" "if a = 0 then n < l \<and> drop n ps = [] else leaf_at l (mem w') ?c va = Some a" by blast
    have "walk_levels (Suc l) pt va True w = Ok (a, w')"
      using valid r(1) by (simp add: PX_kids kid_def pte_of_def Let_def)
    with subtable_grows [OF Suc.prems valid refl r(2,3)] r(4,5) show ?thesis
      by (intro exI [of _ a] exI [of _ w'] exI [of _ n]) auto
  next
    case empty
    with Suc.prems kalloc_pool_empty [of w] obtain w' where w': "kalloc w = Ok (0, w')" "kmem_pool w' []"
      "mem_only w w'" "mem w' = mem w" by (auto simp: pt_ok_def)
    then have "pt_grows (Suc l) pt w ps w' 0" using Suc.prems empty by (simp add: pt_grows_def pt_ok_def)
    with w' empty show ?thesis
      by (intro exI [of _ 0] exI [of _ w'] exI [of _ 0]) (simp add: PX_kids Let_def)
  next
    case fresh
    define w2 where "w2 w1 = w1\<lparr>mem := store64 (pte_addr pt ?i) (PA2PTE p OR PTE_V) (memset p 0 4096 (mem w1))\<rparr>"
      for w1 :: world
    from link_grows [of l pt w p qs ?i] Suc.prems fresh PX_less obtain w1 where
      w1: "kalloc w = Ok (p, w1)" and g: "pt_grows (Suc l) pt w ps (w2 w1) 1"
      and kd: "?i \<in> kids (mem (w2 w1)) pt" "kid (mem (w2 w1)) pt ?i = p" "tables l (mem (w2 w1)) p = {p}"
      and same: "\<forall>va. pte_at (Suc l) (mem (w2 w1)) pt va = pte_at (Suc l) (mem w) pt va"
      unfolding Let_def w2_def by auto
    have v: "pt_ok (Suc l) pt (w2 w1) qs" using pt_grows_ok [OF Suc.prems g] fresh(2) by simp
    have "pt_ok l p (w2 w1) qs" using pt_ok_kid [OF v kd(1)] kd(2) by simp
    from Suc.IH [OF this] obtain a w' n where r: "walk_levels l p va True (w2 w1) = Ok (a, w')"
      "pt_grows l p (w2 w1) qs w' n" "\<forall>va'. pte_at l (mem w') p va' = pte_at l (mem (w2 w1)) p va'"
      "n \<le> l" "if a = 0 then n < l \<and> drop n qs = [] else leaf_at l (mem w') p va = Some a" by blast
    have "p \<noteq> 0" using Suc.prems fresh(2) pool_pages [of w ps p] by (simp add: page_ok_def pt_ok_def)
    then have "walk_levels (Suc l) pt va True w = Ok (a, w')"
      using fresh(1) r(1) w1 by (simp add: PX_kids Let_def w2_def)
    moreover note sub = subtable_grows [OF v kd(1) kd(2) [symmetric] r(2,3)]
    moreover have "pt_grows (Suc l) pt w ps w' (1 + n)"
      using pt_grows_trans [OF g, of w' n] sub(1) fresh(2) by simp
    ultimately show ?thesis using same r(4,5) fresh(2)
      by (intro exI [of _ a] exI [of _ w'] exI [of _ "1 + n"]) simp
  qed
qed

section \<open>Lookups and mappings\<close>

lemma walk_no_alloc:
  "va < MAXVA \<Longrightarrow> walk pt va False w = Ok (case leaf_at 2 (mem w) pt va of None \<Rightarrow> 0 | Some a \<Rightarrow> a, w)"
  by (simp add: walk_def walk_levels_no_alloc)

lemma walk_cases:
  assumes "pt_wf 2 e (mem w) pt" "va < MAXVA"
  obtains (none) "walk pt va False w = Ok (0, w)" "pte_at 2 (mem w) pt va = 0"
  | (leaf) a where "walk pt va False w = Ok (a, w)" "a \<noteq> 0" "leaf_at 2 (mem w) pt va = Some a"
      "load64 (mem w) a = pte_at 2 (mem w) pt va"
  using assms leaf_nonzero [OF assms(1), of va]
  by (cases "leaf_at 2 (mem w) pt va") (auto simp: walk_no_alloc pte_at_leaf)

definition user_pte :: "memory \<Rightarrow> u64 \<Rightarrow> u64 \<Rightarrow> bool" where
  "user_pte m pt va \<longleftrightarrow> pte_at 2 m pt va AND PTE_V \<noteq> 0 \<and> pte_at 2 m pt va AND PTE_U \<noteq> 0"

lemma walkaddr_eq:
  assumes "pt_wf 2 e (mem w) pt"
  shows "walkaddr pt va w =
    Ok (if va < MAXVA \<and> user_pte (mem w) pt va then PTE2PA (pte_at 2 (mem w) pt va) else 0, w)"
proof (cases "va < MAXVA")
  case True
  from assms True show ?thesis
    by (cases rule: walk_cases) (auto simp: walkaddr_def user_pte_def)
qed (auto simp: walkaddr_def not_less)

lemma walk_alloc:
  assumes "pt_ok 2 pt w ps" "va < MAXVA"
  shows "\<exists>a w' n. walk pt va True w = Ok (a, w') \<and> pt_grows 2 pt w ps w' n \<and>
    (\<forall>va'. pte_at 2 (mem w') pt va' = pte_at 2 (mem w) pt va') \<and> n \<le> 2 \<and>
    (if a = 0 then n < 2 \<and> drop n ps = [] else leaf_at 2 (mem w') pt va = Some a)"
  using walk_levels_alloc [OF assms(1), of va] assms(2) by (simp add: walk_def)

lemma leaf_store_grows:
  assumes "pt_ok l pt w ps" "leaf_at l (mem w) pt va = Some a"
  shows "pt_grows l pt w ps (w\<lparr>mem := store64 a v (mem w)\<rparr>) 0"
proof -
  have wf: "pt_wf l (ld_end (ld w)) (mem w) pt" and pool: "kmem_pool w ps"
    and dj: "tables l (mem w) pt \<inter> set ps = {}" using assms(1) by (simp_all add: pt_ok_def)
  obtain q where q: "q \<in> tables l (mem w) pt" "a = pte_addr q (PX 0 va)"
    using leaf_in_table [OF assms(2)] by blast
  have okq: "page_ok (ld_end (ld w)) q" by (rule tables_page_ok [OF wf q(1)])
  have fr: "store64 a v (mem w) x = mem w x" if "page_of x \<noteq> page_of q" for x
    using that okq unfolding q(2) by (simp add: store64_pte_apply page_ok_def PX_less)
  have "store64 a v (mem w) x = mem w x" if "page_of x \<in> page_of ` set ps" for x
  proof (rule fr)
    obtain p where p: "p \<in> set ps" "page_of x = page_of p" using \<open>page_of x \<in> page_of ` set ps\<close> by blast
    have "p \<noteq> q" using p(1) q(1) dj by blast
    then show "page_of x \<noteq> page_of q" using page_ok_neq [OF pool_pages [OF pool p(1)] okq] p(2) by simp
  qed
  then have "kmem_pool (w\<lparr>mem := store64 a v (mem w)\<rparr>) ps" by (rule kmem_pool_mem [OF pool])
  moreover have "store64 a v (mem w) x = mem w x" if "page_of x \<notin> page_of ` tables l (mem w) pt" for x
    using that q(1) by (intro fr) blast
  ultimately show ?thesis
    using leaf_store [OF wf assms(2), of v] by (simp add: pt_grows_def)
qed

text \<open>One iteration of the loop of \<^verbatim>\<open>mappages\<close>: map the page \<open>a\<close>, or find memory exhausted.\<close>

lemma map_page:
  assumes ok: "pt_ok 2 pt w ps" and a: "a < MAXVA" "aligned a"
    and free: "pte_at 2 (mem w) pt a AND PTE_V = 0"
  obtains (oom) w' n where "walk pt a True w = Ok (0, w')" "pt_grows 2 pt w ps w' n" "n < 2" "drop n ps = []"
      "\<forall>va. pte_at 2 (mem w') pt va = pte_at 2 (mem w) pt va"
  | (mapped) pte w1 w' n where "walk pt a True w = Ok (pte, w1)" "pte \<noteq> 0"
      "load64 (mem w1) pte AND PTE_V = 0" "w' = w1\<lparr>mem := store64 pte v (mem w1)\<rparr>"
      "pt_grows 2 pt w ps w' n" "n \<le> 2"
      "\<forall>va<MAXVA. pte_at 2 (mem w') pt va = (if PGROUNDDOWN va = a then v else pte_at 2 (mem w) pt va)"
proof -
  from walk_alloc [OF ok a(1)] obtain pte w1 n where w1: "walk pt a True w = Ok (pte, w1)"
    "pt_grows 2 pt w ps w1 n" "\<forall>va'. pte_at 2 (mem w1) pt va' = pte_at 2 (mem w) pt va'"
    "n \<le> 2" "if pte = 0 then n < 2 \<and> drop n ps = [] else leaf_at 2 (mem w1) pt a = Some pte" by blast
  show thesis
  proof (cases "pte = 0")
    case True
    then show thesis using w1 oom by simp
  next
    case False
    then have lf: "leaf_at 2 (mem w1) pt a = Some pte" using w1(5) by simp
    let ?w' = "w1\<lparr>mem := store64 pte v (mem w1)\<rparr>"
    have ok1: "pt_ok 2 pt w1 (drop n ps)" by (rule pt_grows_ok [OF ok w1(2)])
    have "pt_grows 2 pt w ps ?w' (n + 0)"
      by (rule pt_grows_trans [OF w1(2) leaf_store_grows [OF ok1 lf]])
    moreover have "load64 (mem w1) pte AND PTE_V = 0"
      using free w1(3) pte_at_leaf [of 2 "mem w1" pt a] lf by simp
    moreover have "pte_at 2 (mem ?w') pt va = (if PGROUNDDOWN va = a then v else pte_at 2 (mem w) pt va)"
      if va: "va < MAXVA" for va
    proof -
      have "pt_wf 2 (ld_end (ld w1)) (mem w1) pt" using ok1 by (simp add: pt_ok_def)
      from leaf_store [OF this lf, of v va] have "pte_at 2 (mem ?w') pt va =
          (if \<forall>k\<le>2. PX k va = PX k a then v else pte_at 2 (mem w1) pt va)" by simp
      also have "(\<forall>k\<le>2. PX k va = PX k a) \<longleftrightarrow> PGROUNDDOWN va = a"
        using same_page_PX [OF va a(1)] a(2) by (simp add: PGROUNDDOWN_aligned)
      finally show ?thesis using w1(3) by simp
    qed
    ultimately show thesis using w1(1,4) False mapped by simp
  qed
qed

text \<open>The entry that \<^verbatim>\<open>mappages\<close> installs, and the effect of mapping \<open>k\<close> pages from \<open>a\<close> on.\<close>

definition leaf_pte :: "u64 \<Rightarrow> u64 \<Rightarrow> u64" where
  "leaf_pte pa perm = PA2PTE pa OR perm OR PTE_V"

primrec map_run :: "nat \<Rightarrow> u64 \<Rightarrow> u64 \<Rightarrow> u64 \<Rightarrow> (u64 \<Rightarrow> u64) \<Rightarrow> u64 \<Rightarrow> u64" where
  "map_run 0 a pa perm f = f"
| "map_run (Suc k) a pa perm f =
     map_run k (a + PGSIZE) (pa + PGSIZE) perm (\<lambda>va. if PGROUNDDOWN va = a then leaf_pte pa perm else f va)"

lemma map_run_cong: "f va = g va \<Longrightarrow> map_run k a pa perm f va = map_run k a pa perm g va"
proof (induction k arbitrary: a pa f g)
  case (Suc k)
  show ?case unfolding map_run.simps by (rule Suc.IH) (simp add: Suc.prems)
qed simp

lemma map_run_other:
  assumes "\<And>i. i < k \<Longrightarrow> PGROUNDDOWN va \<noteq> a + of_nat (4096 * i)"
  shows "map_run k a pa perm f va = f va"
  using assms
proof (induction k arbitrary: a pa f)
  case (Suc k)
  have "PGROUNDDOWN va \<noteq> (a + PGSIZE) + of_nat (4096 * i)" if "i < k" for i
    using Suc.prems [of "Suc i"] that by (simp add: PGSIZE_def algebra_simps)
  moreover have "PGROUNDDOWN va \<noteq> a" using Suc.prems [of 0] by simp
  ultimately show ?case using Suc.IH by simp
qed simp

lemma map_run_in:
  assumes "i < k" "PGROUNDDOWN va = a + of_nat (4096 * i)" "4096 * k < 2 ^ 64"
  shows "map_run k a pa perm f va = leaf_pte (pa + of_nat (4096 * i)) perm"
  using assms
proof (induction k arbitrary: a pa f i)
  case (Suc k)
  show ?case
  proof (cases i)
    case 0
    have "PGROUNDDOWN va \<noteq> (a + PGSIZE) + of_nat (4096 * j)" if "j < k" for j
    proof
      assume "PGROUNDDOWN va = (a + PGSIZE) + of_nat (4096 * j)"
      with 0 Suc.prems(2) have "(of_nat (4096 * Suc j) :: u64) = 0" by (simp add: PGSIZE_def algebra_simps)
      moreover have "4096 * Suc j < 2 ^ 64" using that Suc.prems(3) by simp
      ultimately show False using unat_of_nat64 [of "4096 * Suc j"] by simp
    qed
    then show ?thesis using 0 Suc.prems(2) by (simp add: map_run_other)
  next
    case (Suc j)
    with Suc.IH [of j "a + PGSIZE" "pa + PGSIZE"] Suc.prems show ?thesis
      by (simp add: PGSIZE_def algebra_simps)
  qed
qed simp

lemma mappages_loop:
  assumes "pt_ok 2 pt w ps" "aligned a" "unat a + 4096 * Suc k \<le> unat MAXVA"
    and "lst = a + of_nat (4096 * k)"
    and "\<And>i. i \<le> k \<Longrightarrow> pte_at 2 (mem w) pt (a + of_nat (4096 * i)) AND PTE_V = 0"
  shows "\<exists>r w' n j. loop_res (mappages_step pt lst perm) (a, pa, w) = Ok (r, w') \<and>
    pt_grows 2 pt w ps w' n \<and> n \<le> 2 * Suc k \<and>
    (r = 0 \<and> j = Suc k \<or> r = -1 \<and> j \<le> k \<and> n < 2 * Suc k \<and> drop n ps = []) \<and>
    (\<forall>va<MAXVA. pte_at 2 (mem w') pt va = map_run j a pa perm (pte_at 2 (mem w) pt) va)"
  using assms
proof (induction k arbitrary: a pa w ps)
  case 0
  then have am: "a < MAXVA" and fr: "pte_at 2 (mem w) pt a AND PTE_V = 0"
    by (simp_all add: word_less_nat_alt)
  from 0(1) am 0(2) fr show ?case
  proof (cases rule: map_page [where v = "leaf_pte pa perm"])
    case (oom w' n)
    then show ?thesis by (subst loop_res_unfold) (intro exI [of _ "-1"] exI [of _ w'] exI [of _ n] exI [of _ 0], simp add: mappages_step_def)
  next
    case (mapped pte w1 w' n)
    then show ?thesis using 0(4)
      by (subst loop_res_unfold)
        (intro exI [of _ 0] exI [of _ w'] exI [of _ n] exI [of _ 1], simp add: mappages_step_def Let_def leaf_pte_def)
  qed
next
  case (Suc k)
  have am: "a < MAXVA" using Suc.prems(3) by (simp add: word_less_nat_alt)
  have fr: "pte_at 2 (mem w) pt a AND PTE_V = 0" using Suc.prems(5) [of 0] by simp
  have MV: "unat MAXVA = 2 ^ 38" by (simp add: MAXVA_def push_bit_eq_mult)
  have ua: "unat (a + PGSIZE) = unat a + 4096" using Suc.prems(3) MV by (simp add: unat_word_ariths)
  from Suc.prems(1) am Suc.prems(2) fr show ?case
  proof (cases rule: map_page [where v = "leaf_pte pa perm"])
    case (oom w' n)
    then show ?thesis by (subst loop_res_unfold) (intro exI [of _ "-1"] exI [of _ w'] exI [of _ n] exI [of _ 0], simp add: mappages_step_def)
  next
    case (mapped pte w1 w2 n)
    have ne: "a \<noteq> lst"
    proof
      assume "a = lst"
      then have "(of_nat (4096 * Suc k) :: u64) = 0" using Suc.prems(4) by simp
      moreover have "4096 * Suc k < 2 ^ 64" using Suc.prems(3) MV by simp
      ultimately show False using unat_of_nat64 [of "4096 * Suc k"] by simp
    qed
    have st: "loop_res (mappages_step pt lst perm) (a, pa, w) =
        loop_res (mappages_step pt lst perm) (a + PGSIZE, pa + PGSIZE, w2)"
      using mapped ne by (subst loop_res_unfold) (simp add: mappages_step_def Let_def leaf_pte_def)
    have ok2: "pt_ok 2 pt w2 (drop n ps)" by (rule pt_grows_ok [OF Suc.prems(1) mapped(5)])
    have fr2: "pte_at 2 (mem w2) pt (a + PGSIZE + of_nat (4096 * i)) AND PTE_V = 0" if "i \<le> k" for i
    proof -
      have eq: "a + PGSIZE + of_nat (4096 * i) = a + of_nat (4096 * Suc i)"
        by (simp add: PGSIZE_def algebra_simps)
      have u: "unat (a + of_nat (4096 * Suc i)) = unat a + 4096 * Suc i"
        using Suc.prems(3) MV that by (simp add: unat_word_ariths unat_of_nat)
      have lt: "a + of_nat (4096 * Suc i) < MAXVA"
        using Suc.prems(3) that by (simp only: word_less_nat_alt u) simp
      have "aligned (a + of_nat (4096 * Suc i))" using Suc.prems(2) by (simp only: aligned_iff u mod_mult_self2)
      then have "PGROUNDDOWN (a + of_nat (4096 * Suc i)) \<noteq> a"
        using u by (auto simp: PGROUNDDOWN_aligned word_unat_eq_iff)
      then have "pte_at 2 (mem w2) pt (a + of_nat (4096 * Suc i)) = pte_at 2 (mem w) pt (a + of_nat (4096 * Suc i))"
        using mapped(7) lt by (simp only: if_False)
      then show ?thesis unfolding eq using Suc.prems(5) [of "Suc i"] that by (simp only: Suc_le_mono)
    qed
    have "\<exists>r w' n' j. loop_res (mappages_step pt lst perm) (a + PGSIZE, pa + PGSIZE, w2) = Ok (r, w') \<and>
      pt_grows 2 pt w2 (drop n ps) w' n' \<and> n' \<le> 2 * Suc k \<and>
      (r = 0 \<and> j = Suc k \<or> r = -1 \<and> j \<le> k \<and> n' < 2 * Suc k \<and> drop n' (drop n ps) = []) \<and>
      (\<forall>va<MAXVA. pte_at 2 (mem w') pt va = map_run j (a + PGSIZE) (pa + PGSIZE) perm (pte_at 2 (mem w2) pt) va)"
      by (rule Suc.IH [OF ok2])
        (use Suc.prems(2-4) ua fr2 in \<open>simp_all add: aligned_iff PGSIZE_def algebra_simps\<close>)
    then obtain r w' n' j where r: "loop_res (mappages_step pt lst perm) (a + PGSIZE, pa + PGSIZE, w2) = Ok (r, w')"
      "pt_grows 2 pt w2 (drop n ps) w' n'" "n' \<le> 2 * Suc k"
      "r = 0 \<and> j = Suc k \<or> r = -1 \<and> j \<le> k \<and> n' < 2 * Suc k \<and> drop n' (drop n ps) = []"
      "\<forall>va<MAXVA. pte_at 2 (mem w') pt va = map_run j (a + PGSIZE) (pa + PGSIZE) perm (pte_at 2 (mem w2) pt) va"
      by blast
    have "pte_at 2 (mem w') pt va = map_run (Suc j) a pa perm (pte_at 2 (mem w) pt) va" if "va < MAXVA" for va
      using r(5) that mapped(7) by (simp cong: map_run_cong)
    with r(1,3,4) mapped(6) st pt_grows_trans [OF mapped(5) r(2)] show ?thesis
      by (intro exI [of _ r] exI [of _ w'] exI [of _ "n + n'"] exI [of _ "Suc j"]) (auto simp: add.commute)
  qed
qed

text \<open>What \<^verbatim>\<open>mappages\<close> does to the entries of a table: everything, or memory ran out on the way.\<close>

lemma mappages_spec:
  assumes "pt_ok 2 pt w ps" "aligned va" "0 < k" "unat va + 4096 * k \<le> unat MAXVA"
    and "\<And>i. i < k \<Longrightarrow> pte_at 2 (mem w) pt (va + of_nat (4096 * i)) AND PTE_V = 0"
  shows "\<exists>r w' n j. mappages pt va (of_nat (4096 * k)) pa perm w = Ok (r, w') \<and>
    pt_grows 2 pt w ps w' n \<and> n \<le> 2 * k \<and>
    (r = 0 \<and> j = k \<or> r = -1 \<and> j < k \<and> n < 2 * k \<and> drop n ps = []) \<and>
    (\<forall>x<MAXVA. pte_at 2 (mem w') pt x = map_run j va pa perm (pte_at 2 (mem w) pt) x)"
proof -
  obtain l where l: "k = Suc l" using assms(3) by (cases k) auto
  have MV: "unat MAXVA = 2 ^ 38" by (simp add: MAXVA_def push_bit_eq_mult)
  let ?sz = "of_nat (4096 * k) :: u64"
  have u: "unat ?sz = 4096 * k" using assms(4) MV by (intro unat_of_nat64) simp
  have c1: "va mod PGSIZE = 0" using assms(2) by (simp add: aligned_def)
  have c2: "?sz mod PGSIZE = 0" using u aligned_iff [of ?sz] by (simp only: aligned_def) simp
  have c3: "?sz \<noteq> 0" using u l by auto
  have c4: "va + ?sz - PGSIZE = va + of_nat (4096 * l)" by (simp add: l PGSIZE_def algebra_simps)
  have "mappages pt va ?sz pa perm w = loop_res (mappages_step pt (va + of_nat (4096 * l)) perm) (va, pa, w)"
    unfolding mappages_def c4 using c1 c2 c3 by simp
  moreover note mappages_loop [OF assms(1,2), of l _ perm pa, OF _ refl]
  ultimately show ?thesis using assms(4,5) l by (auto simp: less_Suc_eq_le)
qed

section \<open>Unmapping\<close>

lemma pte_at_cong: "(\<forall>k\<le>l. PX k va = PX k va') \<Longrightarrow> pte_at l m pt va = pte_at l m pt va'"
  by (induction l arbitrary: pt) auto

lemma PGROUNDDOWN_idem [simp]: "PGROUNDDOWN (PGROUNDDOWN a) = PGROUNDDOWN a"
  by (simp add: PGROUNDDOWN_aligned)

lemma PGROUNDDOWN_le: "PGROUNDDOWN a \<le> a"
  by (simp add: word_le_nat_alt unat_PGROUNDDOWN)

lemma PGROUNDDOWN_less_MAXVA [simp]: "va < MAXVA \<Longrightarrow> PGROUNDDOWN va < MAXVA"
  using PGROUNDDOWN_le by (rule le_less_trans)

lemma pte_at_page [simp]: "va < MAXVA \<Longrightarrow> pte_at 2 m pt (PGROUNDDOWN va) = pte_at 2 m pt va"
  by (rule pte_at_cong) (simp add: same_page_PX)

text \<open>The frames that the entries of \<open>k\<close> pages from \<open>va\<close> on point to.\<close>

primrec frames :: "nat \<Rightarrow> memory \<Rightarrow> u64 \<Rightarrow> u64 \<Rightarrow> u64 list" where
  "frames 0 m pt va = []"
| "frames (Suc k) m pt va =
     (if pte_at 2 m pt va AND PTE_V \<noteq> 0 then [PTE2PA (pte_at 2 m pt va)] else []) @ frames k m pt (va + PGSIZE)"

text \<open>Those frames can be freed: distinct pages of RAM, neither tables nor free already.\<close>

definition frames_ok :: "nat \<Rightarrow> u64 \<Rightarrow> u64 \<Rightarrow> world \<Rightarrow> u64 list \<Rightarrow> bool" where
  "frames_ok k pt va w ps \<longleftrightarrow> distinct (frames k (mem w) pt va) \<and>
     set (frames k (mem w) pt va) \<inter> (tables 2 (mem w) pt \<union> set ps) = {} \<and>
     (\<forall>f \<in> set (frames k (mem w) pt va). page_ok (ld_end (ld w)) f)"

lemma pte_clear:
  assumes "pt_ok 2 pt w ps" "a < MAXVA" "aligned a" "leaf_at 2 (mem w) pt a = Some pte"
  shows "pt_ok 2 pt (w\<lparr>mem := store64 pte 0 (mem w)\<rparr>) ps"
    "tables 2 (store64 pte 0 (mem w)) pt \<subseteq> tables 2 (mem w) pt"
    "va < MAXVA \<Longrightarrow> pte_at 2 (store64 pte 0 (mem w)) pt va = (if PGROUNDDOWN va = a then 0 else pte_at 2 (mem w) pt va)"
proof -
  have wf: "pt_wf 2 (ld_end (ld w)) (mem w) pt" using assms(1) by (simp add: pt_ok_def)
  show "pt_ok 2 pt (w\<lparr>mem := store64 pte 0 (mem w)\<rparr>) ps"
    using pt_grows_ok [OF assms(1) leaf_store_grows [OF assms(1,4)]] by simp
  show "tables 2 (store64 pte 0 (mem w)) pt \<subseteq> tables 2 (mem w) pt"
    using leaf_store [OF wf assms(4)] by blast
  show "pte_at 2 (store64 pte 0 (mem w)) pt va = (if PGROUNDDOWN va = a then 0 else pte_at 2 (mem w) pt va)"
    if "va < MAXVA"
    using leaf_store [OF wf assms(4), of 0 va] same_page_PX [OF that assms(2)] assms(3)
    by (simp add: PGROUNDDOWN_aligned)
qed

text \<open>Freeing a frame leaves the page table alone.\<close>

lemma kfree_frame:
  assumes "pt_ok 2 pt w ps" "page_ok (ld_end (ld w)) f" "f \<notin> set ps" "f \<notin> tables 2 (mem w) pt"
  shows "\<exists>w'. kfree f w = Ok w' \<and> mem_only w w' \<and> pt_ok 2 pt w' (f # ps) \<and>
    tables 2 (mem w') pt = tables 2 (mem w) pt \<and>
    (\<forall>va. pte_at 2 (mem w') pt va = pte_at 2 (mem w) pt va \<and> leaf_at 2 (mem w') pt va = leaf_at 2 (mem w) pt va)"
proof -
  have wf: "pt_wf 2 (ld_end (ld w)) (mem w) pt" using assms(1) by (simp add: pt_ok_def)
  from kfree_pool [of w ps f] assms obtain w' where w': "kfree f w = Ok w'" "kmem_pool w' (f # ps)" "mem_only w w'"
    "\<forall>a. page_of a \<noteq> page_of f \<longrightarrow> mem w' a = mem w a" by (auto simp: pt_ok_def)
  have "mem w' a = mem w a" if q: "q \<in> tables 2 (mem w) pt" "page_of a = page_of q" for a q
  proof -
    have "q \<noteq> f" using q(1) assms(4) by blast
    then show ?thesis using w'(4) q(2) page_ok_neq [OF tables_page_ok [OF wf q(1)] assms(2)] by simp
  qed
  then have fr: "tables 2 (mem w') pt = tables 2 (mem w) pt \<and> pt_wf 2 (ld_end (ld w)) (mem w') pt \<and>
      pte_at 2 (mem w') pt va = pte_at 2 (mem w) pt va \<and> leaf_at 2 (mem w') pt va = leaf_at 2 (mem w) pt va" for va
    by (rule pt_frame [OF wf])
  have "ld w' = ld w" by (rule mem_only_fields(2) [OF w'(3)])
  then have "pt_ok 2 pt w' (f # ps)" using fr w'(2) assms(1,4) by (simp add: pt_ok_def)
  with w' fr show ?thesis by blast
qed

lemma uvmunmap_page:
  assumes ok: "pt_ok 2 pt w ps" and a: "a < MAXVA" "aligned a" and fr: "frames_ok (Suc k) pt a w ps"
  shows "\<exists>w'. uvmunmap_step pt True (a, w) = Ok (a + PGSIZE, w') \<and> mem_only w w' \<and>
    pt_ok 2 pt w' (frames 1 (mem w) pt a @ ps) \<and> tables 2 (mem w') pt \<subseteq> tables 2 (mem w) pt \<and>
    (\<forall>va<MAXVA. pte_at 2 (mem w') pt va =
       (if PGROUNDDOWN va = a \<and> pte_at 2 (mem w) pt a AND PTE_V \<noteq> 0 then 0 else pte_at 2 (mem w) pt va))"
proof -
  have wf: "pt_wf 2 (ld_end (ld w)) (mem w) pt" using ok by (simp add: pt_ok_def)
  show ?thesis
  proof (cases "pte_at 2 (mem w) pt a AND PTE_V = 0")
    case True
    from wf a(1) have "uvmunmap_step pt True (a, w) = Ok (a + PGSIZE, w)"
      by (cases rule: walk_cases) (use True in \<open>auto simp: uvmunmap_step_def\<close>)
    with ok True show ?thesis by (intro exI [of _ w]) simp
  next
    case False
    then have ne: "pte_at 2 (mem w) pt a \<noteq> 0" by auto
    with wf a(1) obtain pte where pte: "walk pt a False w = Ok (pte, w)" "pte \<noteq> 0"
      "leaf_at 2 (mem w) pt a = Some pte" "load64 (mem w) pte = pte_at 2 (mem w) pt a"
      by (auto intro: walk_cases [OF wf a(1)])
    let ?f = "PTE2PA (pte_at 2 (mem w) pt a)"
    have f: "page_ok (ld_end (ld w)) ?f" "?f \<notin> set ps" "?f \<notin> tables 2 (mem w) pt"
      using fr False by (auto simp: frames_ok_def)
    from kfree_frame [OF ok f] obtain w1 where w1: "kfree ?f w = Ok w1" "mem_only w w1" "pt_ok 2 pt w1 (?f # ps)"
      "tables 2 (mem w1) pt = tables 2 (mem w) pt"
      "\<forall>va. pte_at 2 (mem w1) pt va = pte_at 2 (mem w) pt va \<and> leaf_at 2 (mem w1) pt va = leaf_at 2 (mem w) pt va"
      by blast
    then have lf: "leaf_at 2 (mem w1) pt a = Some pte" using pte(3) by simp
    let ?w = "w1\<lparr>mem := store64 pte 0 (mem w1)\<rparr>"
    note cl = pte_clear [OF w1(3) a lf]
    have "uvmunmap_step pt True (a, w) = Ok (a + PGSIZE, ?w)"
      using pte False w1(1) by (simp add: uvmunmap_step_def)
    moreover have "mem_only w ?w" by (rule mem_only_trans [OF w1(2) mem_only_mem])
    ultimately show ?thesis using cl False w1(4,5) by (intro exI [of _ ?w]) simp
  qed
qed

lemma frames_cong:
  assumes "\<And>i. i < k \<Longrightarrow> pte_at 2 m' pt (va + of_nat (4096 * i)) = pte_at 2 m pt (va + of_nat (4096 * i))"
  shows "frames k m' pt va = frames k m pt va"
  using assms
proof (induction k arbitrary: va)
  case (Suc k)
  have "frames k m' pt (va + PGSIZE) = frames k m pt (va + PGSIZE)"
  proof (rule Suc.IH)
    fix i assume "i < k"
    moreover have "va + PGSIZE + of_nat (4096 * i) = va + of_nat (4096 * Suc i)" by (simp add: PGSIZE_def)
    ultimately show "pte_at 2 m' pt (va + PGSIZE + of_nat (4096 * i)) = pte_at 2 m pt (va + PGSIZE + of_nat (4096 * i))"
      using Suc.prems [of "Suc i"] by (simp only:)
  qed
  with Suc.prems [of 0] show ?case by simp
qed simp

lemma page_seq:
  assumes "aligned a" "unat a + 4096 * k \<le> unat MAXVA" "i < k"
  shows "unat (a + of_nat (4096 * i)) = unat a + 4096 * i" "a + of_nat (4096 * i) < MAXVA"
    "PGROUNDDOWN (a + of_nat (4096 * i)) = a + of_nat (4096 * i)"
proof -
  have MV: "unat MAXVA = 2 ^ 38" by (simp add: MAXVA_def push_bit_eq_mult)
  show u: "unat (a + of_nat (4096 * i)) = unat a + 4096 * i"
    using assms MV by (simp add: unat_word_ariths unat_of_nat)
  show "a + of_nat (4096 * i) < MAXVA" using assms(2,3) by (simp only: word_less_nat_alt u)
  have "aligned (a + of_nat (4096 * i))" using assms(1) by (simp only: aligned_iff u mod_mult_self2)
  then show "PGROUNDDOWN (a + of_nat (4096 * i)) = a + of_nat (4096 * i)" by (rule PGROUNDDOWN_aligned)
qed

lemma uvmunmap_loop:
  assumes "pt_ok 2 pt w ps" "aligned a" "unat a + 4096 * k \<le> unat MAXVA" "frames_ok k pt a w ps"
  shows "\<exists>b w'. while_res (\<lambda>(x, w). x < a + of_nat (4096 * k)) (uvmunmap_step pt True) (a, w) = Ok (b, w') \<and>
    mem_only w w' \<and> pt_ok 2 pt w' (rev (frames k (mem w) pt a) @ ps) \<and>
    tables 2 (mem w') pt \<subseteq> tables 2 (mem w) pt \<and>
    (\<forall>va<MAXVA. pte_at 2 (mem w') pt va =
       (if (\<exists>i<k. PGROUNDDOWN va = a + of_nat (4096 * i)) \<and> pte_at 2 (mem w) pt va AND PTE_V \<noteq> 0 then 0
        else pte_at 2 (mem w) pt va))"
  using assms
proof (induction k arbitrary: a w ps)
  case 0
  then show ?case by (intro exI [of _ a] exI [of _ w]) simp
next
  case (Suc k)
  note seq = page_seq [OF Suc.prems(2,3)]
  let ?b = "a + PGSIZE"
  have b: "?b = a + of_nat (4096 * 1)" by (simp add: PGSIZE_def)
  have am: "a < MAXVA" using seq(2) [of 0] by simp
  have ub: "unat ?b = unat a + 4096"
    using Suc.prems(3) by (simp add: MAXVA_def push_bit_eq_mult unat_word_ariths)
  have al: "aligned ?b" using Suc.prems(2) ub by (simp add: aligned_iff)
  from uvmunmap_page [OF Suc.prems(1) am Suc.prems(2,4)] obtain w1 where
    w1: "uvmunmap_step pt True (a, w) = Ok (?b, w1)" "mem_only w w1"
    "pt_ok 2 pt w1 (frames 1 (mem w) pt a @ ps)" "tables 2 (mem w1) pt \<subseteq> tables 2 (mem w) pt"
    "\<forall>va<MAXVA. pte_at 2 (mem w1) pt va =
       (if PGROUNDDOWN va = a \<and> pte_at 2 (mem w) pt a AND PTE_V \<noteq> 0 then 0 else pte_at 2 (mem w) pt va)" by blast
  have later: "PGROUNDDOWN (?b + of_nat (4096 * i)) \<noteq> a" "?b + of_nat (4096 * i) < MAXVA" if "i < k" for i
  proof -
    have eq: "?b + of_nat (4096 * i) = a + of_nat (4096 * Suc i)" by (simp add: PGSIZE_def)
    show "?b + of_nat (4096 * i) < MAXVA" unfolding eq using seq(2) [of "Suc i"] that by (simp only: Suc_less_eq)
    show "PGROUNDDOWN (?b + of_nat (4096 * i)) \<noteq> a"
      unfolding eq using seq(1,3) [of "Suc i"] that by (auto simp: word_unat_eq_iff)
  qed
  then have fk: "frames k (mem w1) pt ?b = frames k (mem w) pt ?b"
    using w1(5) by (intro frames_cong) simp
  have ld: "ld w1 = ld w" by (rule mem_only_fields(2) [OF w1(2)])
  have "frames_ok k pt ?b w1 (frames 1 (mem w) pt a @ ps)"
    using Suc.prems(4) fk ld w1(4) unfolding frames_ok_def by auto
  from Suc.IH [OF w1(3) al _ this] Suc.prems(3) ub obtain c w' where
    w': "while_res (\<lambda>(x, w). x < ?b + of_nat (4096 * k)) (uvmunmap_step pt True) (?b, w1) = Ok (c, w')"
    "mem_only w1 w'" "pt_ok 2 pt w' (rev (frames k (mem w1) pt ?b) @ frames 1 (mem w) pt a @ ps)"
    "tables 2 (mem w') pt \<subseteq> tables 2 (mem w1) pt"
    "\<forall>va<MAXVA. pte_at 2 (mem w') pt va =
       (if (\<exists>i<k. PGROUNDDOWN va = ?b + of_nat (4096 * i)) \<and> pte_at 2 (mem w1) pt va AND PTE_V \<noteq> 0 then 0
        else pte_at 2 (mem w1) pt va)" by auto
  have e: "?b + of_nat (4096 * k) = a + of_nat (4096 * Suc k)" by (simp add: PGSIZE_def)
  have "unat (a + of_nat (4096 * Suc k)) = unat a + 4096 * Suc k"
    using Suc.prems(3) by (simp add: MAXVA_def push_bit_eq_mult unat_word_ariths unat_of_nat)
  then have "a < a + of_nat (4096 * Suc k)" by (simp only: word_less_nat_alt) simp
  then have lp: "while_res (\<lambda>(x, w). x < a + of_nat (4096 * Suc k)) (uvmunmap_step pt True) (a, w) = Ok (c, w')"
    using w1(1) w'(1) unfolding e by (subst while_res_unfold) simp
  have pool: "rev (frames (Suc k) (mem w) pt a) = rev (frames k (mem w1) pt ?b) @ frames 1 (mem w) pt a"
    using fk by simp
  have "pte_at 2 (mem w') pt va =
       (if (\<exists>i<Suc k. PGROUNDDOWN va = a + of_nat (4096 * i)) \<and> pte_at 2 (mem w) pt va AND PTE_V \<noteq> 0 then 0
        else pte_at 2 (mem w) pt va)" if va: "va < MAXVA" for va
  proof -
    have ex: "(\<exists>i<Suc k. PGROUNDDOWN va = a + of_nat (4096 * i)) \<longleftrightarrow>
        PGROUNDDOWN va = a \<or> (\<exists>i<k. PGROUNDDOWN va = ?b + of_nat (4096 * i))"
      by (subst Ex_less_Suc2) (simp add: PGSIZE_def algebra_simps)
    show ?thesis
    proof (cases "PGROUNDDOWN va = a")
      case True
      then have "pte_at 2 (mem w) pt va = pte_at 2 (mem w) pt a" using pte_at_page [OF va] by simp
      moreover have "\<not> (\<exists>i<k. PGROUNDDOWN va = ?b + of_nat (4096 * i))"
        using True later(1) by (metis PGROUNDDOWN_idem)
      ultimately show ?thesis using w'(5) w1(5) va True unfolding ex by simp
    next
      case False
      then have "pte_at 2 (mem w1) pt va = pte_at 2 (mem w) pt va" using w1(5) va by simp
      with False show ?thesis unfolding ex w'(5) [rule_format, OF va] by auto
    qed
  qed
  then show ?case using lp w' w1 mem_only_trans [OF w1(2) w'(2)] unfolding pool
    by (intro exI [of _ c] exI [of _ w']) auto
qed

section \<open>Properties\<close>

lemma or_less_1024:
  assumes "x < 1024" "y < 1024"
  shows "x OR y < (1024 :: u64)"
proof -
  have "take_bit 10 x = x" "take_bit 10 y = y" using assms by (simp_all add: take_bit_eq_mod mod_word_less)
  then have eq: "x OR y = take_bit 10 (x OR y)" by (metis take_bit_or)
  have "unat (take_bit 10 (x OR y)) < 2 ^ 10"
    unfolding unsigned_take_bit_eq by (rule take_bit_nat_less_exp)
  then show ?thesis unfolding word_less_nat_alt by (subst eq) simp
qed

lemma leaf_pte_bits:
  assumes "page_ok e pa" "perm < 1024"
  shows "leaf_pte pa perm AND PTE_V \<noteq> 0" "perm AND PTE_U \<noteq> 0 \<Longrightarrow> leaf_pte pa perm AND PTE_U \<noteq> 0"
    "perm AND PTE_W \<noteq> 0 \<Longrightarrow> leaf_pte pa perm AND PTE_W \<noteq> 0" "PTE2PA (leaf_pte pa perm) = pa"
proof -
  have b: "PTE_V = 2 ^ 0" "PTE_U = 2 ^ 4" "PTE_W = 2 ^ 2" by (simp_all add: PTE_V_def PTE_U_def PTE_W_def)
  show "leaf_pte pa perm AND PTE_V \<noteq> 0"
    unfolding b(1) and_exp_eq_0_iff_not_bit by (simp add: leaf_pte_def PTE_V_def bit_simps)
  show "perm AND PTE_U \<noteq> 0 \<Longrightarrow> leaf_pte pa perm AND PTE_U \<noteq> 0"
    unfolding b(2) and_exp_eq_0_iff_not_bit by (simp add: leaf_pte_def bit_simps)
  show "perm AND PTE_W \<noteq> 0 \<Longrightarrow> leaf_pte pa perm AND PTE_W \<noteq> 0"
    unfolding b(3) and_exp_eq_0_iff_not_bit by (simp add: leaf_pte_def bit_simps)
  show "PTE2PA (leaf_pte pa perm) = pa"
    using assms PTE2PA_PA2PTE [of pa "perm OR PTE_V"] or_less_1024 [of perm PTE_V]
    by (simp add: leaf_pte_def page_ok_def PTE_V_def or.assoc)
qed

lemma mappages_page:
  assumes "pt_ok 2 pt w ps" "2 \<le> length ps" "aligned va" "va < MAXVA"
    and "pte_at 2 (mem w) pt va AND PTE_V = 0"
  shows "\<exists>w' n. mappages pt va PGSIZE pa perm w = Ok (0, w') \<and> pt_grows 2 pt w ps w' n \<and>
    (\<forall>x<MAXVA. pte_at 2 (mem w') pt x = (if PGROUNDDOWN x = va then leaf_pte pa perm else pte_at 2 (mem w) pt x))"
proof -
  obtain k where k: "unat va = 4096 * k" using assms(3) by (auto simp: aligned_iff)
  have "unat MAXVA = 4096 * 2 ^ 26" by (simp add: MAXVA_def push_bit_eq_mult)
  moreover have "unat va < unat MAXVA" using assms(4) by (simp add: word_less_nat_alt)
  ultimately have "unat va + 4096 * 1 \<le> unat MAXVA" using k by simp
  with mappages_spec [OF assms(1,3), of 1 pa perm] assms(5) obtain r w' n j where
    w': "mappages pt va PGSIZE pa perm w = Ok (r, w')" "pt_grows 2 pt w ps w' n"
    "r = 0 \<and> j = 1 \<or> r = -1 \<and> n < 2 \<and> drop n ps = []"
    "\<forall>x<MAXVA. pte_at 2 (mem w') pt x = map_run j va pa perm (pte_at 2 (mem w) pt) x"
    by (auto simp: PGSIZE_def)
  moreover have "r = 0" "j = 1" using w'(3) assms(2) by auto
  ultimately show ?thesis by auto
qed

text \<open>
  C5: \<^verbatim>\<open>mappages\<close> and \<^verbatim>\<open>walkaddr\<close> agree: with two free pages for table pages, mapping an unmapped page
  \<open>va\<close> to a frame \<open>pa\<close> for the user succeeds, afterwards \<^verbatim>\<open>walkaddr\<close> of any address in the page returns
  \<open>pa\<close>, and of any other address what it returned before.
\<close>

theorem mappages_walkaddr:
  assumes "pt_ok 2 pt w ps" "2 \<le> length ps" "aligned va" "va < MAXVA"
    and "pte_at 2 (mem w) pt va AND PTE_V = 0"
    and "page_ok (ld_end (ld w)) pa" "perm < 1024" "perm AND PTE_U \<noteq> 0"
  shows "\<exists>w'. mappages pt va PGSIZE pa perm w = Ok (0, w') \<and>
    (\<forall>x<MAXVA. \<exists>q. walkaddr pt x w = Ok (q, w) \<and>
       walkaddr pt x w' = Ok (if PGROUNDDOWN x = va then pa else q, w'))"
proof -
  from mappages_page [OF assms(1-5)] obtain w' n where
    w': "mappages pt va PGSIZE pa perm w = Ok (0, w')" "pt_grows 2 pt w ps w' n"
    and e: "\<forall>x<MAXVA. pte_at 2 (mem w') pt x = (if PGROUNDDOWN x = va then leaf_pte pa perm else pte_at 2 (mem w) pt x)"
    by blast
  have wf: "pt_wf 2 (ld_end (ld w)) (mem w) pt" and wf': "pt_wf 2 (ld_end (ld w)) (mem w') pt"
    using assms(1) w'(2) by (simp_all add: pt_ok_def pt_grows_def)
  have V: "leaf_pte pa perm AND PTE_V \<noteq> 0" "leaf_pte pa perm AND PTE_U \<noteq> 0" "PTE2PA (leaf_pte pa perm) = pa"
    using leaf_pte_bits [OF assms(6,7)] assms(8) by blast+
  have "walkaddr pt x w' = Ok (if PGROUNDDOWN x = va then pa else
      (if user_pte (mem w) pt x then PTE2PA (pte_at 2 (mem w) pt x) else 0), w')" if "x < MAXVA" for x
    using that V by (simp add: walkaddr_eq [OF wf'] user_pte_def e)
  moreover have "walkaddr pt x w = Ok (if user_pte (mem w) pt x then PTE2PA (pte_at 2 (mem w) pt x) else 0, w)"
    if "x < MAXVA" for x using that by (simp add: walkaddr_eq [OF wf])
  ultimately show ?thesis using w'(1) by blast
qed

text \<open>An empty page table next to two free pages.\<close>

definition table_world :: world where
  "table_world = (boot_world small_image (store64 0x87FFE000 0x87FFD000 (\<lambda>_. 0)) (\<lambda>_ _. None))
     \<lparr>freelist := 0x87FFE000\<rparr>"

lemma table_world_end: "ld_end (ld table_world) = 0x80023000"
  by (simp add: table_world_def boot_world_def small_image_def)

lemma table_world_ok:
  "pt_ok 2 0x87FFF000 table_world [0x87FFE000, 0x87FFD000]" "pte_at 2 (mem table_world) 0x87FFF000 va = 0"
  "tables 2 (mem table_world) 0x87FFF000 = {0x87FFF000}"
proof -
  let ?m = "store64 0x87FFE000 0x87FFD000 (\<lambda>_. 0)"
  have ld: "ld_end (ld table_world) = 0x80023000" "mem table_world = ?m"
    by (simp_all add: table_world_end) (simp add: table_world_def boot_world_def)
  have pg: "page_ok 0x80023000 0x87FFF000" "page_ok 0x80023000 0x87FFE000" "page_ok 0x80023000 0x87FFD000"
    "page_ok 0x80023000 0x87FFC000"
    by (simp_all add: page_ok_def aligned_def PGSIZE_def PHYSTOP_def KERNBASE_def)
  have z: "?m a = 0" if "page_of a = page_of 0x87FFF000" for a
    using that pg(2) by (intro trans [OF store64_page_apply]) (simp_all add: page_ok_def page_of_def)
  note zt = zero_table [of _ _ ?m, OF pg(1) z]
  show "pte_at 2 (mem table_world) 0x87FFF000 va = 0" "tables 2 (mem table_world) 0x87FFF000 = {0x87FFF000}"
    using zt ld(2) by simp_all
  have "load64 ?m 0x87FFD000 = load64 (\<lambda>_. 0) 0x87FFD000"
    by (rule load64_store64_disjoint) simp_all
  then have "kmem_pool table_world [0x87FFE000, 0x87FFD000]"
    using pg ld by (simp add: kmem_pool_def kmem_inv_def kmem_ready_def)
      (simp add: table_world_def boot_world_def boot_sync_def sync_defs)
  with zt ld show "pt_ok 2 0x87FFF000 table_world [0x87FFE000, 0x87FFD000]" by (simp add: pt_ok_def)
qed

theorem mappages_walkaddr_witness:
  "\<exists>w'. mappages 0x87FFF000 0x4000 PGSIZE 0x87FFC000 (PTE_R OR PTE_W OR PTE_U) table_world = Ok (0, w') \<and>
     walkaddr 0x87FFF000 0x4123 w' = Ok (0x87FFC000, w') \<and> walkaddr 0x87FFF000 0x5000 w' = Ok (0, w')"
proof -
  have "\<exists>w'. mappages 0x87FFF000 0x4000 PGSIZE 0x87FFC000 (PTE_R OR PTE_W OR PTE_U) table_world = Ok (0, w') \<and>
    (\<forall>x<MAXVA. \<exists>q. walkaddr 0x87FFF000 x table_world = Ok (q, table_world) \<and>
       walkaddr 0x87FFF000 x w' = Ok (if PGROUNDDOWN x = 0x4000 then 0x87FFC000 else q, w'))"
    by (rule mappages_walkaddr [OF table_world_ok(1)])
      (simp_all add: table_world_ok(2) aligned_def PGSIZE_def MAXVA_def push_bit_eq_mult page_ok_def
        PHYSTOP_def KERNBASE_def PTE_R_def PTE_W_def PTE_U_def table_world_end)
  then obtain w' where w': "mappages 0x87FFF000 0x4000 PGSIZE 0x87FFC000 (PTE_R OR PTE_W OR PTE_U) table_world = Ok (0, w')"
    and wa: "\<forall>x<MAXVA. \<exists>q. walkaddr 0x87FFF000 x table_world = Ok (q, table_world) \<and>
       walkaddr 0x87FFF000 x w' = Ok (if PGROUNDDOWN x = 0x4000 then 0x87FFC000 else q, w')" by blast
  have lt: "(0x4123 :: u64) < MAXVA" "(0x5000 :: u64) < MAXVA"
    and pg: "PGROUNDDOWN 0x4123 = 0x4000" "PGROUNDDOWN 0x5000 \<noteq> 0x4000"
    by (simp_all add: word_unat_eq_iff unat_PGROUNDDOWN MAXVA_def push_bit_eq_mult)
  have "walkaddr 0x87FFF000 0x5000 table_world = Ok (0, table_world)"
    using table_world_ok by (simp add: walkaddr_eq [of "ld_end (ld table_world)"] pt_ok_def user_pte_def)
  then have "walkaddr 0x87FFF000 0x5000 w' = Ok (0, w')" using wa [rule_format, OF lt(2)] pg(2) by auto
  with w' wa [rule_format, OF lt(1)] pg(1) show ?thesis by auto
qed

text \<open>A page table that maps the page \<^verbatim>\<open>0x4000\<close> for the user.\<close>

definition user_world :: world where
  "user_world = (case mappages 0x87FFF000 0x4000 PGSIZE 0x87FFC000 (PTE_R OR PTE_W OR PTE_U) table_world of
     Ok (r, w) \<Rightarrow> w | _ \<Rightarrow> table_world)"

lemma user_world_ok:
  "\<exists>ps. pt_ok 2 0x87FFF000 user_world ps \<and> set ps \<subseteq> {0x87FFE000, 0x87FFD000}"
  "tables 2 (mem user_world) 0x87FFF000 \<subseteq> {0x87FFF000, 0x87FFE000, 0x87FFD000}"
  "x < MAXVA \<Longrightarrow> pte_at 2 (mem user_world) 0x87FFF000 x =
     (if PGROUNDDOWN x = 0x4000 then leaf_pte 0x87FFC000 (PTE_R OR PTE_W OR PTE_U) else 0)"
  "ld_end (ld user_world) = 0x80023000"
proof -
  let ?p = "PTE_R OR PTE_W OR PTE_U" and ?r = "0x87FFF000 :: u64"
  have "\<exists>w' n. mappages ?r 0x4000 PGSIZE 0x87FFC000 ?p table_world = Ok (0, w') \<and>
      pt_grows 2 ?r table_world [0x87FFE000, 0x87FFD000] w' n \<and>
      (\<forall>x<MAXVA. pte_at 2 (mem w') ?r x =
         (if PGROUNDDOWN x = 0x4000 then leaf_pte 0x87FFC000 ?p else pte_at 2 (mem table_world) ?r x))"
    by (rule mappages_page [OF table_world_ok(1)])
      (simp_all add: table_world_ok(2) aligned_def PGSIZE_def MAXVA_def push_bit_eq_mult)
  then obtain n where g: "pt_grows 2 ?r table_world [0x87FFE000, 0x87FFD000] user_world n"
    and e: "\<forall>x<MAXVA. pte_at 2 (mem user_world) ?r x =
         (if PGROUNDDOWN x = 0x4000 then leaf_pte 0x87FFC000 ?p else pte_at 2 (mem table_world) ?r x)"
    by (auto simp: user_world_def)
  show "\<exists>ps. pt_ok 2 ?r user_world ps \<and> set ps \<subseteq> {0x87FFE000, 0x87FFD000}"
    using pt_grows_ok [OF table_world_ok(1) g] set_drop_subset [of n "[0x87FFE000, 0x87FFD000]"]
    by (intro exI [of _ "drop n [0x87FFE000, 0x87FFD000]"]) simp
  show "tables 2 (mem user_world) ?r \<subseteq> {?r, 0x87FFE000, 0x87FFD000}"
    using g table_world_ok(3) set_take_subset [of n "[0x87FFE000, 0x87FFD000]"] by (auto simp: pt_grows_def)
  show "x < MAXVA \<Longrightarrow> pte_at 2 (mem user_world) ?r x =
     (if PGROUNDDOWN x = 0x4000 then leaf_pte 0x87FFC000 ?p else 0)"
    using e table_world_ok(2) by simp
  have "ld user_world = ld table_world" using g mem_only_fields(2) unfolding pt_grows_def by blast
  then show "ld_end (ld user_world) = 0x80023000" using table_world_end by simp
qed

text \<open>
  C7: \<^verbatim>\<open>uvmunmap\<close> with \<^verbatim>\<open>do_free\<close> removes the mappings of its range and no other, and returns exactly
  the frames that were mapped there to the page allocator; pages of the range that were never
  mapped are skipped.
\<close>

theorem uvmunmap_frees:
  assumes "pt_ok 2 pt w ps" "aligned va" "unat va + 4096 * k \<le> unat MAXVA" "frames_ok k pt va w ps"
  shows "\<exists>w'. uvmunmap pt va (of_nat k) True w = Ok w' \<and>
    pt_ok 2 pt w' (rev (frames k (mem w) pt va) @ ps) \<and>
    (\<forall>x<MAXVA. if \<exists>i<k. PGROUNDDOWN x = va + of_nat (4096 * i) then pte_at 2 (mem w') pt x AND PTE_V = 0
       else pte_at 2 (mem w') pt x = pte_at 2 (mem w) pt x)"
proof -
  from uvmunmap_loop [OF assms] obtain b w' where
    w': "while_res (\<lambda>(x, w). x < va + of_nat (4096 * k)) (uvmunmap_step pt True) (va, w) = Ok (b, w')"
    "pt_ok 2 pt w' (rev (frames k (mem w) pt va) @ ps)"
    "\<forall>x<MAXVA. pte_at 2 (mem w') pt x =
       (if (\<exists>i<k. PGROUNDDOWN x = va + of_nat (4096 * i)) \<and> pte_at 2 (mem w) pt x AND PTE_V \<noteq> 0 then 0
        else pte_at 2 (mem w) pt x)" by blast
  have "of_nat k * PGSIZE = of_nat (4096 * k)" by (simp add: PGSIZE_def)
  then have "uvmunmap pt va (of_nat k) True w = Ok w'"
    using w'(1) assms(2) by (simp only: uvmunmap_def aligned_def) simp
  with w'(2,3) show ?thesis by (intro exI [of _ w']) auto
qed

theorem uvmunmap_frees_witness:
  "\<exists>w' ps. uvmunmap 0x87FFF000 0x4000 1 True user_world = Ok w' \<and> kmem_pool w' ps \<and> 0x87FFC000 \<in> set ps \<and>
     pte_at 2 (mem w') 0x87FFF000 0x4000 AND PTE_V = 0"
proof -
  let ?r = "0x87FFF000 :: u64" and ?p = "PTE_R OR PTE_W OR PTE_U"
  obtain ps where ps: "pt_ok 2 ?r user_world ps" "set ps \<subseteq> {0x87FFE000, 0x87FFD000}"
    using user_world_ok(1) by blast
  have lt: "(0x4000 :: u64) < MAXVA" "PGROUNDDOWN 0x4000 = 0x4000"
    by (simp_all add: MAXVA_def push_bit_eq_mult word_unat_eq_iff unat_PGROUNDDOWN)
  have pg: "page_ok 0x80023000 0x87FFC000" "?p < 1024"
    by (simp_all add: page_ok_def aligned_def PGSIZE_def PHYSTOP_def KERNBASE_def PTE_R_def PTE_W_def PTE_U_def)
  have e: "pte_at 2 (mem user_world) ?r 0x4000 = leaf_pte 0x87FFC000 ?p" using user_world_ok(3) [OF lt(1)] lt(2) by simp
  have fr: "frames 1 (mem user_world) ?r 0x4000 = [0x87FFC000]"
    using leaf_pte_bits [OF pg] e by simp
  have "frames_ok 1 ?r 0x4000 user_world ps"
    using fr ps(2) user_world_ok(2,4) pg(1) unfolding frames_ok_def by auto
  then have "\<exists>w'. uvmunmap ?r 0x4000 (of_nat 1) True user_world = Ok w' \<and>
    pt_ok 2 ?r w' (rev (frames 1 (mem user_world) ?r 0x4000) @ ps) \<and>
    (\<forall>x<MAXVA. if \<exists>i<1. PGROUNDDOWN x = 0x4000 + of_nat (4096 * i) then pte_at 2 (mem w') ?r x AND PTE_V = 0
       else pte_at 2 (mem w') ?r x = pte_at 2 (mem user_world) ?r x)"
    by (intro uvmunmap_frees [OF ps(1)]) (simp_all add: aligned_def PGSIZE_def MAXVA_def push_bit_eq_mult)
  then obtain w' where w': "uvmunmap ?r 0x4000 1 True user_world = Ok w'"
    "pt_ok 2 ?r w' (rev (frames 1 (mem user_world) ?r 0x4000) @ ps)"
    "pte_at 2 (mem w') ?r 0x4000 AND PTE_V = 0"
    using lt by (auto dest!: spec [of _ "0x4000"])
  then have "kmem_pool w' (0x87FFC000 # ps)" unfolding fr by (simp add: pt_ok_def)
  with w' show ?thesis by (intro exI [of _ w'] exI [of _ "0x87FFC000 # ps"]) simp
qed

end
