(* ===== verification/Xv6_Usermem.thy ===== *)
theory Xv6_Usermem
  imports Xv6_Pagetable
begin

text \<open>
  User memory as seen through a page table (\<open>user_byte\<close>), and the copies between it and the kernel:
  \<^verbatim>\<open>copyin\<close> returns the bytes of a mapped range, \<^verbatim>\<open>copyout\<close> stores into a writable range and changes
  no other byte of memory.
\<close>

unbundle bit_operations_syntax

definition user_pa :: "memory \<Rightarrow> u64 \<Rightarrow> u64 \<Rightarrow> u64" where
  "user_pa m pt va = PTE2PA (pte_at 2 m pt va) + (va - PGROUNDDOWN va)"

definition user_byte :: "memory \<Rightarrow> u64 \<Rightarrow> u64 \<Rightarrow> u8" where
  "user_byte m pt va = m (user_pa m pt va)"

lemma PGROUNDDOWN_add:
  assumes "i < 4096 - unat a mod 4096"
  shows "PGROUNDDOWN (a + of_nat i) = PGROUNDDOWN a"
proof -
  define j r where "j = unat a div 4096" and "r = unat a mod 4096"
  have a: "unat a = 4096 * j + r" and i: "r + i < 4096" using assms by (simp_all add: j_def r_def)
  have "j < 2 ^ 52" unfolding j_def using unat_lt64 [of a] by (simp add: div_less_iff_less_mult)
  then have "unat a + i < 2 ^ 64" using i a by simp
  then have "unat (a + of_nat i) = 4096 * j + (r + i)" using a by (simp add: unat_word_ariths unat_of_nat)
  then have "unat (a + of_nat i) div 4096 = j" using i by simp
  then show ?thesis by (simp add: word_unat_eq_iff unat_PGROUNDDOWN j_def)
qed

lemma page_offset_eq: "a - PGROUNDDOWN a = of_nat (unat a mod 4096)"
  by (simp add: word_unat_eq_iff page_offset unat_of_nat64)

lemma next_page: "PGROUNDDOWN a + PGSIZE = a + of_nat (4096 - unat a mod 4096)"
proof -
  have "unat a mod 4096 \<le> 4096" by simp
  then have "(of_nat (4096 - unat a mod 4096) :: u64) = 4096 - of_nat (unat a mod 4096)"
    by (subst of_nat_diff) simp_all
  then show ?thesis unfolding page_offset_eq [symmetric] by (simp add: PGSIZE_def)
qed

text \<open>The user bytes of a range are readable through \<open>pt\<close>.\<close>

definition user_range :: "memory \<Rightarrow> u64 \<Rightarrow> u64 \<Rightarrow> nat \<Rightarrow> bool" where
  "user_range m pt va len \<longleftrightarrow> unat va + len \<le> unat MAXVA \<and>
     (\<forall>i<len. user_pte m pt (va + of_nat i) \<and> PTE2PA (pte_at 2 m pt (va + of_nat i)) \<noteq> 0)"

lemma user_range_first:
  assumes "user_range m pt va len" "0 < len"
  shows "va < MAXVA" "user_pte m pt va" "PTE2PA (pte_at 2 m pt va) \<noteq> 0"
  using assms unfolding user_range_def by (auto simp: word_less_nat_alt dest: spec [of _ 0])

lemma user_range_drop:
  assumes "user_range m pt va len" "n \<le> len"
  shows "user_range m pt (va + of_nat n) (len - n)"
proof -
  have MV: "unat MAXVA = 2 ^ 38" by (simp add: MAXVA_def push_bit_eq_mult)
  have "unat (va + of_nat n) = unat va + n"
    using assms MV by (simp add: user_range_def unat_word_ariths unat_of_nat)
  moreover have "user_pte m pt (va + of_nat n + of_nat i) \<and> PTE2PA (pte_at 2 m pt (va + of_nat n + of_nat i)) \<noteq> 0"
    if "i < len - n" for i
  proof -
    have "va + of_nat n + of_nat i = va + of_nat (n + i)" by simp
    moreover have "n + i < len" using that by simp
    ultimately show ?thesis using assms(1) unfolding user_range_def by presburger
  qed
  ultimately show ?thesis using assms unfolding user_range_def by simp
qed

text \<open>Inside one page user addresses and physical addresses advance together.\<close>

lemma user_pa_add:
  assumes "i < 4096 - unat va mod 4096" "va < MAXVA" "va + of_nat i < MAXVA"
  shows "user_pa m pt (va + of_nat i) = user_pa m pt va + of_nat i"
proof -
  have "pte_at 2 m pt (va + of_nat i) = pte_at 2 m pt va"
    using pte_at_page [OF assms(2)] pte_at_page [OF assms(3)] PGROUNDDOWN_add [OF assms(1)] by metis
  then show ?thesis by (simp add: user_pa_def PGROUNDDOWN_add [OF assms(1)])
qed

lemma user_pa_run:
  assumes "user_range m pt va len" "n \<le> len" "n \<le> 4096 - unat va mod 4096" "i < n"
  shows "user_pa m pt (va + of_nat i) = user_pa m pt va + of_nat i"
proof (rule user_pa_add)
  have MV: "unat MAXVA = 2 ^ 38" by (simp add: MAXVA_def push_bit_eq_mult)
  have u: "unat (va + of_nat i) = unat va + i"
    using assms MV by (simp add: user_range_def unat_word_ariths unat_of_nat)
  show "va < MAXVA" using assms by (simp add: user_range_def word_less_nat_alt)
  show "va + of_nat i < MAXVA" using assms u by (simp add: user_range_def word_less_nat_alt)
qed (use assms in simp)

lemma region_map: "region m a n = map (\<lambda>i. m (a + of_nat i)) [0..<n]"
  by (rule nth_equalityI) (simp_all add: nth_region)

lemma map_upt_split: "n \<le> len \<Longrightarrow> map f [0..<n] @ map (\<lambda>i. f (n + i)) [0..<len - n] = map f [0..<len]"
  by (rule nth_equalityI) (auto simp: nth_append)

lemma copyin_spec:
  assumes "pt_wf 2 e (mem w) pt" "user_range (mem w) pt srcva len"
  shows "copyin pt srcva len w = Ok (0, map (\<lambda>i. user_byte (mem w) pt (srcva + of_nat i)) [0..<len], w)"
  using assms
proof (induction len arbitrary: srcva rule: less_induct)
  case (less len)
  show ?case
  proof (cases "len = 0")
    case True
    then show ?thesis by (simp add: copyin.simps)
  next
    case False
    then have f: "srcva < MAXVA" "user_pte (mem w) pt srcva" "PTE2PA (pte_at 2 (mem w) pt srcva) \<noteq> 0"
      using user_range_first [OF less.prems(2)] by auto
    let ?n = "min (4096 - unat srcva mod 4096) len"
    have n: "0 < ?n" "?n \<le> len" using False by auto
    have wa: "walkaddr pt (PGROUNDDOWN srcva) w = Ok (PTE2PA (pte_at 2 (mem w) pt srcva), w)"
      using f by (simp add: walkaddr_eq [OF less.prems(1)] user_pte_def)
    have reg: "region (mem w) (PTE2PA (pte_at 2 (mem w) pt srcva) + (srcva - PGROUNDDOWN srcva)) ?n =
        map (\<lambda>i. user_byte (mem w) pt (srcva + of_nat i)) [0..<?n]"
      unfolding region_map user_pa_def [symmetric] user_byte_def
      using user_pa_run [OF less.prems(2) n(2)] by simp
    have IH: "copyin pt (PGROUNDDOWN srcva + PGSIZE) (len - ?n) w =
        Ok (0, map (\<lambda>i. user_byte (mem w) pt (srcva + of_nat (?n + i))) [0..<len - ?n], w)"
    proof (cases "?n = len")
      case True
      then show ?thesis by (simp add: copyin.simps)
    next
      case False
      then have nn: "?n = 4096 - unat srcva mod 4096" by (simp add: min_def split: if_splits)
      have "len - ?n < len" using n False by linarith
      from less.IH [OF this less.prems(1) user_range_drop [OF less.prems(2) n(2)]]
      show ?thesis by (simp only: nn next_page) (simp add: algebra_simps)
    qed
    show ?thesis
      using wa False f(3) IH reg map_upt_split [OF n(2), of "\<lambda>i. user_byte (mem w) pt (srcva + of_nat i)"]
      by (subst copyin.simps) (simp add: Let_def page_offset)
  qed
qed

section \<open>Writing user memory\<close>

text \<open>
  A user range the kernel may write: mapped, writable, outside the table pages, and no two of its
  addresses share a physical byte.
\<close>

definition user_writable :: "memory \<Rightarrow> u64 \<Rightarrow> u64 \<Rightarrow> nat \<Rightarrow> bool" where
  "user_writable m pt va len \<longleftrightarrow> user_range m pt va len \<and>
     (\<forall>i<len. pte_at 2 m pt (va + of_nat i) AND PTE_W \<noteq> 0 \<and>
        page_of (user_pa m pt (va + of_nat i)) \<notin> page_of ` tables 2 m pt) \<and>
     inj_on (\<lambda>i. user_pa m pt (va + of_nat i)) {..<len}"

lemma user_writable_drop:
  assumes "user_writable m pt va len" "n \<le> len"
  shows "user_writable m pt (va + of_nat n) (len - n)"
proof -
  have eq: "va + of_nat n + of_nat i = va + of_nat (n + i)" for i by simp
  have "inj_on (\<lambda>i. user_pa m pt (va + of_nat n + of_nat i)) {..<len - n}"
  proof (rule inj_onI)
    fix i j assume "i \<in> {..<len - n}" "j \<in> {..<len - n}"
      and e: "user_pa m pt (va + of_nat n + of_nat i) = user_pa m pt (va + of_nat n + of_nat j)"
    then have "n + i \<in> {..<len}" "n + j \<in> {..<len}" by auto
    with assms(1) e have "n + i = n + j" unfolding eq user_writable_def by (blast dest: inj_onD)
    then show "i = j" by simp
  qed
  moreover have "\<forall>i<len - n. pte_at 2 m pt (va + of_nat n + of_nat i) AND PTE_W \<noteq> 0 \<and>
        page_of (user_pa m pt (va + of_nat n + of_nat i)) \<notin> page_of ` tables 2 m pt"
    unfolding eq using assms unfolding user_writable_def by (simp del: of_nat_add)
  ultimately show ?thesis
    using assms user_range_drop unfolding user_writable_def by blast
qed

lemma user_writable_cong:
  assumes "\<And>va. pte_at 2 m' pt va = pte_at 2 m pt va" "tables 2 m' pt = tables 2 m pt"
  shows "user_writable m' pt va len = user_writable m pt va len" "user_pa m' pt va = user_pa m pt va"
  using assms by (simp_all add: user_writable_def user_range_def user_pte_def user_pa_def)

text \<open>One page's worth of \<^verbatim>\<open>copyout\<close>.\<close>

lemma store_run:
  assumes wf: "pt_wf 2 e m pt" and wr: "user_writable m pt va len"
    and n: "n \<le> len" "n \<le> 4096 - unat va mod 4096" "length bs = n"
    and m1: "m1 = store_bytes (user_pa m pt va) bs m"
  shows "\<And>x. pte_at 2 m1 pt x = pte_at 2 m pt x" "tables 2 m1 pt = tables 2 m pt" "pt_wf 2 e m1 pt"
    "\<And>i. i < n \<Longrightarrow> m1 (user_pa m pt (va + of_nat i)) = bs ! i"
    "\<And>x. x \<notin> (\<lambda>i. user_pa m pt (va + of_nat i)) ` {..<n} \<Longrightarrow> m1 x = m x"
proof -
  have rg: "user_range m pt va len" using wr by (simp add: user_writable_def)
  have run: "user_pa m pt (va + of_nat i) = user_pa m pt va + of_nat i" if "i < n" for i
    using user_pa_run [OF rg n(1,2) that] .
  have n64: "n < 2 ^ 64" using n(2) by simp
  have ap: "m1 x = (if unat (x - user_pa m pt va) < n then bs ! unat (x - user_pa m pt va) else m x)" for x
    unfolding m1 using store_bytes_apply [of bs "user_pa m pt va" m x] n64 n(3) by simp
  show "m1 (user_pa m pt (va + of_nat i)) = bs ! i" if "i < n" for i
    using ap run [OF that] that n64 by (simp add: unat_of_nat64)
  show out: "m1 x = m x" if "x \<notin> (\<lambda>i. user_pa m pt (va + of_nat i)) ` {..<n}" for x
  proof -
    have "\<not> unat (x - user_pa m pt va) < n"
    proof
      assume l: "unat (x - user_pa m pt va) < n"
      then have "x = user_pa m pt (va + of_nat (unat (x - user_pa m pt va)))" using run [OF l] by simp
      with l that show False by blast
    qed
    with ap show ?thesis by simp
  qed
  have fr: "m1 a = m a" if "q \<in> tables 2 m pt" "page_of a = page_of q" for a q
  proof (rule out)
    show "a \<notin> (\<lambda>i. user_pa m pt (va + of_nat i)) ` {..<n}"
    proof
      assume "a \<in> (\<lambda>i. user_pa m pt (va + of_nat i)) ` {..<n}"
      then obtain i where i: "i < n" "a = user_pa m pt (va + of_nat i)" by blast
      then have "i < len" using n(1) by simp
      with i(2) have "page_of a \<notin> page_of ` tables 2 m pt" using wr unfolding user_writable_def by blast
      with that show False by blast
    qed
  qed
  have f: "tables 2 m1 pt = tables 2 m pt \<and> pt_wf 2 e m1 pt \<and> pte_at 2 m1 pt x = pte_at 2 m pt x \<and>
      leaf_at 2 m1 pt x = leaf_at 2 m pt x" for x
    by (rule pt_frame [OF wf]) (rule fr)
  show "pte_at 2 m1 pt x = pte_at 2 m pt x" for x using f by blast
  show "tables 2 m1 pt = tables 2 m pt" "pt_wf 2 e m1 pt" using f by blast+
qed

lemma copyout_page:
  assumes "pt_wf 2 e (mem w) pt" "user_writable (mem w) pt dstva (length src)" "src \<noteq> []"
    and n: "n = min (4096 - unat dstva mod 4096) (length src)"
  shows "copyout pt dstva src w = copyout pt (PGROUNDDOWN dstva + PGSIZE) (drop n src)
    (w\<lparr>mem := store_bytes (user_pa (mem w) pt dstva) (take n src) (mem w)\<rparr>)"
proof -
  let ?m = "mem w"
  have rg: "user_range ?m pt dstva (length src)" using assms(2) by (simp add: user_writable_def)
  have f: "dstva < MAXVA" "user_pte ?m pt dstva" "PTE2PA (pte_at 2 ?m pt dstva) \<noteq> 0"
    using user_range_first [OF rg] assms(3) by auto
  have "pte_at 2 ?m pt (dstva + of_nat 0) AND PTE_W \<noteq> 0"
    using assms(2,3) unfolding user_writable_def by blast
  then have wr: "pte_at 2 ?m pt dstva AND PTE_W \<noteq> 0" by simp
  have wa: "walkaddr pt (PGROUNDDOWN dstva) w = Ok (PTE2PA (pte_at 2 ?m pt dstva), w)"
    using f by (simp add: walkaddr_eq [OF assms(1)] user_pte_def)
  have "pte_at 2 ?m pt dstva \<noteq> 0" using wr by auto
  then obtain a where lf: "walk pt (PGROUNDDOWN dstva) False w = Ok (a, w)" "a \<noteq> 0"
    "load64 ?m a = pte_at 2 ?m pt dstva"
    using f(1) by (auto intro: walk_cases [OF assms(1) PGROUNDDOWN_less_MAXVA [OF f(1)]])
  have lt: "MAXVA \<le> PGROUNDDOWN dstva \<longleftrightarrow> False" using PGROUNDDOWN_less_MAXVA [OF f(1)] by simp
  show ?thesis
    using assms(3) n f(3) wa lf wr
    by (subst copyout.simps) (simp add: Let_def page_offset user_pa_def lt)
qed

text \<open>\<open>m'\<close> is \<open>m\<close> with the bytes \<open>src\<close> at the user addresses from \<open>va\<close> on, and the same page table.\<close>

definition user_written :: "u64 \<Rightarrow> u64 \<Rightarrow> u64 \<Rightarrow> u8 list \<Rightarrow> memory \<Rightarrow> memory \<Rightarrow> bool" where
  "user_written e pt va src m m' \<longleftrightarrow>
     (\<forall>x. pte_at 2 m' pt x = pte_at 2 m pt x) \<and> tables 2 m' pt = tables 2 m pt \<and> pt_wf 2 e m' pt \<and>
     (\<forall>i<length src. m' (user_pa m pt (va + of_nat i)) = src ! i) \<and>
     (\<forall>x. x \<notin> (\<lambda>i. user_pa m pt (va + of_nat i)) ` {..<length src} \<longrightarrow> m' x = m x)"

lemma user_written_append:
  assumes "inj_on (\<lambda>i. user_pa m pt (va + of_nat i)) {..<length xs + length ys}"
    and "user_written e pt va xs m m1" "user_written e pt (va + of_nat (length xs)) ys m1 m2"
  shows "user_written e pt va (xs @ ys) m m2"
proof -
  let ?u = "\<lambda>i. user_pa m pt (va + of_nat i)" and ?n = "length xs"
  have u1: "user_pa m1 pt (va + of_nat ?n + of_nat i) = ?u (?n + i)" for i
    using assms(2) by (simp add: user_written_def user_pa_def add.assoc)
  have new: "m2 (?u (?n + i)) = ys ! i" if "i < length ys" for i
    using assms(3) that unfolding user_written_def u1 by blast
  have old: "m2 x = m1 x" if "x \<notin> (\<lambda>i. ?u (?n + i)) ` {..<length ys}" for x
    using assms(3) that unfolding user_written_def u1 by blast
  have "m2 (?u i) = (xs @ ys) ! i" if i: "i < length (xs @ ys)" for i
  proof (cases "i < ?n")
    case True
    have "?u i \<notin> (\<lambda>k. ?u (?n + k)) ` {..<length ys}"
    proof
      assume "?u i \<in> (\<lambda>k. ?u (?n + k)) ` {..<length ys}"
      then obtain k where k: "k < length ys" "?u i = ?u (?n + k)" by blast
      have "i = ?n + k" by (rule inj_onD [OF assms(1), of i "?n + k"]) (use k i in auto)
      with True show False by simp
    qed
    with old assms(2) True show ?thesis by (simp add: user_written_def nth_append)
  next
    case False
    then show ?thesis using new [of "i - ?n"] i by (simp add: nth_append)
  qed
  moreover have "m2 x = m x" if "x \<notin> ?u ` {..<length (xs @ ys)}" for x
  proof -
    have "?u ` {..<?n} \<union> (\<lambda>i. ?u (?n + i)) ` {..<length ys} \<subseteq> ?u ` {..<length (xs @ ys)}"
    proof (intro Un_least image_subsetI)
      fix k assume "k \<in> {..<?n}"
      then show "?u k \<in> ?u ` {..<length (xs @ ys)}" by (intro imageI) simp
    next
      fix k assume "k \<in> {..<length ys}"
      then have "?n + k \<in> {..<length (xs @ ys)}" by simp
      then show "?u (?n + k) \<in> ?u ` {..<length (xs @ ys)}" by (rule imageI)
    qed
    with that have "x \<notin> ?u ` {..<?n}" "x \<notin> (\<lambda>i. ?u (?n + i)) ` {..<length ys}" by blast+
    then show ?thesis using old assms(2) unfolding user_written_def by metis
  qed
  ultimately show ?thesis using assms(2,3) unfolding user_written_def by simp
qed

lemma copyout_spec:
  assumes "pt_wf 2 e (mem w) pt" "user_writable (mem w) pt dstva (length src)"
  shows "\<exists>m. copyout pt dstva src w = Ok (0, w\<lparr>mem := m\<rparr>) \<and> user_written e pt dstva src (mem w) m"
  using assms
proof (induction "length src" arbitrary: src dstva w rule: less_induct)
  case less
  show ?case
  proof (cases "src = []")
    case True
    then show ?thesis using less.prems by (intro exI [of _ "mem w"]) (simp add: copyout.simps user_written_def)
  next
    case False
    define n where "n = min (4096 - unat dstva mod 4096) (length src)"
    let ?m1 = "store_bytes (user_pa (mem w) pt dstva) (take n src) (mem w)"
    have n: "0 < n" "n \<le> length src" "n \<le> 4096 - unat dstva mod 4096" "length (take n src) = n"
      using False by (auto simp: n_def)
    note st = store_run [OF less.prems n(2-4) refl]
    have w1: "user_written e pt dstva (take n src) (mem w) ?m1"
      using st n(4) by (simp add: user_written_def)
    have wr1: "user_writable ?m1 pt (dstva + of_nat n) (length (drop n src))"
      using user_writable_drop [OF less.prems(2) n(2)] user_writable_cong(1) [OF st(1,2)] by simp
    obtain m where m: "copyout pt (PGROUNDDOWN dstva + PGSIZE) (drop n src) (w\<lparr>mem := ?m1\<rparr>) = Ok (0, w\<lparr>mem := m\<rparr>)"
      "user_written e pt (dstva + of_nat n) (drop n src) ?m1 m"
    proof (cases "n = length src")
      case True
      then show ?thesis using that [of ?m1] st(3) by (simp add: copyout.simps user_written_def)
    next
      case False
      then have nn: "PGROUNDDOWN dstva + PGSIZE = dstva + of_nat n"
        unfolding next_page by (simp add: n_def min_def split: if_splits)
      have "length (drop n src) < length src" using n(1,2) by simp
      from less.hyps [OF this, of "w\<lparr>mem := ?m1\<rparr>" "dstva + of_nat n"] st(3) wr1 that
      show ?thesis unfolding nn by auto
    qed
    have "inj_on (\<lambda>i. user_pa (mem w) pt (dstva + of_nat i)) {..<length (take n src) + length (drop n src)}"
      using less.prems(2) n(2) by (simp add: user_writable_def)
    from user_written_append [OF this w1] m n(4) copyout_page [OF less.prems False n_def]
    show ?thesis by (intro exI [of _ m]) simp
  qed
qed

section \<open>Round trip\<close>

text \<open>
  C6: \<^verbatim>\<open>copyout\<close> to a mapped writable user range succeeds, \<^verbatim>\<open>copyin\<close> from the same range then returns
  the bytes that were written, and no byte of physical memory outside the range changes.
\<close>

theorem copyout_copyin:
  assumes "pt_wf 2 e (mem w) pt" "user_writable (mem w) pt va (length src)"
  shows "\<exists>w'. copyout pt va src w = Ok (0, w') \<and> copyin pt va (length src) w' = Ok (0, src, w') \<and>
    (\<forall>x. x \<notin> (\<lambda>i. user_pa (mem w) pt (va + of_nat i)) ` {..<length src} \<longrightarrow> mem w' x = mem w x)"
proof -
  from copyout_spec [OF assms] obtain m where m: "copyout pt va src w = Ok (0, w\<lparr>mem := m\<rparr>)"
    "user_written e pt va src (mem w) m" by blast
  let ?w = "w\<lparr>mem := m\<rparr>"
  have pa: "user_pa m pt x = user_pa (mem w) pt x" for x
    using m(2) by (simp add: user_written_def user_pa_def)
  have "user_range m pt va (length src)"
    using assms(2) m(2) by (simp add: user_writable_def user_range_def user_written_def user_pte_def)
  then have "copyin pt va (length src) ?w = Ok (0, map (\<lambda>i. user_byte m pt (va + of_nat i)) [0..<length src], ?w)"
    using m(2) copyin_spec [of e ?w pt va "length src"] by (simp add: user_written_def)
  moreover have "map (\<lambda>i. user_byte m pt (va + of_nat i)) [0..<length src] = src"
    using m(2) by (intro nth_equalityI) (simp_all add: user_written_def user_byte_def pa)
  ultimately show ?thesis using m by (intro exI [of _ ?w]) (simp add: user_written_def)
qed

lemma user_world_writable: "user_writable (mem user_world) 0x87FFF000 0x4010 5"
proof -
  let ?r = "0x87FFF000 :: u64" and ?m = "mem user_world" and ?p = "PTE_R OR PTE_W OR PTE_U"
  have pg: "page_ok 0x80023000 0x87FFC000" "?p < 1024" "?p AND PTE_U \<noteq> 0" "?p AND PTE_W \<noteq> 0"
    by (simp_all add: page_ok_def aligned_def PGSIZE_def PHYSTOP_def KERNBASE_def PTE_R_def PTE_W_def PTE_U_def)
  note lp = leaf_pte_bits [OF pg(1,2)]
  have b: "PGROUNDDOWN 0x4010 = 0x4000" by (simp add: word_unat_eq_iff unat_PGROUNDDOWN)
  have i: "PGROUNDDOWN (0x4010 + of_nat i) = 0x4000" "(0x4010 :: u64) + of_nat i < MAXVA" if "i < 5" for i
  proof -
    show "PGROUNDDOWN (0x4010 + of_nat i) = 0x4000" using PGROUNDDOWN_add [of i "0x4010"] that b by simp
    show "(0x4010 :: u64) + of_nat i < MAXVA"
      using that by (simp add: word_less_nat_alt MAXVA_def push_bit_eq_mult unat_word_ariths unat_of_nat)
  qed
  have e: "pte_at 2 ?m ?r (0x4010 + of_nat i) = leaf_pte 0x87FFC000 ?p" if "i < 5" for i
    using user_world_ok(3) [OF i(2) [OF that]] i(1) [OF that] by simp
  have pa: "user_pa ?m ?r (0x4010 + of_nat i) = 0x87FFC010 + of_nat i" if "i < 5" for i
    using e [OF that] i(1) [OF that] lp(4) by (simp add: user_pa_def)
  have "page_of (0x87FFC010 + of_nat i) = page_of 0x87FFC000" if "i < 5" for i
    using that by (simp add: page_of_def unat_word_ariths unat_of_nat)
  then have out: "page_of (0x87FFC010 + of_nat i) \<notin> page_of ` tables 2 ?m ?r" if "i < 5" for i
    using that user_world_ok(2) by (auto simp: page_of_def)
  have inj: "inj_on (\<lambda>i. user_pa ?m ?r (0x4010 + of_nat i)) {..<5}"
  proof (rule inj_onI)
    fix i j :: nat
    assume ij: "i \<in> {..<5}" "j \<in> {..<5}"
      and "user_pa ?m ?r (0x4010 + of_nat i) = user_pa ?m ?r (0x4010 + of_nat j)"
    then have "unat (of_nat i :: u64) = unat (of_nat j :: u64)" by (simp add: pa)
    with ij show "i = j" by (simp add: unat_of_nat)
  qed
  have "user_range ?m ?r 0x4010 5"
    using e lp(1,4) lp(2) [OF pg(3)] by (simp add: user_range_def user_pte_def MAXVA_def push_bit_eq_mult)
  with inj out show ?thesis using e pa lp(3) [OF pg(4)] by (simp add: user_writable_def)
qed

theorem copyout_copyin_witness:
  "\<exists>w'. copyout 0x87FFF000 0x4010 [104, 101, 108, 108, 111] user_world = Ok (0, w') \<and>
     copyin 0x87FFF000 0x4010 5 w' = Ok (0, [104, 101, 108, 108, 111], w')"
proof -
  obtain ps where "pt_ok 2 0x87FFF000 user_world ps" using user_world_ok(1) by blast
  then have "pt_wf 2 (ld_end (ld user_world)) (mem user_world) 0x87FFF000" by (simp add: pt_ok_def)
  moreover have len: "length [104, 101, 108, 108, 111 :: u8] = 5" by simp
  ultimately show ?thesis
    using copyout_copyin [of "ld_end (ld user_world)" user_world "0x87FFF000" "0x4010" "[104, 101, 108, 108, 111]"]
      user_world_writable unfolding len by blast
qed

end
