(* ===== verification/Xv6_Printf.thy ===== *)
theory Xv6_Printf
  imports Xv6_Usermem
begin

text \<open>
  Kernel output: the polled half of \<^verbatim>\<open>kernel/uart.c\<close> (\<open>uartinit\<close>, \<open>uartputc_sync\<close>), \<open>consputc\<close> of
  \<^verbatim>\<open>kernel/console.c\<close>, and \<^verbatim>\<open>kernel/printf.c\<close>. Bytes leave through the transmit register of the UART,
  so what has been printed is what the access history of that device says was written to it.
\<close>

unbundle bit_operations_syntax

section \<open>The UART\<close>

definition RHR :: u32 where "RHR = 0"
definition THR :: u32 where "THR = 0"
definition IER :: u32 where "IER = 1"
definition FCR :: u32 where "FCR = 2"
definition ISR :: u32 where "ISR = 2"
definition LCR :: u32 where "LCR = 3"
definition LSR :: u32 where "LSR = 5"
definition LSR_RX_READY :: u8 where "LSR_RX_READY = 1"
definition LSR_TX_IDLE :: u8 where "LSR_TX_IDLE = 0x20"

definition ReadReg :: "u32 \<Rightarrow> world \<Rightarrow> u8 \<times> world" where
  "ReadReg r w = (let (v, d) = io_get r (uart w) in (v, w\<lparr>uart := d\<rparr>))"

definition WriteReg :: "u32 \<Rightarrow> u8 \<Rightarrow> world \<Rightarrow> world" where
  "WriteReg r v w = w\<lparr>uart := io_put r v (uart w)\<rparr>"

definition uartinit :: "world \<Rightarrow> world" where
  "uartinit w =
     (let w = WriteReg IER 0 w;
          w = WriteReg LCR 0x80 w;
          w = WriteReg 0 3 w;
          w = WriteReg 1 0 w;
          w = WriteReg LCR 3 w;
          w = WriteReg FCR (1 OR 6) w;
          w = WriteReg IER (2 OR 1) w
      in initlock Tx_lock ''uart'' w)"

definition lift_sync :: "(sync \<Rightarrow> sync res) \<Rightarrow> world \<Rightarrow> world res" where
  "lift_sync f w = bnd (f (sync w)) (\<lambda>s. Ok (w\<lparr>sync := s\<rparr>))"

text \<open>The wait for \<^verbatim>\<open>LSR_TX_IDLE\<close>: every poll is an access, so the device decides when it ends.\<close>

definition uart_poll :: "world \<Rightarrow> (world, world) ctl res" where
  "uart_poll w = (let (v, w) = ReadReg LSR w
                  in Ok (if v AND LSR_TX_IDLE = 0 then Next w else Done w))"

definition uartputc_sync :: "u8 \<Rightarrow> world \<Rightarrow> world res" where
  "uartputc_sync c w =
     (let w = (if \<not> panicking w then w\<lparr>sync := push_off (sync w)\<rparr> else w)
      in if panicked w then Diverge
         else bnd (loop_res uart_poll w) (\<lambda>w.
              let w = WriteReg THR c w
              in if \<not> panicking w then lift_sync pop_off w else Ok w))"

definition BACKSPACE :: int where "BACKSPACE = 0x100"

definition consputc :: "int \<Rightarrow> world \<Rightarrow> world res" where
  "consputc c w =
     (if c = BACKSPACE
      then bnd (uartputc_sync 8 w) (\<lambda>w. bnd (uartputc_sync 32 w) (uartputc_sync 8))
      else uartputc_sync (word_of_int c) w)"

section \<open>printf\<close>

definition digits :: "u8 list" where
  "digits = map of_char ''0123456789abcdef''"

text \<open>
  The digit loop: \<open>buf\<close> is \<^verbatim>\<open>buf[0 .. i-1]\<close>. C's \<^verbatim>\<open>do ... while\<close> runs its body before the test.
\<close>

definition printint_step :: "u64 \<Rightarrow> u8 list \<times> u64 \<Rightarrow> (u8 list, u8 list \<times> u64) ctl res" where
  "printint_step base = (\<lambda>(buf, x).
     let buf = buf @ [digits ! unat (x mod base)]; x = x div base
     in Ok (if x \<noteq> 0 then Next (buf, x) else Done buf))"

definition printint_buf :: "u64 \<Rightarrow> u64 \<Rightarrow> bool \<Rightarrow> u8 list res" where
  "printint_buf xx base sign =
     (let neg = (sign \<and> sint xx < 0); x = (if neg then - xx else xx)
      in bnd (loop_res (printint_step base) ([], x)) (\<lambda>buf.
         Ok (if neg then buf @ [of_char (CHR ''-'')] else buf)))"

definition printint :: "u64 \<Rightarrow> u64 \<Rightarrow> bool \<Rightarrow> world \<Rightarrow> world res" where
  "printint xx base sign w =
     bnd (printint_buf xx base sign) (\<lambda>buf. foreach (\<lambda>c. consputc (uint c)) (rev buf) w)"

definition printptr :: "u64 \<Rightarrow> world \<Rightarrow> world res" where
  "printptr x w =
     bnd (consputc 48 w) (\<lambda>w.
     bnd (consputc 120 w) (\<lambda>w.
     foreach (\<lambda>i. consputc (uint (digits ! unat (drop_bit 60 (push_bit (4 * i) x))))) [0..<16] w))"

text \<open>
  The arguments of a call: a register value, or a string (\<open>None\<close> the null pointer). A call whose
  arguments do not match its format is undefined in C; the model stops there.
\<close>

datatype va = VWord u64 | VStr "u8 list option"

type_synonym va_list = "va list"

fun va_word :: "va_list \<Rightarrow> (u64 \<times> va_list) res" where
  "va_word (VWord x # ap) = Ok (x, ap)"
| "va_word _ = Panic ''undefined''"

fun va_str :: "va_list \<Rightarrow> (u8 list option \<times> va_list) res" where
  "va_str (VStr s # ap) = Ok (s, ap)"
| "va_str _ = Panic ''undefined''"

definition va_int :: "u64 \<Rightarrow> u64" where
  "va_int x = scast (ucast x :: u32)"

definition va_uint :: "u64 \<Rightarrow> u64" where
  "va_uint x = ucast (ucast x :: u32)"

text \<open>
  What one conversion does: \<open>rest\<close> is the format after the percent sign. The result is how many
  further characters of the format it uses, or \<open>None\<close> where the C code breaks out of the loop.
\<close>

definition printf_conv :: "string \<Rightarrow> va_list \<Rightarrow> world \<Rightarrow> (nat option \<times> va_list \<times> world) res" where
  "printf_conv rest ap w =
     (let c0 = (case rest of c # _ \<Rightarrow> c | [] \<Rightarrow> CHR 0x00);
          c1 = (case rest of _ # c # _ \<Rightarrow> c | _ \<Rightarrow> CHR 0x00);
          c2 = (case rest of _ # _ # c # _ \<Rightarrow> c | _ \<Rightarrow> CHR 0x00);
          num = (\<lambda>used conv base sign. bnd (va_word ap) (\<lambda>(x, ap).
                   bnd (printint (conv x) base sign w) (\<lambda>w. Ok (Some used, ap, w))))
      in if c0 = CHR ''d'' then num 1 va_int 10 True
         else if c0 = CHR ''l'' \<and> c1 = CHR ''d'' then num 2 id 10 True
         else if c0 = CHR ''l'' \<and> c1 = CHR ''l'' \<and> c2 = CHR ''d'' then num 3 id 10 True
         else if c0 = CHR ''u'' then num 1 va_uint 10 False
         else if c0 = CHR ''l'' \<and> c1 = CHR ''u'' then num 2 id 10 False
         else if c0 = CHR ''l'' \<and> c1 = CHR ''l'' \<and> c2 = CHR ''u'' then num 3 id 10 False
         else if c0 = CHR ''x'' then num 1 va_uint 16 False
         else if c0 = CHR ''l'' \<and> c1 = CHR ''x'' then num 2 id 16 False
         else if c0 = CHR ''l'' \<and> c1 = CHR ''l'' \<and> c2 = CHR ''x'' then num 3 id 16 False
         else if c0 = CHR ''p'' then
           bnd (va_word ap) (\<lambda>(x, ap). bnd (printptr x w) (\<lambda>w. Ok (Some 1, ap, w)))
         else if c0 = CHR ''c'' then
           bnd (va_word ap) (\<lambda>(x, ap).
           bnd (consputc (sint (ucast x :: u32)) w) (\<lambda>w. Ok (Some 1, ap, w)))
         else if c0 = CHR ''s'' then
           bnd (va_str ap) (\<lambda>(s, ap).
           let s = (case s of None \<Rightarrow> map of_char ''(null)'' | Some s \<Rightarrow> cstring s)
           in bnd (foreach (\<lambda>c. consputc (uint c)) s w) (\<lambda>w. Ok (Some 1, ap, w)))
         else if c0 = CHR ''%'' then bnd (consputc 37 w) (\<lambda>w. Ok (Some 1, ap, w))
         else if c0 = CHR 0x00 then Ok (None, ap, w)
         else bnd (consputc 37 w) (\<lambda>w. bnd (consputc (of_char c0) w) (\<lambda>w. Ok (Some 1, ap, w))))"

function printf_loop :: "string \<Rightarrow> va_list \<Rightarrow> world \<Rightarrow> world res" where
  "printf_loop fmt ap w =
     (case fmt of
        [] \<Rightarrow> Ok w
      | cx # rest \<Rightarrow>
          if cx \<noteq> CHR ''%'' then bnd (consputc (of_char cx) w) (printf_loop rest ap)
          else bnd (printf_conv rest ap w) (\<lambda>(used, ap, w).
               case used of None \<Rightarrow> Ok w | Some k \<Rightarrow> printf_loop (drop k rest) ap w))"
  by pat_completeness auto
termination
  by (relation "measure (\<lambda>(fmt, ap, w). length fmt)") auto

declare printf_loop.simps [simp del]

definition printf :: "string \<Rightarrow> va_list \<Rightarrow> world \<Rightarrow> world res" where
  "printf fmt ap w =
     bnd (if \<not> panicking w then acquire Pr_lock w else Ok w) (\<lambda>w.
     bnd (printf_loop fmt ap w) (\<lambda>w.
     if \<not> panicking w then release Pr_lock w else Ok w))"

text \<open>
  The state in which \<^verbatim>\<open>panic(s)\<close> spins for ever; the caller's result is \<open>Panic s\<close>.
\<close>

definition panic :: "string \<Rightarrow> world \<Rightarrow> world res" where
  "panic s w =
     (let w = w\<lparr>panicking := True\<rparr>
      in bnd (printf ''panic: '' [] w) (\<lambda>w.
         bnd (printf (''%s'' @ [CHR 0x0A]) [VStr (Some (map of_char s))] w) (\<lambda>w.
         Ok (w\<lparr>panicked := True\<rparr>))))"

definition printfinit :: "world \<Rightarrow> world" where
  "printfinit w = initlock Pr_lock ''pr'' w"

section \<open>Numbers\<close>

text \<open>The notation of a number in base \<open>b\<close>: no superfluous zeros, at least one digit, a minus sign where it is negative.\<close>

definition digit_char :: "nat \<Rightarrow> u8" where
  "digit_char d = (if d < 10 then of_nat (48 + d) else of_nat (87 + d))"

function nat_text :: "nat \<Rightarrow> nat \<Rightarrow> u8 list" where
  "nat_text b n = (if b < 2 \<or> n < b then [digit_char n] else nat_text b (n div b) @ [digit_char (n mod b)])"
  by auto
termination
  by (relation "measure snd") auto

declare nat_text.simps [simp del]

definition number_text :: "nat \<Rightarrow> int \<Rightarrow> u8 list" where
  "number_text b n = (if n < 0 then 45 # nat_text b (nat (- n)) else nat_text b (nat n))"

lemma digit_table: "list_all (\<lambda>d. digits ! d = digit_char d) [0..<16]"
  by code_simp

lemma digit_of: "d < 16 \<Longrightarrow> digits ! d = digit_char d"
  using digit_table by (simp add: list_all_iff)

lemma nat_text_nonempty: "nat_text b n \<noteq> []"
  by (subst nat_text.simps) simp

lemma nat_text_length: "2 \<le> b \<Longrightarrow> b ^ (length (nat_text b n) - 1) \<le> max 1 n"
proof (induction b n rule: nat_text.induct)
  case (1 b n)
  show ?case
  proof (cases "n < b")
    case True
    then show ?thesis by (subst nat_text.simps) simp
  next
    case False
    then have IH: "b ^ (length (nat_text b (n div b)) - 1) \<le> max 1 (n div b)" and pos: "0 < n div b"
      using 1 by (auto simp: div_greater_zero_iff)
    have "nat_text b n = nat_text b (n div b) @ [digit_char (n mod b)]" using False "1.prems" by (subst nat_text.simps) simp
    then have "b ^ (length (nat_text b n) - 1) = b * b ^ (length (nat_text b (n div b)) - 1)"
      using nat_text_nonempty [of b "n div b"] by (cases "nat_text b (n div b)") auto
    also have "\<dots> \<le> b * (n div b)" using IH pos by simp
    also have "\<dots> \<le> n" by simp
    finally show ?thesis by simp
  qed
qed

text \<open>The digit loop, least significant digit first, on top of the digits \<open>buf\<close> already there.\<close>

lemma printint_loop:
  assumes "2 \<le> b" "b \<le> 16"
  shows "loop_res (printint_step (of_nat b)) (buf, x) = Ok (buf @ rev (nat_text b (unat x)))"
proof (induction "unat x" arbitrary: buf x rule: less_induct)
  case less
  have b: "unat (of_nat b :: u64) = b" using assms by (simp add: unat_of_nat)
  let ?d = "unat x mod b" and ?y = "x div of_nat b"
  have md: "unat (x mod of_nat b) = ?d" "unat ?y = unat x div b"
    using b by (simp_all add: unat_mod_distrib unat_div_distrib)
  have d: "?d < 16" using assms by (auto intro: less_le_trans [of _ b])
  have step: "printint_step (of_nat b) (buf, x) =
      Ok (if ?y \<noteq> 0 then Next (buf @ [digit_char ?d], ?y) else Done (buf @ [digit_char ?d]))"
    by (simp add: printint_step_def md(1) Let_def digit_of [OF d])
  show ?case
  proof (cases "?y = 0")
    case True
    then have "unat x div b = 0" using md(2) by simp
    then have "unat x < b" using assms by (simp add: div_eq_0_iff)
    with True step show ?thesis by (subst loop_res_unfold, subst nat_text.simps) simp
  next
    case False
    then have "0 < unat ?y" by (simp add: unat_gt_0)
    then have x: "b \<le> unat x" "0 < unat x" using md(2) assms by (auto simp: div_greater_zero_iff)
    then have lt: "unat ?y < unat x" using md(2) assms by simp
    have "nat_text b (unat x) = nat_text b (unat ?y) @ [digit_char ?d]"
      using x(1) assms(1) md(2) by (subst nat_text.simps) simp
    with less.hyps [OF lt, of "buf @ [digit_char ?d]"] False step show ?thesis by (subst loop_res_unfold) simp
  qed
qed

text \<open>\<^verbatim>\<open>buf[20]\<close> is large enough for every number the kernel prints.\<close>

lemma printint_buf_spec:
  assumes "base = 10 \<or> base = (16 :: u64)" and v: "v = (if sign then sint xx else uint xx)"
  shows "printint_buf xx base sign = Ok (rev (number_text (unat base) v))" "length (number_text (unat base) v) \<le> 20"
proof -
  let ?b = "unat base" and ?neg = "sign \<and> sint xx < 0"
  let ?x = "if ?neg then - xx else xx"
  have b: "2 \<le> ?b" "?b \<le> 16" "base = of_nat ?b" "10 \<le> ?b" using assms by auto
  have loop: "loop_res (printint_step base) ([], ?x) = Ok (rev (nat_text ?b (unat ?x)))"
    using printint_loop [OF b(1,2), of "[]" ?x] b(3) by simp
  have len: "length (nat_text ?b n) \<le> k" if "max 1 n < 10 ^ k" "0 < k" for n k
  proof (rule ccontr)
    assume "\<not> length (nat_text ?b n) \<le> k"
    then have "10 ^ k \<le> (10 :: nat) ^ (length (nat_text ?b n) - 1)" by (intro power_increasing) auto
    also have "\<dots> \<le> ?b ^ (length (nat_text ?b n) - 1)" using b(4) by (rule power_mono) simp
    finally show False using nat_text_length [OF b(1), of n] that(1) by linarith
  qed
  have um: "uint (word_of_int k :: u64) = k mod 2 ^ 64" for k
    by (simp add: uint_word_of_int_eq take_bit_eq_mod)
  have rng: "- (2 ^ 63) \<le> sint xx" "sint xx < 2 ^ 63" using sint_ge [of xx] sint_lt [of xx] by simp_all
  have pos: "uint xx = sint xx" if "0 \<le> sint xx"
    using um [of "sint xx"] that rng by simp
  have "printint_buf xx base sign = Ok (rev (number_text ?b v)) \<and> length (number_text ?b v) \<le> 20"
  proof (cases ?neg)
    case True
    have "uint (- xx) = - sint xx"
      using um [of "- sint xx"] True rng by simp
    then have u: "unat (- xx) = nat (- sint xx)" "unat (- xx) \<le> 2 ^ 63" using True rng by (auto simp: unat_eq_nat_uint)
    have "length (nat_text ?b (nat (- sint xx))) \<le> 19" using u by (intro len) (auto intro: le_less_trans)
    then show ?thesis using True loop u(1) v by (simp add: printint_buf_def number_text_def)
  next
    case False
    have "v = uint xx"
    proof (cases sign)
      case True
      then have "0 \<le> sint xx" using False by simp
      from pos [OF this] True v show ?thesis by simp
    qed (simp add: v)
    then have n: "\<not> v < 0" "nat v = unat xx" by (simp_all only: not_less uint_ge_0 unat_eq_nat_uint)
    have "length (nat_text ?b (unat xx)) \<le> 20" using unat_lt64 [of xx] by (intro len) (auto intro: less_le_trans)
    moreover have "?x = xx" using False by auto
    ultimately show ?thesis using False loop n by (simp only: printint_buf_def number_text_def Let_def if_False bnd.simps)
  qed
  then show "printint_buf xx base sign = Ok (rev (number_text ?b v))" "length (number_text ?b v) \<le> 20" by simp_all
qed

section \<open>Output\<close>

text \<open>The bytes written to the transmit register, and a UART that is always ready for the next one.\<close>

definition sent :: "u8 mmio list \<Rightarrow> u8 list" where
  "sent h = rev (List.map_filter (\<lambda>a. case a of Wr r v \<Rightarrow> if r = THR then Some v else None | Rd _ \<Rightarrow> None) h)"

definition uart_ready :: "world \<Rightarrow> bool" where
  "uart_ready w \<longleftrightarrow> (\<forall>h. io_read (uart w) h LSR AND LSR_TX_IDLE \<noteq> 0)"

definition can_print :: "world \<Rightarrow> bool" where
  "can_print w \<longleftrightarrow> uart_ready w \<and> cpu_ok (sync w) \<and> \<not> panicking w \<and> \<not> panicked w"

definition wrote :: "u8 list \<Rightarrow> world \<Rightarrow> world \<Rightarrow> bool" where
  "wrote bs w w' \<longleftrightarrow> (\<exists>s d. w' = w\<lparr>sync := s, uart := d\<rparr> \<and> settle s = settle (sync w) \<and> io_read d = io_read (uart w)
     \<and> sent (io_hist d) = sent (io_hist (uart w)) @ bs)"

lemma settle_cpu_ok: "settle s = settle t \<Longrightarrow> cpu_ok s = cpu_ok t"
  using settle_simps(1) by metis

lemma wrote_can_print: "wrote bs w w' \<Longrightarrow> can_print w' = can_print w"
proof -
  assume "wrote bs w w'"
  then obtain s d where w: "w' = w\<lparr>sync := s, uart := d\<rparr>" "settle s = settle (sync w)" "io_read d = io_read (uart w)"
    unfolding wrote_def by blast
  then show ?thesis using settle_cpu_ok [OF w(2)] by (simp add: can_print_def uart_ready_def)
qed

lemma wrote_trans: "wrote as w w1 \<Longrightarrow> wrote bs w1 w2 \<Longrightarrow> wrote (as @ bs) w w2"
proof -
  assume a: "wrote as w w1" "wrote bs w1 w2"
  from a(1) obtain s d where 1: "w1 = w\<lparr>sync := s, uart := d\<rparr>" "settle s = settle (sync w)"
    "io_read d = io_read (uart w)" "sent (io_hist d) = sent (io_hist (uart w)) @ as" unfolding wrote_def by blast
  from a(2) obtain s' d' where 2: "w2 = w1\<lparr>sync := s', uart := d'\<rparr>" "settle s' = settle (sync w1)"
    "io_read d' = io_read (uart w1)" "sent (io_hist d') = sent (io_hist (uart w1)) @ bs" unfolding wrote_def by blast
  show ?thesis
    unfolding wrote_def by (rule exI [of _ s'], rule exI [of _ d']) (simp add: 1 2)
qed

lemma wrote_refl: "wrote [] w w"
  unfolding wrote_def by (rule exI [of _ "sync w"], rule exI [of _ "uart w"]) simp

lemma uartputc_sync_wrote:
  assumes "can_print w"
  shows "\<exists>w'. uartputc_sync c w = Ok w' \<and> wrote [c] w w'"
proof -
  let ?h = "Wr THR c # Rd LSR # io_hist (uart w)"
  have "uartputc_sync c w = Ok (w\<lparr>sync := settle (sync w), uart := (uart w)\<lparr>io_hist := ?h\<rparr>\<rparr>)"
    using assms
    by (simp add: uartputc_sync_def can_print_def uart_ready_def Let_def)
      (subst loop_res_unfold, simp add: uart_poll_def ReadReg_def WriteReg_def io_get_def io_put_def
         lift_sync_def pop_off_push_off)
  then show ?thesis
    by (simp add: wrote_def) (rule exI [of _ "settle (sync w)"], rule exI [of _ "(uart w)\<lparr>io_hist := ?h\<rparr>"],
      simp add: settle_simps sent_def List.map_filter_simps)
qed

lemma putchars_wrote:
  assumes "can_print w"
  shows "\<exists>w'. foreach (\<lambda>c. consputc (uint c)) bs w = Ok w' \<and> wrote bs w w'"
  using assms
proof (induction bs arbitrary: w)
  case (Cons c bs)
  have "uint c < 2 ^ LENGTH(8)" by (rule unsigned_less)
  then have "uint c \<noteq> BACKSPACE" by (simp add: BACKSPACE_def)
  then have e: "consputc (uint c) w = uartputc_sync c w" by (simp add: consputc_def)
  from uartputc_sync_wrote [OF Cons.prems, of c] obtain w1 where w1: "uartputc_sync c w = Ok w1" "wrote [c] w w1" by blast
  from Cons.IH [of w1] wrote_can_print [OF w1(2)] Cons.prems obtain w2 where
    "foreach (\<lambda>c. consputc (uint c)) bs w1 = Ok w2" "wrote bs w1 w2" by blast
  with w1 e wrote_trans [OF w1(2)] show ?case by auto
qed (simp add: wrote_refl)

text \<open>
  C16: the kernel's \<^verbatim>\<open>printint\<close> prints the number it is given: in a kernel that is not panicking, with a UART that is
  always ready for the next byte, it sends exactly the notation of the argument in base 10 or 16, signed or unsigned
  as asked, at least one digit and at most 20 bytes (the size of its buffer, which it therefore never overruns);
  nothing but the UART and the interrupt bookkeeping changes.
\<close>

theorem printint_prints:
  assumes "can_print w" and "base = 10 \<or> base = 16" and "v = (if sign then sint xx else uint xx)"
  shows "\<exists>w'. printint xx base sign w = Ok w' \<and> wrote (number_text (unat base) v) w w'
    \<and> number_text (unat base) v \<noteq> [] \<and> length (number_text (unat base) v) \<le> 20"
proof -
  note b = printint_buf_spec [OF assms(2,3)]
  from putchars_wrote [OF assms(1), of "number_text (unat base) v"] obtain w' where
    "foreach (\<lambda>c. consputc (uint c)) (number_text (unat base) v) w = Ok w'" "wrote (number_text (unat base) v) w w'" by blast
  moreover have "number_text (unat base) v \<noteq> []" using nat_text_nonempty by (simp add: number_text_def)
  ultimately show ?thesis using b by (intro exI [of _ w']) (simp add: printint_def)
qed

definition print_world :: world where
  "print_world = (boot_world small_image (\<lambda>_. 0) (\<lambda>_ _. None))\<lparr>uart := \<lparr>io_hist = [], io_read = (\<lambda>_ _. 0x20)\<rparr>\<rparr>"

theorem printint_prints_witness:
  "can_print print_world \<and> (\<exists>w'. printint 0 10 True print_world = Ok w' \<and> wrote [48] print_world w')
    \<and> (\<exists>w'. printint (- 120) 10 True print_world = Ok w' \<and> wrote [45, 49, 50, 48] print_world w')"
proof -
  have c: "can_print print_world"
    by (simp add: can_print_def uart_ready_def print_world_def boot_world_def boot_sync_def sync_defs LSR_TX_IDLE_def)
  have t: "number_text 10 0 = [48]" "number_text 10 (- 120) = [45, 49, 50, 48]" by code_simp+
  have s: "sint (- 120 :: u64) = - 120" by simp
  from printint_prints [OF c, of 10 0 True 0] printint_prints [OF c, of 10 "- 120" True "- 120"] t s c show ?thesis by auto
qed

end
