(* ===== verification/Xv6_Proc.thy ===== *)
theory Xv6_Proc
  imports Xv6_Printf
begin

text \<open>
  \<^verbatim>\<open>kernel/proc.c\<close>: the process table, allocation of processes, sleep and wakeup, the kernel event
  queue, wait, kill and the scheduler. \<^verbatim>\<open>kfork\<close>, \<^verbatim>\<open>kexit\<close>, \<^verbatim>\<open>userinit\<close> and \<^verbatim>\<open>forkret\<close>, which use the file
  system, are in a later theory. \<^verbatim>\<open>swtch\<close> (assembly) is \<open>others_run\<close>.
\<close>

unbundle bit_operations_syntax

section \<open>Initialisation\<close>

definition upd_proc :: "nat \<Rightarrow> (proc \<Rightarrow> proc) \<Rightarrow> world \<Rightarrow> world" where
  "upd_proc i f w = w\<lparr>procs := (procs w)(i := f (procs w i))\<rparr>"

definition kqueueinit :: "world \<Rightarrow> world" where
  "kqueueinit w =
     (let w = initlock Kq_lock ''kqueue'' w
      in w\<lparr>kq := (kq w)\<lparr>kq_head := 0, kq_tail := 0, kq_count := 0\<rparr>\<rparr>)"

definition procinit :: "world \<Rightarrow> world" where
  "procinit w =
     (let w = initlock Pid_lock ''nextpid'' w;
          w = initlock Wait_lock ''wait_lock'' w;
          w = fold (\<lambda>i w. upd_proc i (\<lambda>p. p\<lparr>p_state := UNUSED, p_kstack := KSTACK i\<rparr>)
                            (initlock (Proc_lock i) ''proc'' w)) [0..<NPROC] w
      in kqueueinit w)"

section \<open>Allocating and freeing processes\<close>

definition allocpid :: "world \<Rightarrow> (int \<times> world) res" where
  "allocpid w =
     bnd (acquire Pid_lock w) (\<lambda>w.
     let pid = nextpid w; w = w\<lparr>nextpid := nextpid w + 1\<rparr>
     in bnd (release Pid_lock w) (\<lambda>w. Ok (pid, w)))"

definition proc_pagetable :: "nat \<Rightarrow> world \<Rightarrow> (u64 \<times> world) res" where
  "proc_pagetable p w =
     bnd (uvmcreate w) (\<lambda>(pagetable, w).
     if pagetable = 0 then Ok (0, w)
     else bnd (mappages pagetable TRAMPOLINE PGSIZE (ld_trampoline (ld w)) (PTE_R OR PTE_X) w) (\<lambda>(r, w).
          if r < 0 then bnd (uvmfree pagetable 0 w) (\<lambda>w. Ok (0, w))
          else bnd (mappages pagetable TRAPFRAME PGSIZE (p_trapframe (procs w p)) (PTE_R OR PTE_W) w)
               (\<lambda>(r, w).
               if r < 0
               then bnd (uvmunmap pagetable TRAMPOLINE 1 False w) (\<lambda>w.
                    bnd (uvmfree pagetable 0 w) (\<lambda>w. Ok (0, w)))
               else Ok (pagetable, w))))"

definition proc_freepagetable :: "u64 \<Rightarrow> u64 \<Rightarrow> world \<Rightarrow> world res" where
  "proc_freepagetable pagetable sz w =
     bnd (uvmunmap pagetable TRAMPOLINE 1 False w) (\<lambda>w.
     bnd (uvmunmap pagetable TRAPFRAME 1 False w) (\<lambda>w.
     uvmfree pagetable sz w))"

definition freeproc :: "nat \<Rightarrow> world \<Rightarrow> world res" where
  "freeproc i w =
     bnd (if p_trapframe (procs w i) \<noteq> 0 then kfree (p_trapframe (procs w i)) w else Ok w) (\<lambda>w.
     let w = upd_proc i (p_trapframe_update (\<lambda>_. 0)) w
     in bnd (if p_pagetable (procs w i) \<noteq> 0
             then proc_freepagetable (p_pagetable (procs w i)) (p_sz (procs w i)) w else Ok w) (\<lambda>w.
        Ok (upd_proc i (\<lambda>p. p\<lparr>p_pagetable := 0, p_sz := 0, p_pid := 0, p_parent := None,
              p_name := (p_name p)[0 := 0], p_chan := None, p_killed := 0, p_xstate := 0,
              p_state := UNUSED\<rparr>) w)))"

text \<open>The search of \<^verbatim>\<open>allocproc\<close>: the first unused process from the given ones, locked.\<close>

primrec allocproc_scan :: "nat list \<Rightarrow> world \<Rightarrow> (nat option \<times> world) res" where
  "allocproc_scan [] w = Ok (None, w)"
| "allocproc_scan (i # is) w =
     bnd (acquire (Proc_lock i) w) (\<lambda>w.
     if p_state (procs w i) = UNUSED then Ok (Some i, w)
     else bnd (release (Proc_lock i) w) (allocproc_scan is))"

definition allocproc :: "world \<Rightarrow> (nat option \<times> world) res" where
  "allocproc w =
     bnd (allocproc_scan [0..<NPROC] w) (\<lambda>(found, w).
     case found of
       None \<Rightarrow> Ok (None, w)
     | Some i \<Rightarrow>
         bnd (allocpid w) (\<lambda>(pid, w).
         let w = upd_proc i (\<lambda>p. p\<lparr>p_pid := pid, p_state := USED\<rparr>) w
         in bnd (kalloc w) (\<lambda>(tf, w).
            let w = upd_proc i (p_trapframe_update (\<lambda>_. tf)) w
            in if tf = 0
               then bnd (freeproc i w) (\<lambda>w. bnd (release (Proc_lock i) w) (\<lambda>w. Ok (None, w)))
               else bnd (proc_pagetable i w) (\<lambda>(pt, w).
                    let w = upd_proc i (p_pagetable_update (\<lambda>_. pt)) w
                    in if pt = 0
                       then bnd (freeproc i w) (\<lambda>w. bnd (release (Proc_lock i) w) (\<lambda>w. Ok (None, w)))
                       else let ctx = zero_context\<lparr>ctx_ra := ld_forkret (ld w),
                                        ctx_sp := p_kstack (procs w i) + PGSIZE\<rparr>
                            in Ok (Some i, upd_proc i (p_context_update (\<lambda>_. ctx)) w)))))"

definition growproc :: "int \<Rightarrow> world \<Rightarrow> (int \<times> world) res" where
  "growproc n w =
     bnd (myproc_deref w) (\<lambda>(p, w).
     let sz = p_sz (procs w p); pt = p_pagetable (procs w p)
     in if n > 0
        then if sz + word_of_int n > TRAPFRAME then Ok (-1, w)
             else bnd (uvmalloc pt sz (sz + word_of_int n) PTE_W w) (\<lambda>(sz, w).
                  if sz = 0 then Ok (-1, w) else Ok (0, upd_proc p (p_sz_update (\<lambda>_. sz)) w))
        else if n < 0
        then bnd (uvmdealloc pt sz (sz + word_of_int n) w) (\<lambda>(sz, w).
             Ok (0, upd_proc p (p_sz_update (\<lambda>_. sz)) w))
        else Ok (0, upd_proc p (p_sz_update (\<lambda>_. sz)) w))"

section \<open>Sleeping, waking and the event queue\<close>

text \<open>
  \<^verbatim>\<open>sched\<close>: after the switch back, the thread's own \<^verbatim>\<open>intena\<close> is put back in the structure of whichever
  processor it runs on now.
\<close>

definition sched :: "world \<Rightarrow> world res" where
  "sched w =
     bnd (myproc_deref w) (\<lambda>(p, w).
     if \<not> holding (Proc_lock p) (sync w) then Panic ''sched p->lock''
     else if cpu_noff (mycpu (sync w)) \<noteq> 1 then Panic ''sched locks''
     else if p_state (procs w p) = RUNNING then Panic ''sched RUNNING''
     else if intr_get (sync w) then Panic ''sched interruptible''
     else let intena = cpu_intena (mycpu (sync w))
          in bnd (others_run w) (\<lambda>w.
             Ok (w\<lparr>sync := set_mycpu (cpu_intena_update (\<lambda>_. intena)) (sync w)\<rparr>)))"

definition yield :: "world \<Rightarrow> world res" where
  "yield w =
     bnd (myproc_deref w) (\<lambda>(p, w).
     bnd (acquire (Proc_lock p) w) (\<lambda>w.
     bnd (sched (upd_proc p (p_state_update (\<lambda>_. RUNNABLE)) w)) (\<lambda>w.
     release (Proc_lock p) w)))"

definition wakeup_step :: "wchan option \<Rightarrow> nat \<Rightarrow> world \<Rightarrow> world res" where
  "wakeup_step chan i w =
     bnd (myproc w) (\<lambda>(me, w).
     if Some i \<noteq> me
     then bnd (acquire (Proc_lock i) w) (\<lambda>w.
          let w = (if p_state (procs w i) = SLEEPING \<and> p_chan (procs w i) = chan
                   then upd_proc i (p_state_update (\<lambda>_. RUNNABLE)) w else w)
          in release (Proc_lock i) w)
     else Ok w)"

definition wakeup :: "wchan option \<Rightarrow> world \<Rightarrow> world res" where
  "wakeup chan w = foreach (wakeup_step chan) [0..<NPROC] w"

text \<open>
  \<^verbatim>\<open>kqueue_post\<close>. \<open>event_name\<close> is the byte array at \<^verbatim>\<open>event_name\<close>, \<open>mtime\<close> the machine timer that
  \<^verbatim>\<open>r_time()\<close> reads.
\<close>

definition r_time :: "world \<Rightarrow> u64" where
  "r_time w = mtime w"

definition kq_put :: "event \<Rightarrow> kqueue \<Rightarrow> kqueue" where
  "kq_put e q =
     (let q = (if kq_count q \<ge> NEVENT
               then q\<lparr>kq_head := (kq_head q + 1) mod NEVENT, kq_count := kq_count q - 1\<rparr> else q);
          q = q\<lparr>kq_events := (kq_events q)(kq_tail q := e)\<rparr>
      in q\<lparr>kq_tail := (kq_tail q + 1) mod NEVENT, kq_count := kq_count q + 1\<rparr>)"

definition new_event :: "u8 list \<Rightarrow> int \<Rightarrow> u64 \<Rightarrow> event \<Rightarrow> event" where
  "new_event nm pid t e =
     e\<lparr>ev_pid := pid, ev_name := safestrcpy_arr (ev_name e) nm MAXEVENTNAME, ev_timestamp := t\<rparr>"

definition kqueue_post :: "u8 list \<Rightarrow> int \<Rightarrow> world \<Rightarrow> world res" where
  "kqueue_post event_name pid w =
     bnd (acquire Kq_lock w) (\<lambda>w.
     let w = w\<lparr>kq := kq_put (new_event event_name pid (r_time w) (kq_events (kq w) (kq_tail (kq w)))) (kq w)\<rparr>
     in bnd (wakeup (Some Ch_kq) w) (\<lambda>w.
        release Kq_lock w))"

definition sleep :: "wchan \<Rightarrow> lockid \<Rightarrow> world \<Rightarrow> world res" where
  "sleep chan lk w =
     bnd (myproc_deref w) (\<lambda>(p, w).
     bnd (acquire (Proc_lock p) w) (\<lambda>w.
     bnd (release lk w) (\<lambda>w.
     bnd (sched (upd_proc p (\<lambda>q. q\<lparr>p_chan := Some chan, p_state := SLEEPING\<rparr>) w)) (\<lambda>w.
     let w = upd_proc p (p_chan_update (\<lambda>_. None)) w
     in bnd (release (Proc_lock p) w) (\<lambda>w.
        bnd (if chan \<noteq> Ch_kq then kqueue_post (cstr ''sleep'') (p_pid (procs w p)) w else Ok w) (\<lambda>w.
        acquire lk w))))))"

definition kq_get :: "kqueue \<Rightarrow> event \<times> kqueue" where
  "kq_get q = (kq_events q (kq_head q),
     q\<lparr>kq_head := (kq_head q + 1) mod NEVENT, kq_count := kq_count q - 1\<rparr>)"

definition kqueue_wait_internal :: "world \<Rightarrow> (event \<times> world) res" where
  "kqueue_wait_internal w =
     bnd (acquire Kq_lock w) (\<lambda>w.
     bnd (while_res (\<lambda>w. kq_count (kq w) = 0) (sleep Ch_kq Kq_lock) w) (\<lambda>w.
     let (ev, q) = kq_get (kq w); w = w\<lparr>kq := q\<rparr>
     in bnd (release Kq_lock w) (\<lambda>w. Ok (ev, w))))"

section \<open>Killing, waiting and scheduling\<close>

primrec kkill_scan :: "int \<Rightarrow> nat list \<Rightarrow> world \<Rightarrow> (int \<times> world) res" where
  "kkill_scan pid [] w = Ok (-1, w)"
| "kkill_scan pid (i # is) w =
     bnd (acquire (Proc_lock i) w) (\<lambda>w.
     if p_pid (procs w i) = pid
     then let w = upd_proc i (p_killed_update (\<lambda>_. 1)) w;
              w = (if p_state (procs w i) = SLEEPING
                   then upd_proc i (p_state_update (\<lambda>_. RUNNABLE)) w else w)
          in bnd (release (Proc_lock i) w) (\<lambda>w. Ok (0, w))
     else bnd (release (Proc_lock i) w) (kkill_scan pid is))"

definition kkill :: "int \<Rightarrow> world \<Rightarrow> (int \<times> world) res" where
  "kkill pid w = kkill_scan pid [0..<NPROC] w"

definition setkilled :: "nat \<Rightarrow> world \<Rightarrow> world res" where
  "setkilled p w =
     bnd (acquire (Proc_lock p) w) (\<lambda>w.
     release (Proc_lock p) (upd_proc p (p_killed_update (\<lambda>_. 1)) w))"

definition killed :: "nat \<Rightarrow> world \<Rightarrow> (int \<times> world) res" where
  "killed p w =
     bnd (acquire (Proc_lock p) w) (\<lambda>w.
     let k = p_killed (procs w p)
     in bnd (release (Proc_lock p) w) (\<lambda>w. Ok (k, w)))"

definition reparent :: "nat \<Rightarrow> world \<Rightarrow> world res" where
  "reparent p w =
     foreach (\<lambda>pp w.
       if p_parent (procs w pp) = Some p
       then let w = upd_proc pp (p_parent_update (\<lambda>_. initproc w)) w
            in wakeup (map_option Ch_proc (initproc w)) w
       else Ok w) [0..<NPROC] w"

text \<open>
  The scan of \<^verbatim>\<open>kwait\<close> over the process table: \<open>Done\<close> where the C function returns, \<open>Next\<close> with
  \<^verbatim>\<open>havekids\<close> at the end of the table.
\<close>

primrec kwait_scan :: "nat \<Rightarrow> u64 \<Rightarrow> nat list \<Rightarrow> bool \<Rightarrow> world \<Rightarrow>
    (int \<times> world, bool \<times> world) ctl res" where
  "kwait_scan p addr [] havekids w = Ok (Next (havekids, w))"
| "kwait_scan p addr (pp # pps) havekids w =
     (if p_parent (procs w pp) = Some p
      then bnd (acquire (Proc_lock pp) w) (\<lambda>w.
           if p_state (procs w pp) = ZOMBIE
           then let pid = p_pid (procs w pp);
                    xst = le_bytes 4 (word_of_int (p_xstate (procs w pp)) :: u32)
                in bnd (if addr \<noteq> 0 then copyout (p_pagetable (procs w p)) addr xst w else Ok (0, w)) (\<lambda>(r, w).
                   if r < 0
                   then bnd (release (Proc_lock pp) w) (\<lambda>w.
                        bnd (release Wait_lock w) (\<lambda>w. Ok (Done (-1, w))))
                   else bnd (freeproc pp w) (\<lambda>w.
                        bnd (release (Proc_lock pp) w) (\<lambda>w.
                        bnd (release Wait_lock w) (\<lambda>w. Ok (Done (pid, w))))))
           else bnd (release (Proc_lock pp) w) (kwait_scan p addr pps True))
      else kwait_scan p addr pps havekids w)"

definition kwait_step :: "nat \<Rightarrow> u64 \<Rightarrow> world \<Rightarrow> (int \<times> world, world) ctl res" where
  "kwait_step p addr w =
     bnd (kwait_scan p addr [0..<NPROC] False w) (\<lambda>x.
     case x of
       Done r \<Rightarrow> Ok (Done r)
     | Next (havekids, w) \<Rightarrow>
         bnd (if havekids then killed p w else Ok (1, w)) (\<lambda>(k, w).
         if k \<noteq> 0 then bnd (release Wait_lock w) (\<lambda>w. Ok (Done (-1, w)))
         else bnd (sleep (Ch_proc p) Wait_lock w) (\<lambda>w. Ok (Next w))))"

definition kwait :: "u64 \<Rightarrow> world \<Rightarrow> (int \<times> world) res" where
  "kwait addr w =
     bnd (myproc_deref w) (\<lambda>(p, w).
     bnd (acquire Wait_lock w) (\<lambda>w.
     loop_res (kwait_step p addr) w))"

text \<open>
  One iteration of the \<^verbatim>\<open>for(;;)\<close> of \<^verbatim>\<open>scheduler\<close>. The first component of the loop state is \<^verbatim>\<open>found\<close>;
  \<^verbatim>\<open>wfi\<close> waits for the rest of the system.
\<close>

definition set_cur :: "nat option \<Rightarrow> world \<Rightarrow> world" where
  "set_cur p w = w\<lparr>sync := set_mycpu (cpu_proc_update (\<lambda>_. p)) (sync w)\<rparr>"

definition scheduler_step :: "nat \<Rightarrow> bool \<times> world \<Rightarrow> (bool \<times> world) res" where
  "scheduler_step i = (\<lambda>(found, w).
     bnd (acquire (Proc_lock i) w) (\<lambda>w.
     if p_state (procs w i) = RUNNABLE
     then let w = set_cur (Some i) (upd_proc i (p_state_update (\<lambda>_. RUNNING)) w)
          in bnd (others_run w) (\<lambda>w.
             bnd (release (Proc_lock i) (set_cur None w)) (\<lambda>w. Ok (True, w)))
     else bnd (release (Proc_lock i) w) (\<lambda>w. Ok (found, w))))"

definition scheduler_iter :: "world \<Rightarrow> world res" where
  "scheduler_iter w =
     (let w = w\<lparr>sync := intr_off (intr_on (sync w))\<rparr>
      in bnd (foreach scheduler_step [0..<NPROC] (False, w)) (\<lambda>(found, w).
         if \<not> found then others_run w else Ok w))"

definition scheduler :: "world \<Rightarrow> world res" where
  "scheduler w = while_res (\<lambda>_. True) scheduler_iter (set_cur None w)"

section \<open>Copies to and from either address space\<close>

text \<open>
  \<^verbatim>\<open>either_copyout\<close> and \<^verbatim>\<open>either_copyin\<close>. The pair of \<^verbatim>\<open>user_dst\<close> and \<^verbatim>\<open>dst\<close> is a user address, an address
  in physical memory, or a local variable of the caller, whose new content is the bytes passed.
\<close>

datatype cdst = To_user u64 | To_mem u64 | To_local
datatype csrc = From_user u64 | From_mem u64 | From_local "u8 list"

definition either_copyout :: "cdst \<Rightarrow> u8 list \<Rightarrow> world \<Rightarrow> (int \<times> world) res" where
  "either_copyout dst src w =
     bnd (myproc w) (\<lambda>(p, w).
     case dst of
       To_user a \<Rightarrow>
         (case p of None \<Rightarrow> Panic ''kerneltrap''
          | Some p \<Rightarrow> copyout (p_pagetable (procs w p)) a src w)
     | To_mem a \<Rightarrow> Ok (0, w\<lparr>mem := store_bytes a src (mem w)\<rparr>)
     | To_local \<Rightarrow> Ok (0, w))"

definition either_copyin :: "csrc \<Rightarrow> nat \<Rightarrow> world \<Rightarrow> (int \<times> u8 list \<times> world) res" where
  "either_copyin src len w =
     bnd (myproc w) (\<lambda>(p, w).
     case src of
       From_user a \<Rightarrow>
         (case p of None \<Rightarrow> Panic ''kerneltrap''
          | Some p \<Rightarrow> copyin (p_pagetable (procs w p)) a len w)
     | From_mem a \<Rightarrow> Ok (0, region (mem w) a len, w)
     | From_local bs \<Rightarrow> Ok (0, take len bs, w))"

section \<open>The process listing\<close>

definition state_name :: "procstate \<Rightarrow> string" where
  "state_name s =
     (case s of UNUSED \<Rightarrow> ''unused'' | USED \<Rightarrow> ''used'' | SLEEPING \<Rightarrow> ''sleep '' | RUNNABLE \<Rightarrow> ''runble''
      | RUNNING \<Rightarrow> ''run   '' | ZOMBIE \<Rightarrow> ''zombie'')"

definition procdump :: "world \<Rightarrow> world res" where
  "procdump w =
     bnd (printf [CHR 0x0A] [] w) (\<lambda>w.
     foreach (\<lambda>i w.
       if p_state (procs w i) = UNUSED then Ok w
       else bnd (printf ''%d %s %s'' [VWord (word_of_int (p_pid (procs w i))),
                   VStr (Some (map of_char (state_name (p_state (procs w i))))),
                   VStr (Some (p_name (procs w i)))] w)
                (printf [CHR 0x0A] [])) [0..<NPROC] w)"

end
