(* ===== verification/Xv6_Wakeup.thy ===== *)
theory Xv6_Wakeup
  imports Xv6_Proc
begin

text \<open>
  What \<open>wakeup\<close> and \<open>kkill\<close> do to the process table when no other thread holds a process lock, and what
  \<open>sched\<close> demands of its caller.
\<close>

lemma acq_settle [lock_simps]: "acq lk (settle s) = acq lk s"
  by (simp add: sync_defs Let_def)

section \<open>Waking\<close>

text \<open>No process lock but possibly that of the running process is taken.\<close>

definition others_free :: "sync \<Rightarrow> bool" where
  "others_free s \<longleftrightarrow> (\<forall>i<NPROC. Some i \<noteq> cur s \<longrightarrow> lock_free (Proc_lock i) s)"

lemma others_free_simps [lock_simps]:
  "others_free (settle s) = others_free s"
  "(\<And>i. lk \<noteq> Proc_lock i) \<Longrightarrow> others_free (acq lk s) = others_free s"
  by (simp add: others_free_def lock_simps) (metis acq_simps(4,5) others_free_def)

definition wake1 :: "wchan option \<Rightarrow> nat option \<Rightarrow> nat \<Rightarrow> proc \<Rightarrow> proc" where
  "wake1 ch me i p =
     (if Some i \<noteq> me \<and> p_state p = SLEEPING \<and> p_chan p = ch then p\<lparr>p_state := RUNNABLE\<rparr> else p)"

definition woken :: "wchan option \<Rightarrow> nat option \<Rightarrow> (nat \<Rightarrow> proc) \<Rightarrow> nat \<Rightarrow> proc" where
  "woken ch me ps = (\<lambda>i. if i < NPROC then wake1 ch me i (ps i) else ps i)"

lemma wakeup_step_eq:
  assumes "cpu_ok (sync w)" "Some i \<noteq> cur (sync w) \<Longrightarrow> lock_free (Proc_lock i) (sync w)"
  shows "wakeup_step ch i w =
    Ok (w\<lparr>sync := settle (sync w), procs := (procs w)(i := wake1 ch (cur (sync w)) i (procs w i))\<rparr>)"
proof (cases "Some i = cur (sync w)")
  case True
  then show ?thesis using assms(1) by (simp add: wakeup_step_def lock_simps wake1_def)
next
  case False
  then have "lock_free (Proc_lock i) (sync w)" using assms(2) by blast
  then show ?thesis
    using False assms(1) by (simp add: wakeup_step_def lock_simps wake1_def upd_proc_def)
qed

lemma wakeup_loop_eq:
  assumes "cpu_ok (sync w)" "others_free (sync w)" "distinct is" "set is \<subseteq> {..<NPROC}" "is \<noteq> []"
  shows "foreach (wakeup_step ch) is w = Ok (w\<lparr>sync := settle (sync w),
      procs := (\<lambda>i. if i \<in> set is then wake1 ch (cur (sync w)) i (procs w i) else procs w i)\<rparr>)"
  using assms
proof (induction "is" arbitrary: w)
  case (Cons i "is")
  have f: "Some i \<noteq> cur (sync w) \<Longrightarrow> lock_free (Proc_lock i) (sync w)"
    using Cons.prems by (auto simp: others_free_def)
  let ?w = "w\<lparr>sync := settle (sync w), procs := (procs w)(i := wake1 ch (cur (sync w)) i (procs w i))\<rparr>"
  have step: "wakeup_step ch i w = Ok ?w" by (rule wakeup_step_eq [OF Cons.prems(1) f])
  show ?case
  proof (cases "is = []")
    case True
    have "(procs w)(i := wake1 ch (cur (sync w)) i (procs w i)) =
        (\<lambda>j. if j \<in> set (i # is) then wake1 ch (cur (sync w)) j (procs w j) else procs w j)"
      using True by auto
    then show ?thesis using step True by simp
  next
    case False
    have "foreach (wakeup_step ch) is ?w = Ok (?w\<lparr>sync := settle (sync ?w),
      procs := (\<lambda>j. if j \<in> set is then wake1 ch (cur (sync ?w)) j (procs ?w j) else procs ?w j)\<rparr>)"
      by (rule Cons.IH) (use Cons.prems False in \<open>auto simp: lock_simps\<close>)
    moreover have "(\<lambda>j. if j \<in> set is then wake1 ch (cur (sync ?w)) j (procs ?w j) else procs ?w j) =
        (\<lambda>j. if j \<in> set (i # is) then wake1 ch (cur (sync w)) j (procs w j) else procs w j)"
      using Cons.prems(3) by (auto simp: lock_simps fun_eq_iff)
    ultimately show ?thesis using step by (simp add: lock_simps)
  qed
qed simp

lemma NPROC_pos: "0 < NPROC"
  by (simp add: NPROC_def)

lemma wakeup_eq [lock_simps]:
  assumes "cpu_ok (sync w)" "others_free (sync w)"
  shows "wakeup ch w = Ok (w\<lparr>sync := settle (sync w), procs := woken ch (cur (sync w)) (procs w)\<rparr>)"
  unfolding wakeup_def
  by (subst wakeup_loop_eq) (use assms NPROC_pos in \<open>auto simp: woken_def atLeast0LessThan\<close>)

lemma settle_lks: "lks (settle s) = lks s" "cpu_noff (cpus (settle s) h) = cpu_noff (cpus s h)" "cpu_proc (cpus (settle s) h) = cpu_proc (cpus s h)"
  by (auto simp: sync_defs Let_def)

text \<open>
  C11: \<^verbatim>\<open>wakeup(chan)\<close> makes exactly the processes that sleep on \<open>chan\<close> runnable, the caller excepted, and
  changes no other field of any process and no other part of the state: every lock is as it was before, and so is the
  nesting count of every hart. (\<open>settle\<close> only stores whether interrupts are on in the hart's \<^verbatim>\<open>intena\<close>, as \<^verbatim>\<open>push_off\<close> does.)
\<close>

theorem wakeup_wakes_exactly:
  assumes "cpu_ok (sync w)" and "others_free (sync w)"
  shows "wakeup ch w = Ok (w\<lparr>sync := settle (sync w), procs := (\<lambda>i.
      if i < NPROC \<and> p_state (procs w i) = SLEEPING \<and> p_chan (procs w i) = ch \<and> cur (sync w) \<noteq> Some i
      then (procs w i)\<lparr>p_state := RUNNABLE\<rparr> else procs w i)\<rparr>)
    \<and> lks (settle (sync w)) = lks (sync w) \<and> (\<forall>h. cpu_noff (cpus (settle (sync w)) h) = cpu_noff (cpus (sync w) h))"
proof -
  have "woken ch (cur (sync w)) (procs w) = (\<lambda>i.
      if i < NPROC \<and> p_state (procs w i) = SLEEPING \<and> p_chan (procs w i) = ch \<and> cur (sync w) \<noteq> Some i
      then (procs w i)\<lparr>p_state := RUNNABLE\<rparr> else procs w i)" by (auto simp: woken_def wake1_def fun_eq_iff)
  then show ?thesis using wakeup_eq [OF assms, of ch] settle_lks by simp
qed

text \<open>A machine in which process 0 runs on hart 0, 1 sleeps on the event queue and 2 on the clock.\<close>

definition sleeper :: "int \<Rightarrow> wchan \<Rightarrow> proc" where
  "sleeper pid ch = zero_proc\<lparr>p_state := SLEEPING, p_pid := pid, p_chan := Some ch\<rparr>"

definition run_world :: "(nat \<Rightarrow> kernel \<Rightarrow> kernel option) \<Rightarrow> world" where
  "run_world e =
     (let w = boot_world small_image (\<lambda>_. 0) e
      in w\<lparr>sync := (sync w)\<lparr>cpus := (cpus (sync w))(0 := \<lparr>cpu_proc = Some 0, cpu_noff = 0, cpu_intena = False\<rparr>)\<rparr>,
           procs := (procs w)(0 := zero_proc\<lparr>p_state := RUNNING, p_pid := 3\<rparr>,
                              1 := sleeper 4 Ch_kq, 2 := sleeper 5 Ch_ticks)\<rparr>)"

lemma run_world_simps [simp]:
  "cpu_ok (sync (run_world e))" "others_free (sync (run_world e))" "cur (sync (run_world e)) = Some 0"
  "lock_free lk (sync (run_world e))" "cpu_noff (mycpu (sync (run_world e))) = 0"
  "procs (run_world e) 0 = zero_proc\<lparr>p_state := RUNNING, p_pid := 3\<rparr>"
  "procs (run_world e) (Suc 0) = sleeper 4 Ch_kq" "procs (run_world e) 2 = sleeper 5 Ch_ticks"
  "kq (run_world e) = \<lparr>kq_events = (\<lambda>_. zero_event), kq_head = 0, kq_tail = 0, kq_count = 0\<rparr>"
  "mtime (run_world e) = 0" "env (run_world e) = e" "nsw (run_world e) = 0"
  by (simp_all add: run_world_def boot_world_def boot_sync_def sync_defs others_free_def Let_def)

theorem wakeup_wakes_exactly_witness:
  "\<exists>w'. wakeup (Some Ch_kq) (run_world (\<lambda>_ _. None)) = Ok w' \<and> p_state (procs w' 1) = RUNNABLE
     \<and> p_state (procs w' 2) = SLEEPING"
  using wakeup_wakes_exactly [of "run_world (\<lambda>_ _. None)" "Some Ch_kq"] by (simp add: NPROC_def sleeper_def)

end
