(* ===== verification/Xv6_Fifo.thy ===== *)
theory Xv6_Fifo
  imports Xv6_Prelude
begin

text \<open>
  The contract of a bounded queue in a circular buffer, as a locale: what \<open>view\<close> shows of the buffer is
  a list, \<open>put\<close> appends, \<open>front\<close> and \<open>pop\<close> take from the other end. The pipe, the console input buffer
  and the event queue of the kernel are instances. \<open>dropping_fifo\<close> adds what the event queue does
  when it is full: the oldest element goes.
\<close>

datatype 'e fifo_op = Put 'e | Take

text \<open>A run of a sequence of operations on lists: the elements taken, and what is left.\<close>

fun list_run :: "nat \<Rightarrow> 'e fifo_op list \<Rightarrow> 'e list \<Rightarrow> 'e list \<times> 'e list" where
  "list_run cap [] xs = ([], xs)"
| "list_run cap (Put e # ops) xs = list_run cap ops (if length xs < cap then xs @ [e] else tl xs @ [e])"
| "list_run cap (Take # ops) [] = list_run cap ops []"
| "list_run cap (Take # ops) (x # xs) = (let (out, ys) = list_run cap ops xs in (x # out, ys))"

text \<open>The same on a buffer, and the first \<open>n\<close> elements taken from one.\<close>

fun fifo_run :: "('q \<Rightarrow> 'e list) \<Rightarrow> ('e \<Rightarrow> 'q \<Rightarrow> 'q) \<Rightarrow> ('q \<Rightarrow> 'e) \<Rightarrow> ('q \<Rightarrow> 'q) \<Rightarrow>
    'e fifo_op list \<Rightarrow> 'q \<Rightarrow> 'e list \<times> 'q" where
  "fifo_run view put front pop [] q = ([], q)"
| "fifo_run view put front pop (Put e # ops) q = fifo_run view put front pop ops (put e q)"
| "fifo_run view put front pop (Take # ops) q =
     (if view q = [] then fifo_run view put front pop ops q
      else let (out, q') = fifo_run view put front pop ops (pop q) in (front q # out, q'))"

primrec fifo_drain :: "('q \<Rightarrow> 'e) \<Rightarrow> ('q \<Rightarrow> 'q) \<Rightarrow> nat \<Rightarrow> 'q \<Rightarrow> 'e list" where
  "fifo_drain front pop 0 q = []"
| "fifo_drain front pop (Suc n) q = front q # fifo_drain front pop n (pop q)"

locale fifo =
  fixes inv :: "'q \<Rightarrow> bool" and view :: "'q \<Rightarrow> 'e list" and cap :: nat
    and put :: "'e \<Rightarrow> 'q \<Rightarrow> 'q" and front :: "'q \<Rightarrow> 'e" and pop :: "'q \<Rightarrow> 'q"
  assumes bounded: "inv q \<Longrightarrow> length (view q) \<le> cap"
    and put_room: "inv q \<Longrightarrow> length (view q) < cap \<Longrightarrow> inv (put e q) \<and> view (put e q) = view q @ [e]"
    and take_front: "inv q \<Longrightarrow> view q \<noteq> [] \<Longrightarrow> front q = hd (view q) \<and> inv (pop q) \<and> view (pop q) = tl (view q)"
begin

lemma put_all:
  assumes "inv q" "length (view q) + length es \<le> cap"
  shows "inv (fold put es q) \<and> view (fold put es q) = view q @ es"
  using assms
proof (induction es arbitrary: q)
  case (Cons e es)
  then have "inv (put e q)" "view (put e q) = view q @ [e]" using put_room [of q e] by simp_all
  with Cons.IH [of "put e q"] Cons.prems show ?case by simp
qed simp

lemma pop_all:
  assumes "inv q" "n \<le> length (view q)"
  shows "inv ((pop ^^ n) q) \<and> view ((pop ^^ n) q) = drop n (view q) \<and> fifo_drain front pop n q = take n (view q)"
  using assms
proof (induction n arbitrary: q)
  case (Suc n)
  then have ne: "view q \<noteq> []" by auto
  with Suc.prems take_front [of q] have q: "front q = hd (view q)" "inv (pop q)" "view (pop q) = tl (view q)" by auto
  from Suc.IH [OF q(2)] Suc.prems q(3) have
    "inv ((pop ^^ n) (pop q)) \<and> view ((pop ^^ n) (pop q)) = drop n (tl (view q)) \<and> fifo_drain front pop n (pop q) = take n (tl (view q))"
    by simp
  moreover have "view q = hd (view q) # tl (view q)" using ne by simp
  ultimately show ?case using q(1) by (simp add: funpow_swap1 drop_Suc) (metis take_Suc_Cons)
qed simp

lemma put_then_drain:
  assumes "inv q" "view q = []" "length es \<le> cap"
  shows "fifo_drain front pop (length es) (fold put es q) = es \<and> view ((pop ^^ length es) (fold put es q)) = []"
proof -
  from put_all [OF assms(1)] assms have f: "inv (fold put es q)" "view (fold put es q) = es" by simp_all
  with pop_all [OF f(1), of "length es"] show ?thesis by simp
qed

end

locale dropping_fifo = fifo inv view cap put front pop
  for inv :: "'q \<Rightarrow> bool" and view :: "'q \<Rightarrow> 'e list" and cap and put and front and pop +
  assumes put_full: "inv q \<Longrightarrow> length (view q) = cap \<Longrightarrow> inv (put e q) \<and> view (put e q) = tl (view q) @ [e]"
    and cap_pos: "0 < cap"
begin

lemma put_any:
  assumes "inv q"
  shows "inv (put e q) \<and> view (put e q) = (if length (view q) < cap then view q @ [e] else tl (view q) @ [e])"
  using bounded [OF assms] put_room [OF assms, of e] put_full [OF assms, of e] by auto

lemma run_refines:
  assumes "inv q"
  shows "inv (snd (fifo_run view put front pop ops q)) \<and> (fst (fifo_run view put front pop ops q), view (snd (fifo_run view put front pop ops q))) = list_run cap ops (view q)"
  using assms
proof (induction ops arbitrary: q)
  case (Cons op ops)
  show ?case
  proof (cases op)
    case (Put e)
    with Cons put_any [of q e] show ?thesis by auto
  next
    case Take
    show ?thesis
    proof (cases "view q")
      case Nil
      with Cons Take show ?thesis by simp
    next
      case (Cons x xs)
      with \<open>inv q\<close> take_front [of q] have q: "front q = x" "inv (pop q)" "view (pop q) = xs" by auto
      with Cons.IH [OF q(2)] have "inv (snd (fifo_run view put front pop ops (pop q)))"
        "list_run cap ops xs =
          (fst (fifo_run view put front pop ops (pop q)), view (snd (fifo_run view put front pop ops (pop q))))"
        by simp_all
      with q(1) Cons Take show ?thesis by (simp add: case_prod_beta)
    qed
  qed
qed simp

text \<open>After any number of puts, the buffer holds the last \<open>cap\<close> elements.\<close>

lemma put_many:
  assumes "inv q"
  shows "inv (fold put es q) \<and>
    view (fold put es q) = drop (length (view q @ es) - cap) (view q @ es)"
  using assms
proof (induction es arbitrary: q)
  case Nil
  with bounded [of q] show ?case by simp
next
  case (Cons e es)
  from put_any [OF Cons.prems, of e] have p: "inv (put e q)"
    "view (put e q) = (if length (view q) < cap then view q @ [e] else tl (view q) @ [e])" by auto
  have IH: "inv (fold put es (put e q)) \<and>
    view (fold put es (put e q)) = drop (length (view (put e q) @ es) - cap) (view (put e q) @ es)"
    by (rule Cons.IH [OF p(1)])
  show ?case
  proof (cases "length (view q) < cap")
    case True
    with IH p(2) show ?thesis by simp
  next
    case False
    with bounded [OF Cons.prems] cap_pos obtain x xs where x: "view q = x # xs" "length xs = cap - 1"
      by (cases "view q") auto
    with False IH p(2) cap_pos show ?thesis by (simp add: drop_Cons')
  qed
qed

end

section \<open>Ring indices\<close>

lemma mod_shift_neq:
  fixes i j n :: nat and h m :: int
  assumes "i < n" "j < n" "int n \<le> m" "(h + int i) mod m = (h + int j) mod m"
  shows "i = j"
proof -
  from assms(4) have "m dvd (h + int i) - (h + int j)" by (simp add: mod_eq_dvd_iff)
  then have "m dvd int i - int j" by simp
  moreover have "\<bar>int i - int j\<bar> < m" using assms(1-3) by auto
  ultimately have "int i - int j = 0" using zdvd_imp_le [of m "int i - int j"] zdvd_imp_le [of m "int j - int i"] dvd_diff_commute [of m "int i" "int j"] by (cases "int i - int j" "0 :: int" rule: linorder_cases) auto
  then show ?thesis by simp
qed

text \<open>
  A ring of \<open>N\<close> bytes indexed by two 32-bit counters that run over: \<open>N\<close> divides \<open>2 ^ 32\<close>, so reducing a
  counter after it has wrapped gives the same slot.
\<close>

definition ring_view :: "nat \<Rightarrow> (u32 \<Rightarrow> 'a) \<Rightarrow> u32 \<Rightarrow> u32 \<Rightarrow> 'a list" where
  "ring_view N d r w = map (\<lambda>i. d ((r + of_nat i) mod of_nat N)) [0..<unat (w - r)]"

lemma length_ring_view [simp]: "length (ring_view N d r w) = unat (w - r)"
  by (simp add: ring_view_def)

lemma unat_ring_slot:
  assumes "N dvd 2 ^ 32" "N < 2 ^ 32"
  shows "unat (((x :: u32) + of_nat i) mod of_nat N) = (unat x + i) mod N"
proof -
  have "unat (of_nat N :: u32) = N" using assms(2) by (simp add: unat_of_nat)
  moreover have "unat (x + of_nat i) = (unat x + i) mod 2 ^ 32"
    by (simp add: unat_word_ariths unat_of_nat mod_add_right_eq)
  ultimately have "unat ((x + of_nat i) mod of_nat N) = (unat x + i) mod 2 ^ 32 mod N"
    by (simp add: unat_mod_distrib)
  also have "\<dots> = (unat x + i) mod N" using assms(1) by (rule mod_mod_cancel)
  finally show ?thesis .
qed

lemma ring_slot_neq:
  assumes "N dvd 2 ^ 32" "N < 2 ^ 32" "i < N" "j < N" "i \<noteq> j"
  shows "((x :: u32) + of_nat i) mod of_nat N \<noteq> (x + of_nat j) mod of_nat N"
proof
  assume "(x + of_nat i) mod of_nat N = (x + of_nat j) mod of_nat N"
  then have "(unat x + i) mod N = (unat x + j) mod N"
    using unat_ring_slot [OF assms(1,2)] by metis
  then have "(int (unat x) + int i) mod int N = (int (unat x) + int j) mod int N"
    by (metis of_nat_add of_nat_mod)
  with mod_shift_neq [of i N j "int N"] assms show False by blast
qed

lemma unat_Suc32: "unat (x :: u32) < 2 ^ 32 - 1 \<Longrightarrow> unat (x + 1) = Suc (unat x)"
  by (simp add: unat_word_ariths)

lemma ring_put:
  assumes "N dvd 2 ^ 32" "N < 2 ^ 32" "unat (w - r) < N"
  shows "unat (w + 1 - r) = Suc (unat (w - r))"
    "ring_view N (d(w mod of_nat N := c)) r (w + 1) = ring_view N d r w @ [c]"
proof -
  have "unat (w - r + 1) = Suc (unat (w - r))" using assms(2,3) by (intro unat_Suc32) simp
  then show n: "unat (w + 1 - r) = Suc (unat (w - r))" by (simp add: algebra_simps)
  have w: "w = r + of_nat (unat (w - r))" by simp
  have "(r + of_nat i) mod of_nat N \<noteq> w mod of_nat N" if "i < unat (w - r)" for i
    using ring_slot_neq [OF assms(1,2), of i "unat (w - r)" r] that assms(3) by simp
  then show "ring_view N (d(w mod of_nat N := c)) r (w + 1) = ring_view N d r w @ [c]"
    by (simp add: ring_view_def n)
qed

lemma ring_pop:
  assumes "r \<noteq> w"
  shows "ring_view N d r w = d (r mod of_nat N) # ring_view N d (r + 1) w"
    "Suc (unat (w - (r + 1))) = unat (w - r)"
proof -
  have "w - r \<noteq> 0" using assms by simp
  then have "unat (w - r - 1) = unat (w - r) - 1" "0 < unat (w - r)"
    by (simp_all add: unat_minus_one unat_gt_0)
  then show n: "Suc (unat (w - (r + 1))) = unat (w - r)" by (simp add: algebra_simps)
  show "ring_view N d r w = d (r mod of_nat N) # ring_view N d (r + 1) w"
    unfolding ring_view_def n [symmetric] by (simp add: map_upt_Suc add.assoc del: upt_Suc)
qed

end
