(* ===== verification/Xv6_Kqueue.thy ===== *)
theory Xv6_Kqueue
  imports Xv6_Wakeup Xv6_Fifo
begin

text \<open>
  The kernel event queue: its ring is an instance of \<open>dropping_fifo\<close>, and \<open>kqueue_post\<close>,
  \<open>kqueue_wait_internal\<close> and \<open>wakeup\<close> are what the contract of the queue and of sleeping processes says.
\<close>

section \<open>The ring\<close>

definition kq_inv :: "kqueue \<Rightarrow> bool" where
  "kq_inv q \<longleftrightarrow> 0 \<le> kq_head q \<and> kq_head q < NEVENT \<and> 0 \<le> kq_count q \<and> kq_count q \<le> NEVENT
     \<and> kq_tail q = (kq_head q + kq_count q) mod NEVENT"

definition kq_abs :: "kqueue \<Rightarrow> event list" where
  "kq_abs q = map (\<lambda>i. kq_events q ((kq_head q + int i) mod NEVENT)) [0..<nat (kq_count q)]"

lemma length_kq_abs [simp]: "length (kq_abs q) = nat (kq_count q)"
  by (simp add: kq_abs_def)

lemma kq_abs_Cons:
  assumes "0 < kq_count q"
  shows "kq_abs q = kq_events q (kq_head q mod NEVENT)
    # map (\<lambda>i. kq_events q ((kq_head q + 1 + int i) mod NEVENT)) [0..<nat (kq_count q - 1)]"
proof -
  have "nat (kq_count q) = Suc (nat (kq_count q - 1))" using assms by simp
  then show ?thesis by (simp add: kq_abs_def map_upt_Suc add.assoc del: upt_Suc)
qed

lemma NEVENT_pos: "0 < NEVENT"
  by (simp add: NEVENT_def)

lemma kq_put_room:
  assumes "kq_inv q" "length (kq_abs q) < nat NEVENT"
  shows "kq_inv (kq_put e q) \<and> kq_abs (kq_put e q) = kq_abs q @ [e]"
proof -
  let ?h = "kq_head q" and ?c = "kq_count q"
  have c: "0 \<le> ?c" "?c < NEVENT" "0 \<le> ?h" "?h < NEVENT" using assms by (auto simp: kq_inv_def)
  have t: "kq_tail q = (?h + ?c) mod NEVENT" using assms(1) by (simp add: kq_inv_def)
  have p: "kq_put e q = q\<lparr>kq_events := (kq_events q)(kq_tail q := e), kq_tail := (kq_tail q + 1) mod NEVENT,
      kq_count := ?c + 1\<rparr>"
    using c by (simp add: kq_put_def Let_def)
  have "kq_inv (kq_put e q)"
    using c by (simp add: p kq_inv_def t mod_add_left_eq add.assoc)
  moreover have "kq_events q ((?h + int i) mod NEVENT) = (kq_events (kq_put e q)) ((?h + int i) mod NEVENT)"
    if "i < nat ?c" for i
  proof -
    have "(?h + int i) mod NEVENT \<noteq> (?h + int (nat ?c)) mod NEVENT"
      using mod_shift_neq [of i "nat NEVENT" "nat ?c" NEVENT ?h] that c by (auto simp: zless_nat_eq_int_zless)
    with c show ?thesis by (simp add: p t)
  qed
  moreover have "nat (?c + 1) = Suc (nat ?c)" using c by simp
  ultimately show ?thesis using c t by (simp add: kq_abs_def p)
qed

lemma kq_take_front:
  assumes "kq_inv q" "kq_abs q \<noteq> []"
  shows "fst (kq_get q) = hd (kq_abs q) \<and> kq_inv (snd (kq_get q)) \<and> kq_abs (snd (kq_get q)) = tl (kq_abs q)"
proof -
  let ?h = "kq_head q" and ?c = "kq_count q"
  have c: "0 < ?c" "?c \<le> NEVENT" "0 \<le> ?h" "?h < NEVENT"
    using assms by (auto simp: kq_inv_def kq_abs_def)
  have t: "kq_tail q = (?h + ?c) mod NEVENT" using assms(1) by (simp add: kq_inv_def)
  have "kq_inv (snd (kq_get q))"
    using c NEVENT_pos by (simp add: kq_inv_def kq_get_def t mod_add_left_eq)
  moreover have "kq_abs (snd (kq_get q)) =
      map (\<lambda>i. kq_events q ((?h + 1 + int i) mod NEVENT)) [0..<nat (?c - 1)]"
    by (simp add: kq_abs_def kq_get_def mod_add_left_eq)
  ultimately show ?thesis
    using c by (simp add: kq_abs_Cons [OF c(1)] kq_get_def)
qed

text \<open>A full queue: the slot at the tail is that of the oldest event, which the code drops first.\<close>

lemma kq_put_full:
  assumes "kq_inv q" "length (kq_abs q) = nat NEVENT"
  shows "kq_inv (kq_put e q) \<and> kq_abs (kq_put e q) = tl (kq_abs q) @ [e]"
proof -
  let ?q = "snd (kq_get q)"
  have c: "kq_count q = NEVENT" using assms NEVENT_pos by (auto simp: kq_inv_def)
  have ne: "kq_abs q \<noteq> []" using c NEVENT_pos by (simp add: kq_abs_def)
  from kq_take_front [OF assms(1) ne] have q: "kq_inv ?q" "kq_abs ?q = tl (kq_abs q)" by auto
  have "kq_put e q = kq_put e ?q"
    using c NEVENT_pos by (simp add: kq_put_def kq_get_def Let_def)
  moreover have "length (kq_abs ?q) < nat NEVENT" using q(2) assms(2) NEVENT_pos by simp
  ultimately show ?thesis using kq_put_room [OF q(1), of e] q(2) by simp
qed

interpretation kqr: dropping_fifo kq_inv kq_abs "nat NEVENT" kq_put "\<lambda>q. fst (kq_get q)" "\<lambda>q. snd (kq_get q)"
proof unfold_locales
  show "length (kq_abs q) \<le> nat NEVENT" if "kq_inv q" for q
    using that by (auto simp: kq_inv_def intro: nat_mono)
qed (use kq_put_room kq_take_front kq_put_full NEVENT_pos in simp_all)

text \<open>
  C8: the event ring refines a FIFO of at most 256 events that drops the oldest: any sequence of
  posts and waits on the ring yields the events, in the order, that the same sequence yields on a
  list, and keeps the ring's invariant on head, tail and count.
\<close>

theorem kq_ring_refines_fifo:
  assumes "kq_inv q" and "fifo_run kq_abs kq_put (\<lambda>q. fst (kq_get q)) (\<lambda>q. snd (kq_get q)) ops q = (out, q')"
  shows "kq_inv q' \<and> (out, kq_abs q') = list_run 256 ops (kq_abs q)"
  using kqr.run_refines [OF assms(1), of ops] assms(2) by (simp add: NEVENT_def)

definition empty_kq :: kqueue where
  "empty_kq = \<lparr>kq_events = (\<lambda>_. zero_event), kq_head = 255, kq_tail = 255, kq_count = 0\<rparr>"

theorem kq_ring_refines_fifo_witness:
  "kq_inv empty_kq \<and> fst (fifo_run kq_abs kq_put (\<lambda>q. fst (kq_get q)) (\<lambda>q. snd (kq_get q))
     [Put zero_event, Put (zero_event\<lparr>ev_pid := 7\<rparr>), Take, Take] empty_kq) = [zero_event, zero_event\<lparr>ev_pid := 7\<rparr>]"
proof -
  have i: "kq_inv empty_kq" by (simp add: kq_inv_def empty_kq_def NEVENT_def)
  have "kq_abs empty_kq = []" by (simp add: kq_abs_def empty_kq_def)
  then have "list_run 256 [Put zero_event, Put (zero_event\<lparr>ev_pid := 7\<rparr>), Take, Take] (kq_abs empty_kq) =
      ([zero_event, zero_event\<lparr>ev_pid := 7\<rparr>], [])" by simp
  with i kq_ring_refines_fifo [OF i surjective_pairing, of "[Put zero_event, Put (zero_event\<lparr>ev_pid := 7\<rparr>), Take, Take]"]
  show ?thesis by simp
qed

section \<open>Posting\<close>

definition posted :: "u8 list \<Rightarrow> int \<Rightarrow> world \<Rightarrow> world" where
  "posted nm pid w =
     w\<lparr>procs := woken (Some Ch_kq) (cur (sync w)) (procs w),
       kq := kq_put (new_event nm pid (mtime w) (kq_events (kq w) (kq_tail (kq w)))) (kq w)\<rparr>"

lemma kqueue_post_eq [lock_simps]:
  assumes "cpu_ok (sync w)" "lock_free Kq_lock (sync w)" "others_free (sync w)"
  shows "kqueue_post nm pid w = Ok ((posted nm pid w)\<lparr>sync := settle (sync w)\<rparr>)"
  using assms by (simp add: kqueue_post_def posted_def r_time_def lock_simps Let_def)

text \<open>Every slot of the ring holds a name of 32 bytes with a NUL in it.\<close>

definition event_ok :: "event \<Rightarrow> bool" where
  "event_ok e \<longleftrightarrow> length (ev_name e) = 32 \<and> 0 \<in> set (ev_name e) \<and> length (ev_pad e) = 4"

definition kq_ok :: "kqueue \<Rightarrow> bool" where
  "kq_ok q \<longleftrightarrow> kq_inv q \<and> (\<forall>i. event_ok (kq_events q i))"

lemma new_event_ok:
  assumes "event_ok e"
  shows "event_ok (new_event nm pid t e)" "ev_pid (new_event nm pid t e) = pid"
    "ev_timestamp (new_event nm pid t e) = t" "cstring (ev_name (new_event nm pid t e)) = take 31 (cstring nm)"
  using assms safestrcpy_arr_spec [of MAXEVENTNAME "ev_name e" nm]
  by (auto simp: event_ok_def new_event_def MAXEVENTNAME_def)

lemma kq_put_ok:
  assumes "kq_ok q" "event_ok e"
  shows "kq_ok (kq_put e q)"
  using assms kqr.put_any [of q e] by (auto simp: kq_ok_def kq_put_def Let_def)


lemma run_world_kq_ok: "kq_ok (kq (run_world e))"
  by (simp add: kq_ok_def kq_inv_def NEVENT_def event_ok_def zero_event_def)


section \<open>Sleeping\<close>

text \<open>
  The running thread is process \<open>p\<close>, holds \<open>lk\<close> and no other lock; the state in which it is switched
  out; and what the rest of the system must give back for it to run again: it is the current
  process of a hart, its own lock is held for it by the scheduler, and the locks it takes next are free.
\<close>

definition in_crit :: "nat \<Rightarrow> lockid \<Rightarrow> sync \<Rightarrow> bool" where
  "in_crit p lk s \<longleftrightarrow> cur s = Some p \<and> cpu_ok s \<and> cpu_noff (mycpu s) = 1 \<and> holding lk s
     \<and> lock_free (Proc_lock p) s"

definition asleep :: "wchan \<Rightarrow> nat \<Rightarrow> lockid \<Rightarrow> world \<Rightarrow> world" where
  "asleep ch p lk w =
     upd_proc p (\<lambda>q. q\<lparr>p_chan := Some ch, p_state := SLEEPING\<rparr>)
       (w\<lparr>sync := rel lk (acq (Proc_lock p) (sync w))\<rparr>)"

definition resumed :: "nat \<Rightarrow> lockid \<Rightarrow> sync \<Rightarrow> bool" where
  "resumed p lk s \<longleftrightarrow> cur s = Some p \<and> cpu_ok s \<and> cpu_noff (mycpu s) = 1 \<and> holding (Proc_lock p) s
     \<and> lock_free lk s \<and> lock_free Kq_lock s \<and> others_free s"

definition thread_of :: "world \<Rightarrow> kernel \<Rightarrow> world" where
  "thread_of w k = kernel.extend k \<lparr>env = env w, nsw = Suc (nsw w)\<rparr>"

definition slept :: "wchan \<Rightarrow> nat \<Rightarrow> world \<Rightarrow> world" where
  "slept ch p w =
     (let w = upd_proc p (p_chan_update (\<lambda>_. None)) w
      in if ch = Ch_kq then w else posted (cstr ''sleep'') (p_pid (procs w p)) w)"

lemma thread_of_simps [simp]:
  "sync (thread_of w k) = sync k" "procs (thread_of w k) = procs k" "kq (thread_of w k) = kq k"
  "env (thread_of w k) = env w" "nsw (thread_of w k) = Suc (nsw w)"
  by (simp_all add: thread_of_def kernel.extend_def)

text \<open>The lock state before the switch, and after it.\<close>

lemma in_crit_asleep:
  assumes "in_crit p lk s" "lk \<noteq> Proc_lock p"
  shows "release lk (w\<lparr>sync := acq (Proc_lock p) s\<rparr>) = Ok (w\<lparr>sync := rel lk (acq (Proc_lock p) s)\<rparr>)"
    "holding (Proc_lock p) (rel lk (acq (Proc_lock p) s))"
    "cpu_noff (mycpu (rel lk (acq (Proc_lock p) s))) = 1" "\<not> intr_get (rel lk (acq (Proc_lock p) s))"
    "cur (rel lk (acq (Proc_lock p) s)) = Some p" "cpu_ok (rel lk (acq (Proc_lock p) s))"
    "settle (rel lk (acq (Proc_lock p) s)) = rel lk (acq (Proc_lock p) s)"
  using assms
  by (auto simp: in_crit_def release_def pop_off_def sync_defs Let_def)

definition awake :: "nat \<Rightarrow> bool \<Rightarrow> sync \<Rightarrow> sync" where
  "awake p b s = rel (Proc_lock p) (set_mycpu (cpu_intena_update (\<lambda>_. b)) s)"

lemma resumed_awake:
  assumes "resumed p lk s" "lk \<noteq> Proc_lock p"
  shows "sync w = set_mycpu (cpu_intena_update (\<lambda>_. b)) s \<Longrightarrow> release (Proc_lock p) w = Ok (w\<lparr>sync := awake p b s\<rparr>)"
    "cpu_ok (awake p b s)" "cur (awake p b s) = Some p" "cpu_noff (mycpu (awake p b s)) = 0"
    "lock_free (Proc_lock p) (awake p b s)"
    "l \<noteq> Proc_lock p \<Longrightarrow> lock_free l (awake p b s) = lock_free l s" "others_free (awake p b s)"
  using assms
  by (auto simp: resumed_def awake_def release_def pop_off_def sync_defs others_free_def Let_def)

lemma in_crit_acq:
  assumes "cur s = Some p" "cpu_ok s" "cpu_noff (mycpu s) = 0" "lock_free (Proc_lock p) s" "lk \<noteq> Proc_lock p"
  shows "in_crit p lk (acq lk s)"
  using assms by (auto simp: in_crit_def sync_defs Let_def)

lemma posted_sync [simp]: "sync (posted nm pid w) = sync w" "posted nm pid (w\<lparr>sync := s\<rparr>) =
    w\<lparr>sync := s, procs := woken (Some Ch_kq) (cur s) (procs w),
       kq := kq_put (new_event nm pid (mtime w) (kq_events (kq w) (kq_tail (kq w)))) (kq w)\<rparr>"
  by (simp_all add: posted_def)

definition after_sleep :: "wchan \<Rightarrow> nat \<Rightarrow> lockid \<Rightarrow> world \<Rightarrow> kernel \<Rightarrow> world" where
  "after_sleep ch p lk w k =
     (let a = awake p (cpu_intena (mycpu (rel lk (acq (Proc_lock p) (sync w))))) (sync k)
      in (slept ch p (thread_of w k))\<lparr>sync := acq lk (if ch = Ch_kq then a else settle a)\<rparr>)"

lemma sleep_resumes:
  assumes crit: "in_crit p lk (sync w)" and lk: "lk \<noteq> Proc_lock p"
    and env: "env w (nsw w) (kernel.truncate (asleep ch p lk w)) = Some k" and res: "resumed p lk (sync k)"
  shows "sleep ch lk w = Ok (after_sleep ch p lk w k)" "in_crit p lk (sync (after_sleep ch p lk w k))"
proof -
  let ?s1 = "rel lk (acq (Proc_lock p) (sync w))"
  let ?b = "cpu_intena (mycpu ?s1)"
  let ?a = "awake p ?b (sync k)"
  have st: "settle (sync w) = sync w" "cpu_ok (sync w)" "cur (sync w) = Some p" "lock_free (Proc_lock p) (sync w)"
    using crit by (auto simp: in_crit_def settle_def)
  have me: "myproc_deref w = Ok (p, w)" using st by (simp add: myproc_deref_def lock_simps)
  have acq: "acquire (Proc_lock p) w = Ok (w\<lparr>sync := acq (Proc_lock p) (sync w)\<rparr>)"
    using st by (simp add: lock_simps)
  have others: "others_run (asleep ch p lk w) = Ok (thread_of w k)"
    using env by (simp add: others_run_def thread_of_def asleep_def upd_proc_def)
  have aw: "cur (sync (asleep ch p lk w)) = Some p" "sync (asleep ch p lk w) = ?s1"
    "p_state (procs (asleep ch p lk w) p) = SLEEPING"
    using in_crit_asleep [OF crit lk] by (simp_all add: asleep_def upd_proc_def)
  have id: "(asleep ch p lk w)\<lparr>sync := ?s1\<rparr> = asleep ch p lk w" by (simp add: asleep_def upd_proc_def)
  have sched: "sched (asleep ch p lk w) =
      Ok ((thread_of w k)\<lparr>sync := set_mycpu (cpu_intena_update (\<lambda>_. ?b)) (sync k)\<rparr>)"
    using in_crit_asleep [OF crit lk] aw others
    by (simp add: sched_def myproc_deref_def lock_simps id)
  note A = resumed_awake [OF res lk, where b = ?b]
  have kqf: "lock_free Kq_lock ?a" "lock_free lk ?a" using A(6) res lk by (auto simp: resumed_def)
  have "sleep ch lk w = bnd (if ch \<noteq> Ch_kq
      then kqueue_post (cstr ''sleep'') (p_pid (procs k p)) (upd_proc p (p_chan_update (\<lambda>_. None)) (thread_of w k)\<lparr>sync := ?a\<rparr>)
      else Ok (upd_proc p (p_chan_update (\<lambda>_. None)) (thread_of w k)\<lparr>sync := ?a\<rparr>)) (acquire lk)"
    using in_crit_asleep(1) [OF crit lk, of w] sched A(1)
    by (simp add: sleep_def me acq asleep_def upd_proc_def)
  also have "\<dots> = Ok ((slept ch p (thread_of w k))\<lparr>sync := acq lk (if ch = Ch_kq then ?a else settle ?a)\<rparr>)"
    using A kqf res by (simp add: slept_def Let_def lock_simps upd_proc_def posted_def resumed_def)
  finally show "sleep ch lk w = Ok (after_sleep ch p lk w k)" by (simp add: after_sleep_def Let_def)
  show "in_crit p lk (sync (after_sleep ch p lk w k))"
    using A lk by (auto simp: after_sleep_def Let_def lock_simps intro!: in_crit_acq)
qed

section \<open>Waiting\<close>

text \<open>
  Process \<open>p\<close>, in the loop of \<open>kqueue_wait_internal\<close> in state \<open>w\<close>, finds the queue \<open>q\<close> with an event in it: at
  once, or after sleeping and being resumed, possibly to an empty queue again when another waiter
  took the event first.
\<close>

inductive event_arrives :: "nat \<Rightarrow> world \<Rightarrow> kqueue \<Rightarrow> bool" for p where
  here: "kq_inv (kq w) \<Longrightarrow> kq_count (kq w) \<noteq> 0 \<Longrightarrow> event_arrives p w (kq w)"
| later: "kq_count (kq w) = 0 \<Longrightarrow>
     env w (nsw w) (kernel.truncate (asleep Ch_kq p Kq_lock w)) = Some k \<Longrightarrow> resumed p Kq_lock (sync k) \<Longrightarrow>
     event_arrives p (after_sleep Ch_kq p Kq_lock w k) q \<Longrightarrow> event_arrives p w q"

lemma wait_loop_arrives:
  assumes "event_arrives p w q" "in_crit p Kq_lock (sync w)"
  shows "\<exists>w'. while_res (\<lambda>w. kq_count (kq w) = 0) (sleep Ch_kq Kq_lock) w = Ok w'
    \<and> in_crit p Kq_lock (sync w') \<and> kq w' = q \<and> kq_inv q \<and> kq_count q \<noteq> 0"
  using assms
proof (induction rule: event_arrives.induct)
  case (later w k q)
  note s = sleep_resumes [OF later.prems _ later.hyps(2,3)]
  from later.IH [OF s(2)] later.hyps(1) s(1) show ?case by (subst while_res_unfold) simp
qed auto

lemma in_crit_release:
  assumes "in_crit p lk s"
  shows "release lk (w\<lparr>sync := s\<rparr>) = Ok (w\<lparr>sync := rel lk s\<rparr>)" "lock_free lk (rel lk s)"
    "cur (rel lk s) = Some p" "cpu_ok (rel lk s)" "cpu_noff (mycpu (rel lk s)) = 0"
  using assms by (auto simp: in_crit_def release_def pop_off_def sync_defs Let_def)

text \<open>
  C10: \<^verbatim>\<open>kqueue_wait\<close> returns the oldest event: if the queue has an event, or the thread is resumed as
  long as it has none until it has one, then \<open>kqueue_wait_internal\<close> returns (it neither panics nor
  waits for ever) with the event that was posted first of those in the queue, removes exactly that
  event, and leaves the queue's lock free.
\<close>

theorem kqueue_wait_returns_oldest:
  assumes "cur (sync w) = Some p" and "cpu_ok (sync w)" and "cpu_noff (mycpu (sync w)) = 0"
    and "lock_free Kq_lock (sync w)" and "lock_free (Proc_lock p) (sync w)"
    and "event_arrives p (w\<lparr>sync := acq Kq_lock (sync w)\<rparr>) q"
  shows "\<exists>w'. kqueue_wait_internal w = Ok (hd (kq_abs q), w') \<and> kq_inv (kq w') \<and> kq_abs (kq w') = tl (kq_abs q)
    \<and> kq_abs q \<noteq> [] \<and> lock_free Kq_lock (sync w') \<and> cpu_noff (mycpu (sync w')) = 0"
proof -
  have "in_crit p Kq_lock (sync (w\<lparr>sync := acq Kq_lock (sync w)\<rparr>))"
    using in_crit_acq assms by simp
  from wait_loop_arrives [OF assms(6) this] obtain w1 where w1:
    "while_res (\<lambda>w. kq_count (kq w) = 0) (sleep Ch_kq Kq_lock) (w\<lparr>sync := acq Kq_lock (sync w)\<rparr>) = Ok w1"
    "in_crit p Kq_lock (sync w1)" "kq w1 = q" "kq_inv q" "kq_count q \<noteq> 0" by auto
  have ne: "kq_abs q \<noteq> []" using w1(4,5) by (simp add: kq_abs_def kq_inv_def)
  from kqr.take_front [OF w1(4) ne] obtain q' where g: "kq_get q = (hd (kq_abs q), q')" "kq_inv q'" "kq_abs q' = tl (kq_abs q)"
    by (cases "kq_get q") auto
  have "kqueue_wait_internal w = Ok (hd (kq_abs q), w1\<lparr>kq := q', sync := rel Kq_lock (sync w1)\<rparr>)"
    using assms w1(1,3) g(1) in_crit_release(1) [OF w1(2), of "w1\<lparr>kq := q'\<rparr>"]
    by (simp add: kqueue_wait_internal_def lock_simps)
  with g ne in_crit_release [OF w1(2)] show ?thesis by simp
qed

text \<open>While process 0 sleeps, another process posts an event with pid 6.\<close>

definition poster :: "nat \<Rightarrow> kernel \<Rightarrow> kernel option" where
  "poster n k = Some (k\<lparr>kq := kq_put (new_event (cstr ''write'') 6 (mtime k) zero_event) (kq k)\<rparr>)"

theorem kqueue_wait_returns_oldest_witness:
  "\<exists>e w'. kqueue_wait_internal (run_world poster) = Ok (e, w') \<and> ev_pid e = 6"
proof -
  let ?w = "(run_world poster)\<lparr>sync := acq Kq_lock (sync (run_world poster))\<rparr>"
  let ?e = "new_event (cstr ''write'') 6 0 zero_event"
  let ?k = "kernel.truncate (asleep Ch_kq 0 Kq_lock ?w)"
  let ?k' = "?k\<lparr>kq := kq_put ?e (kq (run_world poster))\<rparr>"
  have kqk: "kq ?k = kq (run_world poster)" "mtime ?k = 0" "sync ?k = rel Kq_lock (acq (Proc_lock 0) (acq Kq_lock (sync (run_world poster))))"
    by (simp_all add: kernel.truncate_def asleep_def upd_proc_def)
  have crit: "in_crit 0 Kq_lock (acq Kq_lock (sync (run_world poster)))" by (rule in_crit_acq) simp_all
  have envk: "env ?w (nsw ?w) ?k = Some ?k'" by (simp add: poster_def kqk)
  have res: "resumed 0 Kq_lock (sync ?k')"
    using in_crit_asleep [OF crit] unfolding resumed_def
    by (simp add: kqk) (simp add: sync_defs others_free_def Let_def run_world_def boot_world_def boot_sync_def)
  have q: "kq (after_sleep Ch_kq 0 Kq_lock ?w ?k') = kq_put ?e (kq (run_world poster))"
    by (simp add: after_sleep_def Let_def slept_def upd_proc_def)
  have room: "kq_inv (kq_put ?e (kq (run_world poster)))" "kq_abs (kq_put ?e (kq (run_world poster))) = [?e]"
    "kq_count (kq_put ?e (kq (run_world poster))) \<noteq> 0"
    using kq_put_room [of "kq (run_world poster)" ?e]
    by (simp_all add: kq_inv_def NEVENT_def kq_abs_def kq_put_def)
  have "event_arrives 0 ?w (kq_put ?e (kq (run_world poster)))"
    by (rule later [OF _ envk res]) (use here [of "after_sleep Ch_kq 0 Kq_lock ?w ?k'" 0] q room in simp_all)
  from kqueue_wait_returns_oldest [of "run_world poster" 0, OF _ _ _ _ _ this] room(2)
  show ?thesis by (auto simp: new_event_def)
qed

end
