(* ===== verification/Xv6_Sleeplock.thy ===== *)
theory Xv6_Sleeplock
  imports Xv6_Kqueue
begin

text \<open>
  \<^verbatim>\<open>kernel/sleeplock.c\<close>: locks a process may hold across a sleep, kept in the table \<open>slks\<close>. Each has an
  inner spin lock, \<open>Sleep_lk\<close>, and is its own wait channel.
\<close>

definition upd_slk :: "sleepid \<Rightarrow> (sleeplock \<Rightarrow> sleeplock) \<Rightarrow> world \<Rightarrow> world" where
  "upd_slk l f w = w\<lparr>slks := (slks w)(l := f (slks w l))\<rparr>"

definition initsleeplock :: "sleepid \<Rightarrow> string \<Rightarrow> world \<Rightarrow> world" where
  "initsleeplock l nm w =
     upd_slk l (\<lambda>_. \<lparr>sl_locked = 0, sl_name = nm, sl_pid = 0\<rparr>) (initlock (Sleep_lk l) ''sleep lock'' w)"

definition acquiresleep :: "sleepid \<Rightarrow> world \<Rightarrow> world res" where
  "acquiresleep l w =
     bnd (acquire (Sleep_lk l) w) (\<lambda>w.
     bnd (while_res (\<lambda>w. sl_locked (slks w l) \<noteq> 0) (sleep (Ch_sleeplock l) (Sleep_lk l)) w) (\<lambda>w.
     let w = upd_slk l (sl_locked_update (\<lambda>_. 1)) w
     in bnd (myproc_deref w) (\<lambda>(p, w).
        release (Sleep_lk l) (upd_slk l (sl_pid_update (\<lambda>_. p_pid (procs w p))) w))))"

definition releasesleep :: "sleepid \<Rightarrow> world \<Rightarrow> world res" where
  "releasesleep l w =
     bnd (acquire (Sleep_lk l) w) (\<lambda>w.
     bnd (wakeup (Some (Ch_sleeplock l)) (upd_slk l (\<lambda>k. k\<lparr>sl_locked := 0, sl_pid := 0\<rparr>) w)) (\<lambda>w.
     release (Sleep_lk l) w))"

definition holdingsleep :: "sleepid \<Rightarrow> world \<Rightarrow> (bool \<times> world) res" where
  "holdingsleep l w =
     bnd (acquire (Sleep_lk l) w) (\<lambda>w.
     bnd (if sl_locked (slks w l) = 0 then Ok (False, w)
          else bnd (myproc_deref w) (\<lambda>(p, w). Ok (sl_pid (slks w l) = p_pid (procs w p), w))) (\<lambda>(r, w).
     bnd (release (Sleep_lk l) w) (\<lambda>w. Ok (r, w))))"

section \<open>Waiting in a loop\<close>

text \<open>
  \<open>waits p ch lk C w w'\<close>: process \<open>p\<close>, holding \<open>lk\<close> in \<open>w\<close>, sleeps on \<open>ch\<close> while \<open>C\<close> holds, is resumed each
  time, and finds \<open>C\<close> false in \<open>w'\<close>.
\<close>

inductive waits :: "nat \<Rightarrow> wchan \<Rightarrow> lockid \<Rightarrow> (world \<Rightarrow> bool) \<Rightarrow> world \<Rightarrow> world \<Rightarrow> bool" for p ch lk C where
  no_wait: "\<not> C w \<Longrightarrow> waits p ch lk C w w"
| waited: "C w \<Longrightarrow> env w (nsw w) (kernel.truncate (asleep ch p lk w)) = Some k \<Longrightarrow> resumed p lk (sync k) \<Longrightarrow>
     waits p ch lk C (after_sleep ch p lk w k) w' \<Longrightarrow> waits p ch lk C w w'"

lemma waits_loop:
  assumes "waits p ch lk C w w'" "in_crit p lk (sync w)" "lk \<noteq> Proc_lock p"
  shows "while_res C (sleep ch lk) w = Ok w' \<and> in_crit p lk (sync w') \<and> \<not> C w'"
  using assms
proof (induction rule: waits.induct)
  case (waited w k w')
  note s = sleep_resumes [OF waited.prems waited.hyps(2,3)]
  from waited.IH [OF s(2) waited.prems(2)] waited.hyps(1) s(1) show ?case by (subst while_res_unfold) simp
qed simp

section \<open>Taking and giving back a sleep lock\<close>

text \<open>The running thread is process \<open>p\<close> and holds no spin lock; nor does anyone else hold one.\<close>

definition calm :: "nat \<Rightarrow> sync \<Rightarrow> bool" where
  "calm p s \<longleftrightarrow> cur s = Some p \<and> cpu_ok s \<and> cpu_noff (mycpu s) = 0 \<and> (\<forall>lk. lock_free lk s)"

lemma calmD [dest]:
  assumes "calm p s"
  shows "cur s = Some p" "cpu_ok s" "cpu_noff (mycpu s) = 0" "lock_free lk s" "others_free s"
  using assms by (auto simp: calm_def others_free_def)

lemma calm_simps [lock_simps]:
  "calm p (settle s) = calm p s"
  by (simp add: calm_def lock_simps)

text \<open>If nothing changed while it was switched out, the thread may resume.\<close>

lemma calm_resumed:
  assumes "calm p s" "lk \<noteq> Proc_lock p"
  shows "resumed p lk (rel lk (acq (Proc_lock p) (acq lk s)))"
  using assms by (auto simp: resumed_def calm_def others_free_def sync_defs Let_def)

definition owns :: "nat \<Rightarrow> sleepid \<Rightarrow> world \<Rightarrow> bool" where
  "owns p l w \<longleftrightarrow> sl_locked (slks w l) \<noteq> 0 \<and> sl_pid (slks w l) = p_pid (procs w p)"

definition taken_by :: "int \<Rightarrow> sleeplock \<Rightarrow> sleeplock" where
  "taken_by pid k = k\<lparr>sl_locked := 1, sl_pid := pid\<rparr>"

lemma acquiresleep_free:
  assumes "calm p (sync w)" "sl_locked (slks w l) = 0"
  shows "acquiresleep l w = Ok (w\<lparr>sync := settle (sync w), slks := (slks w)(l := taken_by (p_pid (procs w p)) (slks w l))\<rparr>)"
  using assms(2) calmD [OF assms(1)]
  by (simp add: acquiresleep_def lock_simps while_res_unfold myproc_deref_def upd_slk_def taken_by_def)

lemma holdingsleep_eq:
  assumes "calm p (sync w)"
  shows "holdingsleep l w = Ok (owns p l w, w\<lparr>sync := settle (sync w)\<rparr>)"
  using calmD [OF assms]
  by (simp add: holdingsleep_def lock_simps myproc_deref_def owns_def)

lemma releasesleep_eq:
  assumes "calm p (sync w)"
  shows "releasesleep l w = Ok (w\<lparr>sync := settle (sync w), slks := (slks w)(l := (slks w l)\<lparr>sl_locked := 0, sl_pid := 0\<rparr>),
     procs := woken (Some (Ch_sleeplock l)) (Some p) (procs w)\<rparr>)"
  using calmD [OF assms]
  by (simp add: releasesleep_def lock_simps upd_slk_def)

text \<open>
  C17: \<^verbatim>\<open>acquiresleep\<close> returns only as the owner, and returns: a process that finds the lock free, or is
  resumed each time it sleeps until it finds it free, gets out of \<open>acquiresleep\<close> with the lock taken in
  its own name, so that \<^verbatim>\<open>holdingsleep\<close> is true for it, and with no spin lock held.
\<close>

theorem acquiresleep_owns:
  assumes "cur (sync w) = Some p" and "cpu_ok (sync w)" and "cpu_noff (mycpu (sync w)) = 0"
    and "lock_free (Sleep_lk l) (sync w)" and "lock_free (Proc_lock p) (sync w)"
    and "waits p (Ch_sleeplock l) (Sleep_lk l) (\<lambda>w. sl_locked (slks w l) \<noteq> 0) (w\<lparr>sync := acq (Sleep_lk l) (sync w)\<rparr>) w1"
  shows "\<exists>w'. acquiresleep l w = Ok w' \<and> sl_locked (slks w1 l) = 0 \<and> owns p l w'
    \<and> w' = w1\<lparr>sync := sync w', slks := (slks w1)(l := taken_by (p_pid (procs w1 p)) (slks w1 l))\<rparr>
    \<and> lock_free (Sleep_lk l) (sync w') \<and> cpu_noff (mycpu (sync w')) = 0
    \<and> holdingsleep l w' = Ok (True, w'\<lparr>sync := settle (sync w')\<rparr>)"
proof -
  have "in_crit p (Sleep_lk l) (sync (w\<lparr>sync := acq (Sleep_lk l) (sync w)\<rparr>))"
    using in_crit_acq assms by simp
  from waits_loop [OF assms(6) this] have w1:
    "while_res (\<lambda>w. sl_locked (slks w l) \<noteq> 0) (sleep (Ch_sleeplock l) (Sleep_lk l)) (w\<lparr>sync := acq (Sleep_lk l) (sync w)\<rparr>) = Ok w1"
    "in_crit p (Sleep_lk l) (sync w1)" "sl_locked (slks w1 l) = 0" by auto
  let ?w = "w1\<lparr>slks := (slks w1)(l := taken_by (p_pid (procs w1 p)) (slks w1 l))\<rparr>"
  let ?w' = "?w\<lparr>sync := rel (Sleep_lk l) (sync w1)\<rparr>"
  have c: "cur (sync w1) = Some p" "cpu_ok (sync w1)" "settle (sync w1) = sync w1"
    using w1(2) by (auto simp: in_crit_def settle_def)
  note r = in_crit_release [OF w1(2)]
  have "release (Sleep_lk l) ?w = Ok ?w'" using r(1) [of ?w] by simp
  then have a: "acquiresleep l w = Ok ?w'"
    using assms(4) w1(1) c by (simp add: acquiresleep_def lock_simps upd_slk_def myproc_deref_def taken_by_def)
  have "holdingsleep l ?w' = Ok (True, ?w'\<lparr>sync := settle (sync ?w')\<rparr>)"
    using r by (simp add: holdingsleep_def lock_simps myproc_deref_def taken_by_def)
  with a r w1(3) show ?thesis by (intro exI [of _ ?w']) (simp add: owns_def taken_by_def)
qed

text \<open>While process 0 sleeps, the owner of the lock gives it back.\<close>

definition lender :: "nat \<Rightarrow> kernel \<Rightarrow> kernel option" where
  "lender n k = Some (k\<lparr>slks := (\<lambda>l. (slks k l)\<lparr>sl_locked := 0\<rparr>)\<rparr>)"

theorem acquiresleep_owns_witness:
  "\<exists>w'. acquiresleep (Buf_lock 2) ((run_world lender)\<lparr>slks := (\<lambda>_. \<lparr>sl_locked = 1, sl_name = [], sl_pid = 9\<rparr>)\<rparr>) = Ok w'
     \<and> sl_pid (slks w' (Buf_lock 2)) = 3"
proof -
  let ?l = "Buf_lock 2"
  define w0 where "w0 = (run_world lender)\<lparr>slks := (\<lambda>_. \<lparr>sl_locked = 1, sl_name = [], sl_pid = 9\<rparr>)\<rparr>"
  have w0: "sync w0 = sync (run_world lender)" "procs w0 = procs (run_world lender)" "env w0 = lender"
    "slks w0 = (\<lambda>_. \<lparr>sl_locked = 1, sl_name = [], sl_pid = 9\<rparr>)" by (simp_all add: w0_def)
  let ?w = "w0\<lparr>sync := acq (Sleep_lk ?l) (sync w0)\<rparr>"
  define k where "k = kernel.truncate (asleep (Ch_sleeplock ?l) 0 (Sleep_lk ?l) ?w)"
  let ?k' = "k\<lparr>slks := (\<lambda>l. (slks k l)\<lparr>sl_locked := 0\<rparr>)\<rparr>"
  let ?w1 = "after_sleep (Ch_sleeplock ?l) 0 (Sleep_lk ?l) ?w ?k'"
  have k: "sync k = rel (Sleep_lk ?l) (acq (Proc_lock 0) (acq (Sleep_lk ?l) (sync w0)))"
    "procs k = (procs w0)(0 := (procs w0 0)\<lparr>p_chan := Some (Ch_sleeplock ?l), p_state := SLEEPING\<rparr>)"
    by (simp_all add: k_def kernel.truncate_def asleep_def upd_proc_def)
  have envk: "env ?w (nsw ?w) (kernel.truncate (asleep (Ch_sleeplock ?l) 0 (Sleep_lk ?l) ?w)) = Some ?k'"
    by (simp add: lender_def w0 k_def)
  have calm: "calm 0 (sync w0)" by (simp add: calm_def w0)
  from calm_resumed [OF this] have res: "resumed 0 (Sleep_lk ?l) (sync ?k')" using k(1) by simp
  have s1: "slks ?w1 = slks ?k'" "p_pid (procs ?w1 0) = 3"
    by (simp_all add: after_sleep_def slept_def Let_def posted_def upd_proc_def thread_of_def kernel.extend_def k w0
        woken_def wake1_def)
  have "waits 0 (Ch_sleeplock ?l) (Sleep_lk ?l) (\<lambda>w. sl_locked (slks w ?l) \<noteq> 0) ?w ?w1"
    by (rule waited [OF _ envk res no_wait]) (simp add: w0, simp add: s1)
  from acquiresleep_owns [OF _ _ _ _ _ this] calmD [OF calm] obtain w' where
    w': "acquiresleep ?l w0 = Ok w'" "w' = ?w1\<lparr>sync := sync w', slks := (slks ?w1)(?l := taken_by (p_pid (procs ?w1 0)) (slks ?w1 ?l))\<rparr>" by auto
  have "sl_pid (slks w' ?l) = 3" by (subst w'(2)) (simp add: taken_by_def s1(2))
  with w'(1) show ?thesis by (simp add: w0_def)
qed

end
