(* ===== verification/Xv6_Virtio.thy ===== *)
theory Xv6_Virtio
  imports Xv6_Sleeplock
begin

text \<open>
  \<^verbatim>\<open>kernel/virtio_disk.c\<close>: the driver of the virtio block device. The three ring pages are typed
  state (\<open>vdisk\<close>); the device itself acts only when the rest of the system runs.
\<close>

unbundle bit_operations_syntax

section \<open>Registers and state\<close>

definition vread :: "u32 \<Rightarrow> world \<Rightarrow> u32 \<times> world" where
  "vread r w = (let (v, d) = io_get r (virtio w) in (v, w\<lparr>virtio := d\<rparr>))"

definition vwrite :: "u32 \<Rightarrow> u32 \<Rightarrow> world \<Rightarrow> world" where
  "vwrite r v w = w\<lparr>virtio := io_put r v (virtio w)\<rparr>"

definition VRING_DESC_F_NEXT :: u16 where "VRING_DESC_F_NEXT = 1"
definition VRING_DESC_F_WRITE :: u16 where "VRING_DESC_F_WRITE = 2"
definition VIRTIO_BLK_T_IN :: u32 where "VIRTIO_BLK_T_IN = 0"
definition VIRTIO_BLK_T_OUT :: u32 where "VIRTIO_BLK_T_OUT = 1"
definition VIRTIO_MMIO_STATUS :: u32 where "VIRTIO_MMIO_STATUS = 0x070"
definition VIRTIO_MMIO_QUEUE_NOTIFY :: u32 where "VIRTIO_MMIO_QUEUE_NOTIFY = 0x050"
definition VIRTIO_MMIO_INTERRUPT_STATUS :: u32 where "VIRTIO_MMIO_INTERRUPT_STATUS = 0x060"
definition VIRTIO_MMIO_INTERRUPT_ACK :: u32 where "VIRTIO_MMIO_INTERRUPT_ACK = 0x064"
definition VIRTIO_MMIO_QUEUE_READY :: u32 where "VIRTIO_MMIO_QUEUE_READY = 0x044"

definition upd_vd :: "(vdisk \<Rightarrow> vdisk) \<Rightarrow> world \<Rightarrow> world" where
  "upd_vd f w = w\<lparr>fs := (fs w)\<lparr>vdisk := f (vdisk (fs w))\<rparr>\<rparr>"

definition upd_buf :: "nat \<Rightarrow> (buf \<Rightarrow> buf) \<Rightarrow> world \<Rightarrow> world" where
  "upd_buf b f w = w\<lparr>fs := (fs w)\<lparr>bufs := (bufs (fs w))(b := f (bufs (fs w) b))\<rparr>\<rparr>"

abbreviation the_buf :: "world \<Rightarrow> nat \<Rightarrow> buf" where
  "the_buf w b \<equiv> bufs (fs w) b"

abbreviation vd :: "world \<Rightarrow> vdisk" where
  "vd w \<equiv> vdisk (fs w)"

definition zero_desc :: virtq_desc where
  "zero_desc = \<lparr>vq_addr = Dma_null, vq_len = 0, vq_flags = 0, vq_next = 0\<rparr>"

section \<open>Initialisation\<close>

text \<open>Is it a virtio block device, and does it accept the features? (The status bits written are 1, 3, 11.)\<close>

definition virtio_negotiate :: "world \<Rightarrow> (u32 \<times> world) res" where
  "virtio_negotiate w =
     (let (magic, w) = vread 0x000 w
      in if magic \<noteq> 0x74726976 then Panic ''could not find virtio disk'' else
      let (version, w) = vread 0x004 w
      in if version \<noteq> 2 then Panic ''could not find virtio disk'' else
      let (device, w) = vread 0x008 w
      in if device \<noteq> 2 then Panic ''could not find virtio disk'' else
      let (vendor, w) = vread 0x00c w
      in if vendor \<noteq> 0x554d4551 then Panic ''could not find virtio disk'' else
      let w = vwrite VIRTIO_MMIO_STATUS 0 w;
          w = vwrite VIRTIO_MMIO_STATUS 1 w;
          w = vwrite VIRTIO_MMIO_STATUS (1 OR 2) w;
          (features, w) = vread 0x010 w;
          features = fold (\<lambda>k f. f AND NOT (push_bit k 1)) [5, 7, 11, 12, 27, 29, 28] features;
          w = vwrite 0x020 features w;
          w = vwrite VIRTIO_MMIO_STATUS (1 OR 2 OR 8) w;
          (status, w) = vread VIRTIO_MMIO_STATUS w
      in if status AND 8 = 0 then Panic ''virtio disk FEATURES_OK unset'' else Ok (status, w))"

definition virtio_queue_check :: "world \<Rightarrow> world res" where
  "virtio_queue_check w =
     (let w = vwrite 0x030 0 w;
          (ready, w) = vread VIRTIO_MMIO_QUEUE_READY w
      in if ready \<noteq> 0 then Panic ''virtio disk should not be ready'' else
      let (mx, w) = vread 0x034 w
      in if mx = 0 then Panic ''virtio disk has no queue 0''
         else if mx < of_nat NUM then Panic ''virtio disk max queue too short''
         else Ok w)"

definition virtio_disk_init :: "world \<Rightarrow> world res" where
  "virtio_disk_init w =
     bnd (virtio_negotiate (initlock Vdisk_lock ''virtio_disk'' w)) (\<lambda>(status, w).
     bnd (virtio_queue_check w) (\<lambda>w.
     bnd (kalloc w) (\<lambda>(desc, w).
     bnd (kalloc w) (\<lambda>(avail, w).
     bnd (kalloc w) (\<lambda>(used, w).
     if desc = 0 \<or> avail = 0 \<or> used = 0 then Panic ''virtio disk kalloc''
     else let w = upd_vd (\<lambda>d. d\<lparr>vd_pages := (desc, avail, used), vd_desc := (\<lambda>_. zero_desc),
                   vd_avail_idx := 0, vd_avail_ring := (\<lambda>_. 0), vd_used_idx_dev := 0,
                   vd_used_ring := (\<lambda>_. 0)\<rparr>) w;
              w = vwrite 0x038 (of_nat NUM) w;
              w = vwrite 0x080 (ucast desc) w;
              w = vwrite 0x084 (ucast (drop_bit 32 desc)) w;
              w = vwrite 0x090 (ucast avail) w;
              w = vwrite 0x094 (ucast (drop_bit 32 avail)) w;
              w = vwrite 0x0a0 (ucast used) w;
              w = vwrite 0x0a4 (ucast (drop_bit 32 used)) w;
              w = vwrite VIRTIO_MMIO_QUEUE_READY 1 w;
              w = upd_vd (\<lambda>d. d\<lparr>vd_free := fold (\<lambda>i f. f(i := True)) [0..<NUM] (vd_free d)\<rparr>) w
          in Ok (vwrite VIRTIO_MMIO_STATUS (status OR 4) w))))))"

section \<open>Descriptors\<close>

definition alloc_desc :: "world \<Rightarrow> nat option \<times> world" where
  "alloc_desc w =
     (case List.find (vd_free (vd w)) [0..<NUM] of
        Some i \<Rightarrow> (Some i, upd_vd (\<lambda>d. d\<lparr>vd_free := (vd_free d)(i := False)\<rparr>) w)
      | None \<Rightarrow> (None, w))"

definition free_desc :: "nat \<Rightarrow> world \<Rightarrow> world res" where
  "free_desc i w =
     (if i \<ge> NUM then Panic ''free_desc 1''
      else if vd_free (vd w) i then Panic ''free_desc 2''
      else wakeup (Some Ch_disk_free)
             (upd_vd (\<lambda>d. d\<lparr>vd_desc := (vd_desc d)(i := zero_desc),
                           vd_free := (vd_free d)(i := True)\<rparr>) w))"

definition free_chain_step :: "nat \<times> world \<Rightarrow> (world, nat \<times> world) ctl res" where
  "free_chain_step = (\<lambda>(i, w).
     let flag = vq_flags (vd_desc (vd w) i); nxt = vq_next (vd_desc (vd w) i)
     in bnd (free_desc i w) (\<lambda>w.
        Ok (if flag AND VRING_DESC_F_NEXT \<noteq> 0 then Next (unat nxt, w) else Done w)))"

definition free_chain :: "nat \<Rightarrow> world \<Rightarrow> world res" where
  "free_chain i w = loop_res free_chain_step (i, w)"

primrec alloc3_loop :: "nat \<Rightarrow> nat list \<Rightarrow> world \<Rightarrow> (nat list option \<times> world) res" where
  "alloc3_loop 0 idx w = Ok (Some idx, w)"
| "alloc3_loop (Suc k) idx w =
     (let (i, w) = alloc_desc w
      in case i of
           Some i \<Rightarrow> alloc3_loop k (idx @ [i]) w
         | None \<Rightarrow> bnd (foreach free_desc idx w) (\<lambda>w. Ok (None, w)))"

definition alloc3_desc :: "world \<Rightarrow> (nat list option \<times> world) res" where
  "alloc3_desc w = alloc3_loop 3 [] w"

section \<open>Requests and completions\<close>

definition rw_alloc_step :: "world \<Rightarrow> (nat list \<times> world, world) ctl res" where
  "rw_alloc_step w =
     bnd (alloc3_desc w) (\<lambda>(idx, w).
     case idx of
       Some idx \<Rightarrow> Ok (Done (idx, w))
     | None \<Rightarrow> bnd (sleep Ch_disk_free Vdisk_lock w) (\<lambda>w. Ok (Next w)))"

definition rw_format :: "nat \<Rightarrow> bool \<Rightarrow> u64 \<Rightarrow> nat \<Rightarrow> nat \<Rightarrow> nat \<Rightarrow> vdisk \<Rightarrow> vdisk" where
  "rw_format b wr sector i0 i1 i2 d =
     (let d = d\<lparr>vd_ops := (vd_ops d)(i0 :=
                \<lparr>vr_type = (if wr then VIRTIO_BLK_T_OUT else VIRTIO_BLK_T_IN), vr_reserved = 0,
                 vr_sector = sector\<rparr>)\<rparr>;
          d = d\<lparr>vd_desc := (vd_desc d)(i0 := \<lparr>vq_addr = Dma_op i0, vq_len = 16,
                vq_flags = VRING_DESC_F_NEXT, vq_next = of_nat i1\<rparr>)\<rparr>;
          d = d\<lparr>vd_desc := (vd_desc d)(i1 := \<lparr>vq_addr = Dma_data b, vq_len = of_nat BSIZE,
                vq_flags = (if wr then 0 else VRING_DESC_F_WRITE) OR VRING_DESC_F_NEXT,
                vq_next = of_nat i2\<rparr>)\<rparr>;
          d = d\<lparr>vd_info_status := (vd_info_status d)(i0 := 0xff)\<rparr>
      in d\<lparr>vd_desc := (vd_desc d)(i2 := \<lparr>vq_addr = Dma_status i0, vq_len = 1,
                vq_flags = VRING_DESC_F_WRITE, vq_next = 0\<rparr>)\<rparr>)"

definition virtio_disk_rw :: "nat \<Rightarrow> bool \<Rightarrow> world \<Rightarrow> world res" where
  "virtio_disk_rw b wr w =
     (let sector = ucast (b_blockno (the_buf w b) * 2) :: u64
      in bnd (acquire Vdisk_lock w) (\<lambda>w.
         bnd (loop_res rw_alloc_step w) (\<lambda>(idx, w).
         let w = upd_vd (rw_format b wr sector (idx ! 0) (idx ! 1) (idx ! 2)) w;
             w = upd_buf b (b_disk_update (\<lambda>_. 1)) w;
             w = upd_vd (\<lambda>d. d\<lparr>vd_info_b := (vd_info_b d)(idx ! 0 := Some b)\<rparr>) w;
             w = upd_vd (\<lambda>d. d\<lparr>vd_avail_ring :=
                   (vd_avail_ring d)(unat (vd_avail_idx d) mod NUM := of_nat (idx ! 0))\<rparr>) w;
             w = upd_vd (\<lambda>d. d\<lparr>vd_avail_idx := vd_avail_idx d + 1\<rparr>) w;
             w = vwrite VIRTIO_MMIO_QUEUE_NOTIFY 0 w
         in bnd (while_res (\<lambda>w. b_disk (the_buf w b) = 1) (sleep (Ch_buf b) Vdisk_lock) w) (\<lambda>w.
            let w = upd_vd (\<lambda>d. d\<lparr>vd_info_b := (vd_info_b d)(idx ! 0 := None)\<rparr>) w
            in bnd (free_chain (idx ! 0) w) (\<lambda>w.
               release Vdisk_lock w)))))"

definition virtio_intr_step :: "world \<Rightarrow> world res" where
  "virtio_intr_step w =
     (let id = unat (vd_used_ring (vd w) (unat (vd_used_idx (vd w)) mod NUM))
      in if vd_info_status (vd w) id \<noteq> 0 then Panic ''virtio_disk_intr status''
         else case vd_info_b (vd w) id of
                None \<Rightarrow> Panic ''kerneltrap''
              | Some b \<Rightarrow>
                  bnd (wakeup (Some (Ch_buf b)) (upd_buf b (b_disk_update (\<lambda>_. 0)) w)) (\<lambda>w.
                  Ok (upd_vd (\<lambda>d. d\<lparr>vd_used_idx := vd_used_idx d + 1\<rparr>) w)))"

definition virtio_disk_intr :: "world \<Rightarrow> world res" where
  "virtio_disk_intr w =
     bnd (acquire Vdisk_lock w) (\<lambda>w.
     let (st, w) = vread VIRTIO_MMIO_INTERRUPT_STATUS w;
         w = vwrite VIRTIO_MMIO_INTERRUPT_ACK (st AND 3) w
     in bnd (while_res (\<lambda>w. vd_used_idx (vd w) \<noteq> vd_used_idx_dev (vd w)) virtio_intr_step w) (\<lambda>w.
        release Vdisk_lock w))"

end
