(* ===== verification/Xv6_Bio.thy ===== *)
theory Xv6_Bio
  imports Xv6_Virtio
begin

text \<open>
  \<^verbatim>\<open>kernel/bio.c\<close>: the buffer cache, a circular doubly linked list of buffers in order of last use.
\<close>

section \<open>The list\<close>

text \<open>The list is threaded through \<open>b_prev\<close> and \<open>b_next\<close>; buffer \<open>NBUF\<close> is its head.\<close>

definition set_next :: "nat \<Rightarrow> nat \<Rightarrow> world \<Rightarrow> world" where
  "set_next b x w = upd_buf b (b_next_update (\<lambda>_. x)) w"

definition set_prev :: "nat \<Rightarrow> nat \<Rightarrow> world \<Rightarrow> world" where
  "set_prev b x w = upd_buf b (b_prev_update (\<lambda>_. x)) w"

definition binit_step :: "nat \<Rightarrow> world \<Rightarrow> world" where
  "binit_step b w =
     (let w = set_next b (b_next (the_buf w NBUF)) w;
          w = set_prev b NBUF w;
          w = initsleeplock (Buf_lock b) ''buffer'' w;
          w = set_prev (b_next (the_buf w NBUF)) b w
      in set_next NBUF b w)"

definition binit :: "world \<Rightarrow> world" where
  "binit w =
     (let w = initlock Bcache_lock ''bcache'' w;
          w = set_prev NBUF NBUF w;
          w = set_next NBUF NBUF w
      in fold binit_step [0..<NBUF] w)"

section \<open>Operations\<close>

text \<open>The two searches of \<^verbatim>\<open>bget\<close>: forward for the block, then backward for an unused buffer.\<close>

definition bget_find :: "u32 \<Rightarrow> u32 \<Rightarrow> world \<Rightarrow> nat \<Rightarrow> (nat option, nat) ctl res" where
  "bget_find dev blockno w b =
     (if b = NBUF then Ok (Done None)
      else if b_dev (the_buf w b) = dev \<and> b_blockno (the_buf w b) = blockno then Ok (Done (Some b))
      else Ok (Next (b_next (the_buf w b))))"

definition bget_lru :: "world \<Rightarrow> nat \<Rightarrow> (nat option, nat) ctl res" where
  "bget_lru w b =
     (if b = NBUF then Ok (Done None)
      else if b_refcnt (the_buf w b) = 0 then Ok (Done (Some b))
      else Ok (Next (b_prev (the_buf w b))))"

definition bget :: "u32 \<Rightarrow> u32 \<Rightarrow> world \<Rightarrow> (nat \<times> world) res" where
  "bget dev blockno w =
     bnd (acquire Bcache_lock w) (\<lambda>w.
     bnd (loop_res (bget_find dev blockno w) (b_next (the_buf w NBUF))) (\<lambda>f.
     case f of
       Some b \<Rightarrow>
         bnd (release Bcache_lock (upd_buf b (\<lambda>x. x\<lparr>b_refcnt := b_refcnt x + 1\<rparr>) w)) (\<lambda>w.
         bnd (acquiresleep (Buf_lock b) w) (\<lambda>w. Ok (b, w)))
     | None \<Rightarrow>
         bnd (loop_res (bget_lru w) (b_prev (the_buf w NBUF))) (\<lambda>f.
         case f of
           Some b \<Rightarrow>
             bnd (release Bcache_lock (upd_buf b (\<lambda>x. x\<lparr>b_dev := dev, b_blockno := blockno, b_valid := 0,
                    b_refcnt := 1\<rparr>) w)) (\<lambda>w.
             bnd (acquiresleep (Buf_lock b) w) (\<lambda>w. Ok (b, w)))
         | None \<Rightarrow> Panic ''bget: no buffers'')))"

definition bread :: "u32 \<Rightarrow> u32 \<Rightarrow> world \<Rightarrow> (nat \<times> world) res" where
  "bread dev blockno w =
     bnd (bget dev blockno w) (\<lambda>(b, w).
     if b_valid (the_buf w b) = 0
     then bnd (virtio_disk_rw b False w) (\<lambda>w. Ok (b, upd_buf b (b_valid_update (\<lambda>_. 1)) w))
     else Ok (b, w))"

definition bwrite :: "nat \<Rightarrow> world \<Rightarrow> world res" where
  "bwrite b w =
     bnd (holdingsleep (Buf_lock b) w) (\<lambda>(h, w).
     if \<not> h then Panic ''bwrite'' else virtio_disk_rw b True w)"

text \<open>Moving an unused buffer to the front of the list.\<close>

definition brelse_move :: "nat \<Rightarrow> world \<Rightarrow> world" where
  "brelse_move b w =
     (let w = set_prev (b_next (the_buf w b)) (b_prev (the_buf w b)) w;
          w = set_next (b_prev (the_buf w b)) (b_next (the_buf w b)) w;
          w = set_next b (b_next (the_buf w NBUF)) w;
          w = set_prev b NBUF w;
          w = set_prev (b_next (the_buf w NBUF)) b w
      in set_next NBUF b w)"

definition brelse :: "nat \<Rightarrow> world \<Rightarrow> world res" where
  "brelse b w =
     bnd (holdingsleep (Buf_lock b) w) (\<lambda>(h, w).
     if \<not> h then Panic ''brelse''
     else bnd (releasesleep (Buf_lock b) w) (\<lambda>w.
          bnd (acquire Bcache_lock w) (\<lambda>w.
          let w = upd_buf b (\<lambda>x. x\<lparr>b_refcnt := b_refcnt x - 1\<rparr>) w;
              w = (if b_refcnt (the_buf w b) = 0 then brelse_move b w else w)
          in release Bcache_lock w)))"

definition bpin :: "nat \<Rightarrow> world \<Rightarrow> world res" where
  "bpin b w =
     bnd (acquire Bcache_lock w) (\<lambda>w.
     release Bcache_lock (upd_buf b (\<lambda>x. x\<lparr>b_refcnt := b_refcnt x + 1\<rparr>) w))"

definition bunpin :: "nat \<Rightarrow> world \<Rightarrow> world res" where
  "bunpin b w =
     bnd (acquire Bcache_lock w) (\<lambda>w.
     release Bcache_lock (upd_buf b (\<lambda>x. x\<lparr>b_refcnt := b_refcnt x - 1\<rparr>) w))"

section \<open>The list as a sequence\<close>

text \<open>
  The neighbours along a path from \<open>a\<close> through \<open>xs\<close> to \<open>c\<close>, and when two link fields agree with them.
\<close>

fun hops :: "nat \<Rightarrow> nat list \<Rightarrow> nat \<Rightarrow> (nat \<times> nat) list" where
  "hops a [] c = [(a, c)]"
| "hops a (x # xs) c = (a, x) # hops x xs c"

definition linked :: "(nat \<Rightarrow> nat) \<Rightarrow> (nat \<Rightarrow> nat) \<Rightarrow> (nat \<times> nat) list \<Rightarrow> bool" where
  "linked nx pv = list_all (\<lambda>(x, y). nx x = y \<and> pv y = x)"

lemma linked_simps [simp]:
  "linked nx pv []" "linked nx pv ((x, y) # hs) \<longleftrightarrow> nx x = y \<and> pv y = x \<and> linked nx pv hs"
  "linked nx pv (hs @ hs') \<longleftrightarrow> linked nx pv hs \<and> linked nx pv hs'"
  by (auto simp: linked_def)

lemma linked_upd:
  "x \<notin> fst ` set hs \<Longrightarrow> linked (nx(x := z)) pv hs = linked nx pv hs"
  "x \<notin> snd ` set hs \<Longrightarrow> linked nx (pv(x := z)) hs = linked nx pv hs"
  by (induction hs) (auto simp: linked_def)

lemma hops_append: "hops a (xs @ y # ys) c = hops a xs y @ hops y ys c"
  by (induction xs arbitrary: a) auto

text \<open>Without its last hop, and without its first.\<close>

lemma hops_ends:
  "hops a xs c = zip (a # xs) xs @ [(last (a # xs), c)]"
  "hops a xs c = (a, hd (xs @ [c])) # zip xs (tl xs @ [c])"
proof -
  show "hops a xs c = zip (a # xs) xs @ [(last (a # xs), c)]"
    by (induction xs arbitrary: a) auto
  show "hops a xs c = (a, hd (xs @ [c])) # zip xs (tl xs @ [c])"
  proof (induction xs arbitrary: a)
    case (Cons x xs)
    then show ?case by (cases xs) auto
  qed simp
qed

lemma hops_middle: "hops a (us @ vs) c = zip (a # us) us @ [(last (a # us), hd (vs @ [c]))] @ zip vs (tl vs @ [c])"
proof (cases vs)
  case Nil
  then show ?thesis by (simp add: hops_ends(1))
next
  case (Cons v vs')
  have "hops a (us @ vs) c = hops a us v @ hops v vs' c" by (simp add: Cons hops_append)
  also have "hops a us v = zip (a # us) us @ [(last (a # us), v)]" by (rule hops_ends(1))
  also have "hops v vs' c = zip vs (tl vs @ [c])" using hops_ends(2) [of v vs' c] by (cases vs') (simp_all add: Cons)
  finally show ?thesis by (simp add: Cons)
qed

lemma fst_zip_sub: "x \<in> fst ` set (zip xs ys) \<Longrightarrow> x \<in> set xs"
  by (auto dest: set_zip_leftD)

lemma snd_zip_sub: "x \<in> snd ` set (zip xs ys) \<Longrightarrow> x \<in> set ys"
  by (auto dest: set_zip_rightD)

text \<open>Taking a node out of the list, and putting one at the front.\<close>

lemma linked_unlink:
  assumes "linked nx pv (hops H (us @ b # vs) H)" "distinct (H # us @ b # vs)"
  shows "linked (nx(pv b := nx b)) (pv(nx b := pv b)) (hops H (us @ vs) H)"
    "pv b \<noteq> b" "nx b \<noteq> b" "pv b = last (H # us)" "nx b = hd (vs @ [H])"
proof -
  let ?P = "zip (H # us) us" and ?Q = "zip vs (tl vs @ [H])"
  let ?p = "last (H # us)" and ?n = "hd (vs @ [H])"
  have "hops H (us @ b # vs) H = ?P @ [(?p, b), (b, ?n)] @ ?Q"
    using hops_ends(1) [of H us b] hops_ends(2) [of b vs H] by (simp add: hops_append)
  with assms(1) have l: "linked nx pv ?P" "nx ?p = b" "pv b = ?p" "nx b = ?n" "pv ?n = b" "linked nx pv ?Q" by simp_all
  have p: "?p \<in> set (H # us)" and n: "?n \<in> set (vs @ [H])" by (rule last_in_set, simp) (rule hd_in_set, simp)
  from p n assms(2) show "pv b \<noteq> b" "nx b \<noteq> b" using l(3,4) by auto
  have "?p \<notin> fst ` set ?P"
  proof (cases us rule: rev_cases)
    case (snoc us' z)
    then have "?P = zip (H # us') us" using zip_append1 [of "H # us'" "[z]" us] by simp
    moreover have "?p = z" "z \<notin> set (H # us')" using snoc assms(2) by auto
    ultimately show ?thesis using fst_zip_sub by metis
  qed simp
  moreover have "?p \<notin> set vs" using p assms(2) by auto
  then have "?p \<notin> fst ` set ?Q" using fst_zip_sub by metis
  moreover have "?n \<notin> set us" using n assms(2) by auto
  then have "?n \<notin> snd ` set ?P" using snd_zip_sub by metis
  moreover have "?n \<notin> snd ` set ?Q"
  proof (cases vs)
    case (Cons v vs')
    then show ?thesis using snd_zip_sub [of v vs "vs' @ [H]"] assms(2) by auto
  qed simp
  ultimately show "linked (nx(pv b := nx b)) (pv(nx b := pv b)) (hops H (us @ vs) H)"
    using l unfolding hops_middle l(3,4) by (simp only: linked_simps linked_upd fun_upd_same simp_thms append_Cons append_Nil)
  show "pv b = last (H # us)" "nx b = hd (vs @ [H])" by (rule l(3), rule l(4))
qed

lemma linked_insert:
  assumes "linked nx pv (hops H xs H)" "b \<notin> set (H # xs)" "distinct (H # xs)"
  shows "linked (nx(b := nx H, H := b)) (pv(b := H, nx H := b)) (hops H (b # xs) H)"
proof -
  let ?Q = "zip xs (tl xs @ [H])" and ?n = "hd (xs @ [H])"
  have l: "nx H = ?n" "linked nx pv ?Q" using assms(1) by (simp_all add: hops_ends(2) [of H xs])
  have "H \<notin> fst ` set ?Q" "b \<notin> fst ` set ?Q" using fst_zip_sub [of _ xs] assms(2,3) by auto
  moreover have "b \<notin> snd ` set ?Q" using snd_zip_sub [of b xs "tl xs @ [H]"] assms(2) by (cases xs) auto
  moreover have "?n \<notin> snd ` set ?Q"
  proof (cases xs)
    case (Cons v vs')
    then show ?thesis using snd_zip_sub [of v xs "vs' @ [H]"] assms(3) by auto
  qed simp
  moreover have "?n \<noteq> b" using assms(2) by (cases xs) auto
  moreover have "hops H (b # xs) H = (H, b) # (b, ?n) # ?Q" by (simp add: hops_ends(2) [of b xs])
  ultimately show ?thesis using l assms(2) by (simp add: linked_upd)
qed


section \<open>The list of the buffer cache\<close>

abbreviation nexts :: "world \<Rightarrow> nat \<Rightarrow> nat" where
  "nexts w \<equiv> \<lambda>b. b_next (the_buf w b)"

abbreviation prevs :: "world \<Rightarrow> nat \<Rightarrow> nat" where
  "prevs w \<equiv> \<lambda>b. b_prev (the_buf w b)"

text \<open>The list holds the buffers \<open>xs\<close>, most recently used first: every buffer, once.\<close>

definition blist :: "world \<Rightarrow> nat list \<Rightarrow> bool" where
  "blist w xs \<longleftrightarrow> linked (nexts w) (prevs w) (hops NBUF xs NBUF) \<and> distinct xs \<and> set xs = {..<NBUF}"

definition contents_of :: "buf \<Rightarrow> buf" where
  "contents_of x = x\<lparr>b_next := 0, b_prev := 0\<rparr>"

lemma links_simps [simp]:
  "nexts (set_next b x w) = (nexts w)(b := x)" "prevs (set_next b x w) = prevs w"
  "nexts (set_prev b x w) = nexts w" "prevs (set_prev b x w) = (prevs w)(b := x)"
  "nexts (initsleeplock l nm w) = nexts w" "prevs (initsleeplock l nm w) = prevs w"
  "contents_of (the_buf (set_next b x w) c) = contents_of (the_buf w c)"
  "contents_of (the_buf (set_prev b x w) c) = contents_of (the_buf w c)"
  by (auto simp: set_next_def set_prev_def upd_buf_def contents_of_def initsleeplock_def upd_slk_def initlock_def)

text \<open>The four assignments that put a buffer at the front.\<close>

definition push_front :: "nat \<Rightarrow> world \<Rightarrow> world" where
  "push_front b w =
     (let w = set_next b (b_next (the_buf w NBUF)) w; w = set_prev b NBUF w;
          w = set_prev (b_next (the_buf w NBUF)) b w
      in set_next NBUF b w)"

lemma push_front_links:
  assumes "b \<noteq> NBUF"
  shows "nexts (push_front b w) = (nexts w)(b := nexts w NBUF, NBUF := b)"
    "prevs (push_front b w) = (prevs w)(b := NBUF, nexts w NBUF := b)"
proof -
  let ?w = "set_prev b NBUF (set_next b (b_next (the_buf w NBUF)) w)"
  have "b_next (the_buf ?w NBUF) = nexts w NBUF" using assms by (metis (no_types, lifting) fun_upd_other links_simps(1,3))
  then show "nexts (push_front b w) = (nexts w)(b := nexts w NBUF, NBUF := b)"
    "prevs (push_front b w) = (prevs w)(b := NBUF, nexts w NBUF := b)"
    by (simp_all add: push_front_def Let_def)
qed


lemma push_front_contents: "contents_of (the_buf (push_front b w) c) = contents_of (the_buf w c)"
  by (simp add: push_front_def Let_def)

lemma brelse_move_links:
  assumes "b \<noteq> NBUF" "nexts w b \<noteq> b"
  shows "nexts (brelse_move b w) = (nexts w)(prevs w b := nexts w b, b := ((nexts w)(prevs w b := nexts w b)) NBUF, NBUF := b)"
    "prevs (brelse_move b w) = (prevs w)(nexts w b := prevs w b, b := NBUF, ((nexts w)(prevs w b := nexts w b)) NBUF := b)"
proof -
  let ?w1 = "set_prev (b_next (the_buf w b)) (b_prev (the_buf w b)) w"
  let ?w2 = "set_next (b_prev (the_buf ?w1 b)) (b_next (the_buf ?w1 b)) ?w1"
  have e: "b_prev (the_buf ?w1 b) = prevs w b" "b_next (the_buf ?w1 b) = nexts w b"
    using assms(2) links_simps(3,4) by (metis fun_upd_other)+
  have m: "brelse_move b w = push_front b ?w2" by (simp add: brelse_move_def push_front_def Let_def)
  have "nexts ?w2 = (nexts w)(prevs w b := nexts w b)" "prevs ?w2 = (prevs w)(nexts w b := prevs w b)"
    by (simp_all add: e)
  then show "nexts (brelse_move b w) = (nexts w)(prevs w b := nexts w b, b := ((nexts w)(prevs w b := nexts w b)) NBUF, NBUF := b)"
    "prevs (brelse_move b w) = (prevs w)(nexts w b := prevs w b, b := NBUF, ((nexts w)(prevs w b := nexts w b)) NBUF := b)"
    unfolding m push_front_links [OF assms(1)] by (metis, metis)
qed

lemma brelse_move_contents: "contents_of (the_buf (brelse_move b w) c) = contents_of (the_buf w c)"
  by (simp add: brelse_move_def Let_def)

lemma NBUF_notin: "set xs = {..<NBUF} \<Longrightarrow> NBUF \<notin> set xs"
  by simp

lemma brelse_move_blist:
  assumes "blist w (us @ b # vs)"
  shows "blist (brelse_move b w) (b # us @ vs)"
proof -
  have l: "linked (nexts w) (prevs w) (hops NBUF (us @ b # vs) NBUF)" "distinct (us @ b # vs)"
    "set (us @ b # vs) = {..<NBUF}" using assms by (simp_all only: blist_def)
  have d: "distinct (NBUF # us @ b # vs)" using l(2,3) NBUF_notin [OF l(3)] by simp
  note u = linked_unlink [OF l(1) d]
  have b: "b \<notin> set (NBUF # us @ vs)" "distinct (NBUF # us @ vs)" "b \<noteq> NBUF" using d by auto
  from linked_insert [OF u(1) b(1,2)]
  have "linked (nexts (brelse_move b w)) (prevs (brelse_move b w)) (hops NBUF (b # us @ vs) NBUF)"
    unfolding brelse_move_links [OF b(3) u(3)] by simp
  moreover have "distinct (b # us @ vs)" "set (b # us @ vs) = {..<NBUF}" using l(2,3) by auto
  ultimately show ?thesis unfolding blist_def by blast
qed

lemma the_buf_initsleeplock [simp]: "the_buf (initsleeplock l nm w) = the_buf w"
  by (simp add: initsleeplock_def upd_slk_def initlock_def)

lemma binit_step_links: "nexts (binit_step b w) = nexts (push_front b w)" "prevs (binit_step b w) = prevs (push_front b w)"
  by (simp_all add: binit_step_def push_front_def Let_def)

lemma binit_loop:
  assumes "linked (nexts w) (prevs w) (hops NBUF xs NBUF)" "distinct (ys @ xs)" "set (ys @ xs) \<subseteq> {..<NBUF}"
  shows "linked (nexts (fold binit_step ys w)) (prevs (fold binit_step ys w)) (hops NBUF (rev ys @ xs) NBUF)"
  using assms
proof (induction ys arbitrary: w xs)
  case (Cons y ys)
  then have y: "y \<notin> set (NBUF # xs)" "distinct (NBUF # xs)" "y \<noteq> NBUF" by auto
  have "linked (nexts (binit_step y w)) (prevs (binit_step y w)) (hops NBUF (y # xs) NBUF)"
    unfolding binit_step_links push_front_links [OF y(3)] by (rule linked_insert [OF Cons.prems(1) y(1,2)])
  from Cons.IH [OF this] Cons.prems(2,3) show ?case by auto
qed simp

lemma binit_blist: "blist (binit w) (rev [0..<NBUF])"
proof -
  let ?w = "set_next NBUF NBUF (set_prev NBUF NBUF (initlock Bcache_lock ''bcache'' w))"
  have "linked (nexts ?w) (prevs ?w) (hops NBUF [] NBUF)" by simp
  from binit_loop [OF this, of "[0..<NBUF]"]
  have "linked (nexts (binit w)) (prevs (binit w)) (hops NBUF (rev [0..<NBUF]) NBUF)"
    by (simp add: binit_def Let_def atLeast0LessThan)
  then show ?thesis by (auto simp: blist_def)
qed

section \<open>Searching\<close>

lemma bget_find_eq:
  assumes "linked (nexts w) (prevs w) (hops a ys NBUF)" "NBUF \<notin> set ys"
  shows "loop_res (bget_find dev blk w) (nexts w a) =
     Ok (List.find (\<lambda>b. b_dev (the_buf w b) = dev \<and> b_blockno (the_buf w b) = blk) ys)"
  using assms
proof (induction ys arbitrary: a)
  case Nil
  then show ?case by (simp add: loop_res_unfold bget_find_def)
next
  case (Cons y ys)
  let ?m = "\<lambda>b. b_dev (the_buf w b) = dev \<and> b_blockno (the_buf w b) = blk"
  have "bget_find dev blk w (nexts w a) = Ok (if ?m y then Done (Some y) else Next (nexts w y))"
    using Cons.prems by (auto simp: bget_find_def)
  then show ?case using Cons.IH [of y] Cons.prems by (subst loop_res_unfold) (simp split: if_splits)
qed

lemma bget_lru_eq:
  assumes "linked (nexts w) (prevs w) (hops NBUF ys a)" "NBUF \<notin> set ys"
  shows "loop_res (bget_lru w) (prevs w a) = Ok (List.find (\<lambda>b. b_refcnt (the_buf w b) = 0) (rev ys))"
  using assms
proof (induction ys arbitrary: a rule: rev_induct)
  case Nil
  then show ?case by (simp add: loop_res_unfold bget_lru_def)
next
  case (snoc y ys)
  have "bget_lru w (prevs w a) = Ok (if b_refcnt (the_buf w y) = 0 then Done (Some y) else Next (prevs w y))"
    using snoc.prems by (auto simp: bget_lru_def hops_append)
  then show ?case using snoc.IH [of y] snoc.prems by (subst loop_res_unfold) (simp add: hops_append split: if_splits)
qed

section \<open>Getting and releasing a buffer\<close>

abbreviation is_block :: "u32 \<Rightarrow> u32 \<Rightarrow> world \<Rightarrow> nat \<Rightarrow> bool" where
  "is_block dev blk w b \<equiv> b_dev (the_buf w b) = dev \<and> b_blockno (the_buf w b) = blk"

text \<open>No two buffers hold the same block. (Device 0 marks buffers not used since boot.)\<close>

definition one_per_block :: "world \<Rightarrow> bool" where
  "one_per_block w \<longleftrightarrow> (\<forall>b<NBUF. \<forall>c<NBUF. b_dev (the_buf w b) \<noteq> 0 \<and>
     is_block (b_dev (the_buf w b)) (b_blockno (the_buf w b)) w c \<longrightarrow> b = c)"

definition bget_pick :: "u32 \<Rightarrow> u32 \<Rightarrow> world \<Rightarrow> nat list \<Rightarrow> (nat \<times> (buf \<Rightarrow> buf)) option" where
  "bget_pick dev blk w xs =
     (case List.find (is_block dev blk w) xs of
        Some b \<Rightarrow> Some (b, \<lambda>x. x\<lparr>b_refcnt := b_refcnt x + 1\<rparr>)
      | None \<Rightarrow> map_option (\<lambda>b. (b, \<lambda>x. x\<lparr>b_dev := dev, b_blockno := blk, b_valid := 0, b_refcnt := 1\<rparr>))
                 (List.find (\<lambda>b. b_refcnt (the_buf w b) = 0) (rev xs)))"

lemma find_in: "List.find P xs = Some b \<Longrightarrow> b \<in> set xs \<and> P b"
  by (auto simp: find_Some_iff)

lemma bget_pick_none:
  "bget_pick dev blk w xs = None \<longleftrightarrow> (\<forall>b\<in>set xs. \<not> is_block dev blk w b \<and> b_refcnt (the_buf w b) \<noteq> 0)"
proof (cases "List.find (is_block dev blk w) xs")
  case None
  then have "\<forall>b\<in>set xs. \<not> is_block dev blk w b" by (simp add: find_None_iff)
  then show ?thesis by (auto simp: bget_pick_def None find_None_iff)
next
  case (Some b)
  with find_in [OF Some] show ?thesis by (auto simp: bget_pick_def)
qed

lemma bget_eq:
  assumes "calm p (sync w)" "blist w xs"
  shows "bget dev blk w = (case bget_pick dev blk w xs of
     None \<Rightarrow> Panic ''bget: no buffers''
   | Some (b, f) \<Rightarrow> bnd (acquiresleep (Buf_lock b) (upd_buf b f (w\<lparr>sync := settle (sync w)\<rparr>))) (\<lambda>w. Ok (b, w)))"
proof -
  let ?w = "w\<lparr>sync := acq Bcache_lock (sync w)\<rparr>"
  have l: "linked (nexts ?w) (prevs ?w) (hops NBUF xs NBUF)" "NBUF \<notin> set xs" using assms(2) by (auto simp: blist_def)
  note f = bget_find_eq [OF l, of dev blk] and u = bget_lru_eq [OF l]
  have rel: "release Bcache_lock (upd_buf b g ?w) = Ok (upd_buf b g (w\<lparr>sync := settle (sync w)\<rparr>))" for b g
    using calmD [OF assms(1)] by (simp add: lock_simps upd_buf_def)
  show ?thesis
    using calmD [OF assms(1)] f u rel
    by (simp add: bget_def lock_simps bget_pick_def split: option.splits)
qed

lemma blist_cong: "(\<And>b. b_next (the_buf w' b) = b_next (the_buf w b)) \<Longrightarrow> (\<And>b. b_prev (the_buf w' b) = b_prev (the_buf w b)) \<Longrightarrow>
    blist w' xs = blist w xs"
  by (simp add: blist_def)

lemma bget_pick_miss:
  assumes "bget_pick dev blk w xs = Some (b, f)" "blist w xs"
  shows "b < NBUF" "f (the_buf w b) = (the_buf w b)\<lparr>b_dev := dev, b_blockno := blk,
      b_valid := b_valid (f (the_buf w b)), b_refcnt := b_refcnt (f (the_buf w b))\<rparr>"
    "is_block dev blk w b \<and> b_valid (f (the_buf w b)) = b_valid (the_buf w b)
       \<and> b_refcnt (f (the_buf w b)) = b_refcnt (the_buf w b) + 1
     \<or> (\<forall>c<NBUF. \<not> is_block dev blk w c) \<and> b_refcnt (the_buf w b) = 0 \<and> b_valid (f (the_buf w b)) = 0
       \<and> b_refcnt (f (the_buf w b)) = 1
       \<and> (\<exists>us vs. xs = us @ b # vs \<and> (\<forall>c\<in>set vs. b_refcnt (the_buf w c) \<noteq> 0))"
proof -
  have xs: "set xs = {..<NBUF}" using assms(2) by (simp add: blist_def)
  show "b < NBUF" "f (the_buf w b) = (the_buf w b)\<lparr>b_dev := dev, b_blockno := blk,
      b_valid := b_valid (f (the_buf w b)), b_refcnt := b_refcnt (f (the_buf w b))\<rparr>"
    using assms(1) xs find_in by (fastforce simp: bget_pick_def split: option.splits)+
  show "is_block dev blk w b \<and> b_valid (f (the_buf w b)) = b_valid (the_buf w b)
       \<and> b_refcnt (f (the_buf w b)) = b_refcnt (the_buf w b) + 1
     \<or> (\<forall>c<NBUF. \<not> is_block dev blk w c) \<and> b_refcnt (the_buf w b) = 0 \<and> b_valid (f (the_buf w b)) = 0
       \<and> b_refcnt (f (the_buf w b)) = 1
       \<and> (\<exists>us vs. xs = us @ b # vs \<and> (\<forall>c\<in>set vs. b_refcnt (the_buf w c) \<noteq> 0))"
  proof (cases "List.find (is_block dev blk w) xs")
    case None
    then have n: "\<forall>c<NBUF. \<not> is_block dev blk w c" using xs by (auto simp: find_None_iff)
    from None assms(1) have b: "List.find (\<lambda>b. b_refcnt (the_buf w b) = 0) (rev xs) = Some b"
      "f = (\<lambda>x. x\<lparr>b_dev := dev, b_blockno := blk, b_valid := 0, b_refcnt := 1\<rparr>)" by (auto simp: bget_pick_def)
    from b(1) obtain i where i: "i < length xs" "b = rev xs ! i" "b_refcnt (the_buf w b) = 0"
      "\<forall>j<i. b_refcnt (the_buf w (rev xs ! j)) \<noteq> 0" by (auto simp: find_Some_iff)
    have "rev xs = take i (rev xs) @ b # drop (Suc i) (rev xs)" using i(1,2) by (simp add: id_take_nth_drop)
    then have "xs = rev (drop (Suc i) (rev xs)) @ b # rev (take i (rev xs))" by (metis append.assoc append_Cons append_Nil rev_append rev_rev_ident rev.simps(2))
    moreover have "\<forall>c\<in>set (rev (take i (rev xs))). b_refcnt (the_buf w c) \<noteq> 0"
      using i(1,4) by (auto simp: in_set_conv_nth)
    ultimately have "\<exists>us vs. xs = us @ b # vs \<and> (\<forall>c\<in>set vs. b_refcnt (the_buf w c) \<noteq> 0)" by blast
    then show ?thesis using n i(3) b(2) by auto
  next
    case (Some c)
    then show ?thesis using assms(1) find_in [OF Some] by (auto simp: bget_pick_def)
  qed
qed

lemma one_per_block_pick:
  assumes "one_per_block w" "dev \<noteq> 0" "b < NBUF" "is_block dev blk w' b" "\<And>c. c \<noteq> b \<Longrightarrow> the_buf w' c = the_buf w c"
    and "is_block dev blk w b \<or> (\<forall>c<NBUF. \<not> is_block dev blk w c)"
  shows "one_per_block w'"
proof -
  have o: "c = d" if "c < NBUF" "d < NBUF" "b_dev (the_buf w c) \<noteq> 0"
    "is_block (b_dev (the_buf w c)) (b_blockno (the_buf w c)) w d" for c d
    using assms(1) that unfolding one_per_block_def by blast
  have n: "\<not> is_block dev blk w c" if "c < NBUF" "c \<noteq> b" for c
  proof
    assume c: "is_block dev blk w c"
    with assms(6) that(1) have "is_block dev blk w b" by blast
    with o [OF assms(3) that(1)] c assms(2) that(2) show False by simp
  qed
  show ?thesis
    unfolding one_per_block_def
  proof (intro allI impI, elim conjE)
    fix c d assume h: "c < NBUF" "d < NBUF" "b_dev (the_buf w' c) \<noteq> 0"
      "b_dev (the_buf w' d) = b_dev (the_buf w' c)" "b_blockno (the_buf w' d) = b_blockno (the_buf w' c)"
    show "c = d"
    proof (cases "c = b \<or> d = b")
      case True
      then have "is_block dev blk w' c" "is_block dev blk w' d" using h(4,5) assms(4) by metis+
      then show ?thesis using n [OF h(1)] n [OF h(2)] assms(5) by metis
    next
      case False
      with h assms(5) [of c] assms(5) [of d] show ?thesis by (intro o) simp_all
    qed
  qed
qed

text \<open>
  C18: \<^verbatim>\<open>bget\<close> returns the one buffer of the block, locked by the caller. If a buffer holds the block it is
  that buffer, with its contents and one more reference; otherwise it is the least recently used
  buffer without references, now standing for the block and invalid. No other buffer changes, the
  list keeps its order, and no two buffers stand for one block. This is for a cache in which some buffer holds the block
  or has no references, and when nobody holds the sleep lock of such a buffer.
\<close>

theorem bget_unique:
  assumes "calm p (sync w)" and "blist w xs" and "one_per_block w" and "dev \<noteq> 0"
    and "\<exists>b<NBUF. is_block dev blk w b \<or> b_refcnt (the_buf w b) = 0"
    and "\<forall>b<NBUF. is_block dev blk w b \<or> b_refcnt (the_buf w b) = 0 \<longrightarrow> sl_locked (slks w (Buf_lock b)) = 0"
  shows "\<exists>b w'. bget dev blk w = Ok (b, w') \<and> b < NBUF \<and> owns p (Buf_lock b) w'
    \<and> is_block dev blk w' b \<and> blist w' xs \<and> one_per_block w'
    \<and> (\<forall>c. c \<noteq> b \<longrightarrow> the_buf w' c = the_buf w c) \<and> b_data (the_buf w' b) = b_data (the_buf w b)
    \<and> (is_block dev blk w b \<and> b_valid (the_buf w' b) = b_valid (the_buf w b)
         \<and> b_refcnt (the_buf w' b) = b_refcnt (the_buf w b) + 1
       \<or> (\<forall>c<NBUF. \<not> is_block dev blk w c) \<and> b_refcnt (the_buf w b) = 0 \<and> b_valid (the_buf w' b) = 0
         \<and> b_refcnt (the_buf w' b) = 1
         \<and> (\<exists>us vs. xs = us @ b # vs \<and> (\<forall>c\<in>set vs. b_refcnt (the_buf w c) \<noteq> 0)))"
proof -
  have xs: "set xs = {..<NBUF}" using assms(2) by (simp add: blist_def)
  have "bget_pick dev blk w xs \<noteq> None"
    using assms(5) xs by (subst bget_pick_none) blast
  then obtain b f where bf: "bget_pick dev blk w xs = Some (b, f)" by auto
  note pk = bget_pick_miss [OF bf assms(2)]
  let ?w = "upd_buf b f (w\<lparr>sync := settle (sync w)\<rparr>)"
  let ?w' = "?w\<lparr>sync := settle (sync w), slks := (slks w)(Buf_lock b := taken_by (p_pid (procs w p)) (slks w (Buf_lock b)))\<rparr>"
  have "sl_locked (slks ?w (Buf_lock b)) = 0" "calm p (sync ?w)"
    using assms(1,6) pk(1,3) by (auto simp: upd_buf_def lock_simps)
  then have "acquiresleep (Buf_lock b) ?w = Ok ?w'" by (subst acquiresleep_free) (simp_all add: upd_buf_def lock_simps)
  then have g: "bget dev blk w = Ok (b, ?w')" by (simp add: bget_eq [OF assms(1,2)] bf)
  have nb: "the_buf ?w' b = f (the_buf w b)" "\<And>c. c \<noteq> b \<Longrightarrow> the_buf ?w' c = the_buf w c" by (simp_all add: upd_buf_def)
  have fl: "b_dev (f (the_buf w b)) = dev" "b_blockno (f (the_buf w b)) = blk" "b_data (f (the_buf w b)) = b_data (the_buf w b)"
    "b_next (f (the_buf w b)) = b_next (the_buf w b)" "b_prev (f (the_buf w b)) = b_prev (the_buf w b)"
    by (subst pk(2), simp)+
  have "blist ?w' xs = blist w xs" by (rule blist_cong) (metis nb fl(4,5))+
  moreover have "one_per_block ?w'"
    by (rule one_per_block_pick [OF assms(3,4) pk(1)]) (use nb fl pk(3) in auto)
  ultimately show ?thesis
    using g pk(1,3) assms(2) nb fl by (intro exI [of _ b] exI [of _ ?w']) (simp add: owns_def taken_by_def upd_buf_def)
qed

text \<open>The cache after \<open>binit\<close>.\<close>

lemma calm_initlock: "calm p (sync w) \<Longrightarrow> calm p (sync (initlock lk nm w))"
  by (auto simp: initlock_def calm_def sync_defs Let_def)

lemma sync_links [simp]:
  "sync (set_next b x w) = sync w" "sync (set_prev b x w) = sync w" "slks (set_next b x w) = slks w"
  "slks (set_prev b x w) = slks w" "procs (set_next b x w) = procs w" "procs (set_prev b x w) = procs w"
  by (simp_all add: set_next_def set_prev_def upd_buf_def)

lemma initsleeplock_simps [simp]:
  "sync (initsleeplock l nm w) = sync (initlock (Sleep_lk l) ''sleep lock'' w)"
  "slks (initsleeplock l nm w) = (slks w)(l := \<lparr>sl_locked = 0, sl_name = nm, sl_pid = 0\<rparr>)"
  by (simp_all add: initsleeplock_def upd_slk_def initlock_def)

lemma binit_fold_keeps:
  "calm p (sync w) \<Longrightarrow> calm p (sync (fold binit_step bs w))"
  "sl_locked (slks w l) = 0 \<Longrightarrow> sl_locked (slks (fold binit_step bs w) l) = 0"
  "contents_of (the_buf (fold binit_step bs w) c) = contents_of (the_buf w c)"
  by (induction bs arbitrary: w) (simp_all add: binit_step_def Let_def calm_initlock)

lemma binit_keeps:
  "calm p (sync w) \<Longrightarrow> calm p (sync (binit w))"
  "sl_locked (slks w l) = 0 \<Longrightarrow> sl_locked (slks (binit w) l) = 0"
  "contents_of (the_buf (binit w) c) = contents_of (the_buf w c)"
proof -
  have i: "slks (initlock lk nm w) = slks w" "the_buf (initlock lk nm w) = the_buf w" for lk nm by (simp_all add: initlock_def)
  show "calm p (sync w) \<Longrightarrow> calm p (sync (binit w))"
    "sl_locked (slks w l) = 0 \<Longrightarrow> sl_locked (slks (binit w) l) = 0"
    "contents_of (the_buf (binit w) c) = contents_of (the_buf w c)"
    by (simp_all add: binit_def Let_def binit_fold_keeps calm_initlock i)
qed

lemma contents_ofD:
  assumes "contents_of x = contents_of y"
  shows "b_dev x = b_dev y" "b_blockno x = b_blockno y" "b_refcnt x = b_refcnt y" "b_valid x = b_valid y"
    "b_data x = b_data y" "b_disk x = b_disk y"
  using assms by (cases x, cases y, simp add: contents_of_def)+

theorem bget_unique_witness:
  "\<exists>b w'. bget 1 45 (binit (run_world (\<lambda>_ _. None))) = Ok (b, w') \<and> is_block 1 45 w' b \<and> one_per_block w'"
proof -
  let ?w = "run_world (\<lambda>_ _. None)"
  have z: "b_dev (the_buf ?w b) = 0" "b_refcnt (the_buf ?w b) = 0" "sl_locked (slks ?w l) = 0" for b l
    by (simp_all add: run_world_def boot_world_def zero_fsys_def Let_def)
  have c: "b_dev (the_buf (binit ?w) b) = 0" "b_refcnt (the_buf (binit ?w) b) = 0" for b
    using contents_ofD(1,3) [OF binit_keeps(3) [of ?w b]] z by simp_all
  have "calm 0 (sync (binit ?w))" by (rule binit_keeps(1)) (simp add: calm_def)
  moreover have "\<forall>b<NBUF. is_block 1 45 (binit ?w) b \<or> b_refcnt (the_buf (binit ?w) b) = 0 \<longrightarrow>
      sl_locked (slks (binit ?w) (Buf_lock b)) = 0" using binit_keeps(2) [OF z(3)] by blast
  moreover have "one_per_block (binit ?w)" by (simp add: one_per_block_def c)
  moreover have "\<exists>b<NBUF. is_block 1 45 (binit ?w) b \<or> b_refcnt (the_buf (binit ?w) b) = 0"
    by (rule exI [of _ 0]) (simp add: c NBUF_def)
  ultimately show ?thesis using bget_unique [OF _ binit_blist, of 0 ?w 1 45] by auto
qed

section \<open>Releasing\<close>

lemma set_sync:
  "set_next b x (w\<lparr>sync := s\<rparr>) = (set_next b x w)\<lparr>sync := s\<rparr>"
  "set_prev b x (w\<lparr>sync := s\<rparr>) = (set_prev b x w)\<lparr>sync := s\<rparr>"
  by (simp_all add: set_next_def set_prev_def upd_buf_def)

lemma brelse_eq:
  assumes "calm p (sync w)" "owns p (Buf_lock b) w"
  defines "w1 \<equiv> upd_buf b (\<lambda>x. x\<lparr>b_refcnt := b_refcnt x - 1\<rparr>) (w\<lparr>sync := settle (sync w),
      slks := (slks w)(Buf_lock b := (slks w (Buf_lock b))\<lparr>sl_locked := 0, sl_pid := 0\<rparr>),
      procs := woken (Some (Ch_sleeplock (Buf_lock b))) (Some p) (procs w)\<rparr>)"
  shows "brelse b w = Ok (if b_refcnt (the_buf w b) = 1 then brelse_move b w1 else w1)"
proof -
  let ?w0 = "w\<lparr>sync := settle (sync w)\<rparr>"
  have h: "holdingsleep (Buf_lock b) w = Ok (True, ?w0)" using holdingsleep_eq [OF assms(1)] assms(2) by simp
  have c: "calm p (sync ?w0)" using assms(1) by (simp add: lock_simps)
  note r = releasesleep_eq [OF c, of "Buf_lock b"]
  have m: "brelse_move b (v\<lparr>sync := s\<rparr>) = (brelse_move b v)\<lparr>sync := s\<rparr>" for v s
    by (simp add: brelse_move_def Let_def set_sync)
  have sm: "sync (brelse_move b v) = sync v" for v by (simp add: brelse_move_def Let_def)
  show ?thesis
    using calmD [OF assms(1)]
    by (auto simp: brelse_def h r lock_simps w1_def Let_def m [symmetric] sm upd_buf_def intro!: arg_cong [of _ _ "brelse_move b"])
qed

text \<open>
  C19: \<^verbatim>\<open>brelse\<close> keeps the list in order of last use: releasing a buffer the caller has locked unlocks it and
  drops one reference, a buffer left without references moves to the front of the list and the
  others keep their order, and the contents of no buffer change. A caller that does not hold the
  lock panics.
\<close>

theorem brelse_lru:
  assumes "calm p (sync w)" and "blist w xs" and "b < NBUF"
  shows "(\<not> owns p (Buf_lock b) w \<longrightarrow> brelse b w = Panic ''brelse'')
    \<and> (owns p (Buf_lock b) w \<longrightarrow> (\<exists>w'. brelse b w = Ok w'
        \<and> blist w' (if b_refcnt (the_buf w b) = 1 then b # remove1 b xs else xs)
        \<and> sl_locked (slks w' (Buf_lock b)) = 0 \<and> blocks (fs w') = blocks (fs w)
        \<and> contents_of (the_buf w' b) = contents_of ((the_buf w b)\<lparr>b_refcnt := b_refcnt (the_buf w b) - 1\<rparr>)
        \<and> (\<forall>c. c \<noteq> b \<longrightarrow> contents_of (the_buf w' c) = contents_of (the_buf w c))))"
proof (intro conjI impI)
  assume "\<not> owns p (Buf_lock b) w"
  then show "brelse b w = Panic ''brelse''" using holdingsleep_eq [OF assms(1)] by (simp add: brelse_def)
next
  assume o: "owns p (Buf_lock b) w"
  define w1 where "w1 = upd_buf b (\<lambda>x. x\<lparr>b_refcnt := b_refcnt x - 1\<rparr>) (w\<lparr>sync := settle (sync w),
      slks := (slks w)(Buf_lock b := (slks w (Buf_lock b))\<lparr>sl_locked := 0, sl_pid := 0\<rparr>),
      procs := woken (Some (Ch_sleeplock (Buf_lock b))) (Some p) (procs w)\<rparr>)"
  let ?w = "if b_refcnt (the_buf w b) = 1 then brelse_move b w1 else w1"
  have e: "brelse b w = Ok ?w" using brelse_eq [OF assms(1) o] by (simp add: w1_def)
  have "blist w1 xs = blist w xs" by (rule blist_cong) (simp_all add: w1_def upd_buf_def)
  then have l: "blist w1 xs" using assms(2) by simp
  have "b \<in> set xs" "distinct xs" using assms(2,3) by (auto simp: blist_def)
  then obtain us vs where xs: "xs = us @ b # vs" "b \<notin> set us" by (meson split_list_first)
  have "blist (brelse_move b w1) (b # remove1 b xs)"
    using brelse_move_blist [of w1 us b vs] l xs by (simp add: remove1_append)
  then have "blist ?w (if b_refcnt (the_buf w b) = 1 then b # remove1 b xs else xs)" using l by simp
  moreover have m: "slks (brelse_move b w1) = slks w1" "blocks (fs (brelse_move b w1)) = blocks (fs w1)"
    by (simp_all add: brelse_move_def Let_def set_next_def set_prev_def upd_buf_def)
  have f: "sl_locked (slks w1 (Buf_lock b)) = 0" "blocks (fs w1) = blocks (fs w)"
    "the_buf w1 b = (the_buf w b)\<lparr>b_refcnt := b_refcnt (the_buf w b) - 1\<rparr>" "\<And>c. c \<noteq> b \<Longrightarrow> the_buf w1 c = the_buf w c"
    by (simp_all add: w1_def upd_buf_def)
  have "sl_locked (slks ?w (Buf_lock b)) = 0" "blocks (fs ?w) = blocks (fs w)" using m f(1,2) by simp_all
  moreover have "contents_of (the_buf ?w c) = contents_of (the_buf w1 c)" for c by (simp add: brelse_move_contents)
  then have "contents_of (the_buf ?w b) = contents_of ((the_buf w b)\<lparr>b_refcnt := b_refcnt (the_buf w b) - 1\<rparr>)"
    "\<forall>c. c \<noteq> b \<longrightarrow> contents_of (the_buf ?w c) = contents_of (the_buf w c)"
    by (metis f(3), metis f(4))
  ultimately show "\<exists>w'. brelse b w = Ok w'
        \<and> blist w' (if b_refcnt (the_buf w b) = 1 then b # remove1 b xs else xs)
        \<and> sl_locked (slks w' (Buf_lock b)) = 0 \<and> blocks (fs w') = blocks (fs w)
        \<and> contents_of (the_buf w' b) = contents_of ((the_buf w b)\<lparr>b_refcnt := b_refcnt (the_buf w b) - 1\<rparr>)
        \<and> (\<forall>c. c \<noteq> b \<longrightarrow> contents_of (the_buf w' c) = contents_of (the_buf w c))"
    using e by blast
qed

text \<open>Buffer 4 of a fresh cache, held once by process 0.\<close>

theorem brelse_lru_witness:
  "\<exists>w'. brelse 4 (upd_buf 4 (b_refcnt_update (\<lambda>_. 1)) ((binit (run_world (\<lambda>_ _. None)))\<lparr>
        slks := (\<lambda>_. \<lparr>sl_locked = 1, sl_name = [], sl_pid = 3\<rparr>), procs := (\<lambda>_. zero_proc\<lparr>p_pid := 3\<rparr>)\<rparr>)) = Ok w'
     \<and> blist w' (4 # remove1 4 (rev [0..<NBUF]))"
proof -
  define v where "v = binit (run_world (\<lambda>_ _. None))"
  define w where "w = upd_buf 4 (b_refcnt_update (\<lambda>_. 1)) (v\<lparr>slks := (\<lambda>_. \<lparr>sl_locked = 1, sl_name = [], sl_pid = 3\<rparr>),
      procs := (\<lambda>_. zero_proc\<lparr>p_pid := 3\<rparr>)\<rparr>)"
  have "calm 0 (sync v)" unfolding v_def by (rule binit_keeps(1)) (simp add: calm_def)
  then have "calm 0 (sync w)" by (simp add: w_def upd_buf_def)
  moreover have "blist w (rev [0..<NBUF]) = blist v (rev [0..<NBUF])" by (rule blist_cong) (simp_all add: w_def upd_buf_def)
  then have "blist w (rev [0..<NBUF])" using binit_blist by (simp add: v_def)
  moreover have "owns 0 (Buf_lock 4) w" "b_refcnt (the_buf w 4) = 1" by (simp_all add: w_def upd_buf_def owns_def)
  ultimately show ?thesis
    using brelse_lru [of 0 w "rev [0..<NBUF]" 4] by (auto simp: w_def v_def NBUF_def)
qed

end
