(* ===== verification/Xv6_Log.thy ===== *)
theory Xv6_Log
  imports Xv6_Bio
begin

text \<open>
  \<^verbatim>\<open>kernel/log.c\<close>: the redo log. Fields of a struct that lives in a disk block are read and written at
  their byte offsets.
\<close>

section \<open>Bytes of a block\<close>

definition blk_get :: "nat \<Rightarrow> nat \<Rightarrow> block \<Rightarrow> u8 list" where
  "blk_get off n d = map d [off..<off + n]"

definition blk_put :: "nat \<Rightarrow> u8 list \<Rightarrow> block \<Rightarrow> block" where
  "blk_put off bs d = (\<lambda>i. if off \<le> i \<and> i < off + length bs then bs ! (i - off) else d i)"

definition blk_ld32 :: "nat \<Rightarrow> block \<Rightarrow> u32" where
  "blk_ld32 off d = of_le (blk_get off 4 d)"

definition blk_st32 :: "nat \<Rightarrow> u32 \<Rightarrow> block \<Rightarrow> block" where
  "blk_st32 off v d = blk_put off (le_bytes 4 v) d"

definition blk_ld16 :: "nat \<Rightarrow> block \<Rightarrow> u16" where
  "blk_ld16 off d = of_le (blk_get off 2 d)"

definition blk_st16 :: "nat \<Rightarrow> u16 \<Rightarrow> block \<Rightarrow> block" where
  "blk_st16 off v d = blk_put off (le_bytes 2 v) d"

definition upd_data :: "nat \<Rightarrow> (block \<Rightarrow> block) \<Rightarrow> world \<Rightarrow> world" where
  "upd_data b f w = upd_buf b (\<lambda>x. x\<lparr>b_data := f (b_data x)\<rparr>) w"

section \<open>The log\<close>

abbreviation logs :: "world \<Rightarrow> log" where
  "logs w \<equiv> logst (fs w)"

definition upd_log :: "(log \<Rightarrow> log) \<Rightarrow> world \<Rightarrow> world" where
  "upd_log f w = w\<lparr>fs := (fs w)\<lparr>logst := f (logst (fs w))\<rparr>\<rparr>"

definition upd_lh :: "(logheader \<Rightarrow> logheader) \<Rightarrow> world \<Rightarrow> world" where
  "upd_lh f w = upd_log (\<lambda>l. l\<lparr>log_lh := f (log_lh l)\<rparr>) w"

definition install_step :: "bool \<Rightarrow> int \<times> world \<Rightarrow> (int \<times> world) res" where
  "install_step recovering = (\<lambda>(tail, w).
     let blk = lh_block (log_lh (logs w)) (nat tail); dev = word_of_int (log_dev (logs w))
     in bnd (if recovering
             then printf (''recovering tail %d dst %d'' @ [CHR 0x0A])
                    [VWord (word_of_int tail), VWord (word_of_int blk)] w
             else Ok w) (\<lambda>w.
        bnd (bread dev (word_of_int (log_start (logs w) + tail + 1)) w) (\<lambda>(lbuf, w).
        bnd (bread dev (word_of_int blk) w) (\<lambda>(dbuf, w).
        let w = upd_data dbuf (\<lambda>_. b_data (the_buf w lbuf)) w
        in bnd (bwrite dbuf w) (\<lambda>w.
           bnd (if \<not> recovering then bunpin dbuf w else Ok w) (\<lambda>w.
           bnd (brelse lbuf w) (\<lambda>w.
           bnd (brelse dbuf w) (\<lambda>w. Ok (tail + 1, w)))))))))"

definition install_trans :: "bool \<Rightarrow> world \<Rightarrow> world res" where
  "install_trans recovering w =
     bnd (while_res (\<lambda>(tail, w). tail < lh_n (log_lh (logs w))) (install_step recovering) (0, w))
       (\<lambda>(tail, w). Ok w)"

definition head_of_block :: "block \<Rightarrow> logheader \<Rightarrow> logheader" where
  "head_of_block d h =
     (let n = sint (blk_ld32 0 d)
      in \<lparr>lh_n = n, lh_block = (\<lambda>i. if i < nat n then sint (blk_ld32 (4 + 4 * i) d) else lh_block h i)\<rparr>)"

definition block_of_head :: "logheader \<Rightarrow> block \<Rightarrow> block" where
  "block_of_head h d =
     fold (\<lambda>i. blk_st32 (4 + 4 * i) (word_of_int (lh_block h i))) [0..<nat (lh_n h)]
       (blk_st32 0 (word_of_int (lh_n h)) d)"

definition read_head :: "world \<Rightarrow> world res" where
  "read_head w =
     bnd (bread (word_of_int (log_dev (logs w))) (word_of_int (log_start (logs w))) w) (\<lambda>(b, w).
     brelse b (upd_lh (head_of_block (b_data (the_buf w b))) w))"

definition write_head :: "world \<Rightarrow> world res" where
  "write_head w =
     bnd (bread (word_of_int (log_dev (logs w))) (word_of_int (log_start (logs w))) w) (\<lambda>(b, w).
     let w = upd_data b (block_of_head (log_lh (logs w))) w
     in bnd (bwrite b w) (brelse b))"

definition clear_log :: "world \<Rightarrow> world" where
  "clear_log w = upd_lh (lh_n_update (\<lambda>_. 0)) w"

definition recover_from_log :: "world \<Rightarrow> world res" where
  "recover_from_log w =
     bnd (read_head w) (\<lambda>w.
     bnd (install_trans True w) (\<lambda>w.
     write_head (clear_log w)))"

text \<open>\<^verbatim>\<open>sizeof(struct logheader)\<close> is \<^verbatim>\<open>4 + 4 * LOGBLOCKS\<close>.\<close>

definition initlog :: "int \<Rightarrow> superblock \<Rightarrow> world \<Rightarrow> world res" where
  "initlog dev sb w =
     (if 4 + 4 * LOGBLOCKS \<ge> int BSIZE then Panic ''initlog: too big logheader''
      else let w = initlock Log_lock ''log'' w;
               w = upd_log (\<lambda>l. l\<lparr>log_start := sint (sb_logstart sb), log_dev := dev\<rparr>) w
           in recover_from_log w)"

definition begin_op_step :: "world \<Rightarrow> (world, world) ctl res" where
  "begin_op_step w =
     (if log_committing (logs w) \<noteq> 0
      then bnd (sleep Ch_log Log_lock w) (\<lambda>w. Ok (Next w))
      else if lh_n (log_lh (logs w)) + (log_outstanding (logs w) + 1) * MAXOPBLOCKS > LOGBLOCKS
      then bnd (sleep Ch_log Log_lock w) (\<lambda>w. Ok (Next w))
      else bnd (release Log_lock (upd_log (\<lambda>l. l\<lparr>log_outstanding := log_outstanding l + 1\<rparr>) w)) (\<lambda>w.
           Ok (Done w)))"

definition begin_op :: "world \<Rightarrow> world res" where
  "begin_op w = bnd (acquire Log_lock w) (loop_res begin_op_step)"

definition write_log_step :: "int \<times> world \<Rightarrow> (int \<times> world) res" where
  "write_log_step = (\<lambda>(tail, w).
     let blk = lh_block (log_lh (logs w)) (nat tail); dev = word_of_int (log_dev (logs w))
     in bnd (bread dev (word_of_int (log_start (logs w) + tail + 1)) w) (\<lambda>(to, w).
        bnd (bread dev (word_of_int blk) w) (\<lambda>(from, w).
        let w = upd_data to (\<lambda>_. b_data (the_buf w from)) w
        in bnd (bwrite to w) (\<lambda>w.
           bnd (brelse from w) (\<lambda>w.
           bnd (brelse to w) (\<lambda>w. Ok (tail + 1, w)))))))"

definition write_log :: "world \<Rightarrow> world res" where
  "write_log w =
     bnd (while_res (\<lambda>(tail, w). tail < lh_n (log_lh (logs w))) write_log_step (0, w))
       (\<lambda>(tail, w). Ok w)"

definition commit :: "world \<Rightarrow> world res" where
  "commit w =
     (if lh_n (log_lh (logs w)) > 0
      then bnd (write_log w) (\<lambda>w.
           bnd (write_head w) (\<lambda>w.
           bnd (install_trans False w) (\<lambda>w.
           write_head (clear_log w))))
      else Ok w)"

text \<open>The two critical sections of \<^verbatim>\<open>end_op\<close>; \<^verbatim>\<open>do_commit\<close> is the result of the first.\<close>

definition end_op_enter :: "world \<Rightarrow> (bool \<times> world) res" where
  "end_op_enter w =
     bnd (acquire Log_lock w) (\<lambda>w.
     let w = upd_log (\<lambda>l. l\<lparr>log_outstanding := log_outstanding l - 1\<rparr>) w
     in if log_committing (logs w) \<noteq> 0 then Panic ''log.committing''
        else let do_commit = (log_outstanding (logs w) = 0)
             in bnd (if do_commit then Ok (upd_log (log_committing_update (\<lambda>_. 1)) w)
                     else wakeup (Some Ch_log) w) (\<lambda>w.
                bnd (release Log_lock w) (\<lambda>w. Ok (do_commit, w))))"

definition end_op_leave :: "world \<Rightarrow> world res" where
  "end_op_leave w =
     bnd (acquire Log_lock w) (\<lambda>w.
     bnd (wakeup (Some Ch_log) (upd_log (log_committing_update (\<lambda>_. 0)) w)) (\<lambda>w.
     release Log_lock w))"

definition end_op :: "world \<Rightarrow> world res" where
  "end_op w =
     bnd (end_op_enter w) (\<lambda>(do_commit, w).
     if do_commit then bnd (commit w) end_op_leave else Ok w)"

text \<open>The slot \<^verbatim>\<open>log_write\<close> uses: that of the block if the transaction already has it, else the next.\<close>

definition log_slot :: "logheader \<Rightarrow> int \<Rightarrow> nat" where
  "log_slot h blk =
     (case List.find (\<lambda>i. lh_block h i = blk) [0..<nat (lh_n h)] of Some i \<Rightarrow> i | None \<Rightarrow> nat (lh_n h))"

definition log_write :: "nat \<Rightarrow> world \<Rightarrow> world res" where
  "log_write b w =
     bnd (acquire Log_lock w) (\<lambda>w.
     if lh_n (log_lh (logs w)) \<ge> LOGBLOCKS then Panic ''too big a transaction''
     else if log_outstanding (logs w) < 1 then Panic ''log_write outside of trans''
     else let blk = sint (b_blockno (the_buf w b)); h = log_lh (logs w); i = log_slot h blk;
              w = upd_lh (\<lambda>h. h\<lparr>lh_block := (lh_block h)(i := blk)\<rparr>) w
          in bnd (if int i = lh_n h
                  then bnd (bpin b w) (\<lambda>w. Ok (upd_lh (\<lambda>h. h\<lparr>lh_n := lh_n h + 1\<rparr>) w))
                  else Ok w) (\<lambda>w.
             release Log_lock w))"

section \<open>Fields of a block\<close>

lemma blk_get_put_same: "length bs = n \<Longrightarrow> blk_get off n (blk_put off bs d) = bs"
  by (rule nth_equalityI) (auto simp: blk_get_def blk_put_def)

lemma blk_get_put_other:
  "off + n \<le> off' \<or> off' + length bs \<le> off \<Longrightarrow> blk_get off n (blk_put off' bs d) = blk_get off n d"
  by (auto simp: blk_get_def blk_put_def)

lemma of_le_le_bytes_all: "LENGTH('a) \<le> 8 * n \<Longrightarrow> of_le (le_bytes n v) = (v :: 'a::len word)"
  by (simp add: of_le_le_bytes take_bit_word_eq_self)

lemma blk_ld32_st32 [simp]: "blk_ld32 off (blk_st32 off v d) = v"
  by (simp add: blk_ld32_def blk_st32_def blk_get_put_same of_le_le_bytes_all)

lemma blk_ld16_st16 [simp]: "blk_ld16 off (blk_st16 off v d) = v"
  by (simp add: blk_ld16_def blk_st16_def blk_get_put_same of_le_le_bytes_all)

lemma blk_ld_other:
  "off + 4 \<le> off' \<or> off' + 4 \<le> off \<Longrightarrow> blk_ld32 off (blk_st32 off' v d) = blk_ld32 off d"
  "off + 4 \<le> off' \<or> off' + 2 \<le> off \<Longrightarrow> blk_ld32 off (blk_st16 off' u d) = blk_ld32 off d"
  "off + 2 \<le> off' \<or> off' + 4 \<le> off \<Longrightarrow> blk_ld16 off (blk_st32 off' v d) = blk_ld16 off d"
  "off + 2 \<le> off' \<or> off' + 2 \<le> off \<Longrightarrow> blk_ld16 off (blk_st16 off' u d) = blk_ld16 off d"
  by (auto simp: blk_ld32_def blk_ld16_def blk_st32_def blk_st16_def intro!: arg_cong [of _ _ of_le] blk_get_put_other)

text \<open>An array of 32-bit words at \<open>base\<close>, written in one loop.\<close>

lemma blk_ld32_array_out:
  "off + 4 \<le> base \<Longrightarrow> blk_ld32 off (fold (\<lambda>i. blk_st32 (base + 4 * i) (f i)) is d) = blk_ld32 off d"
  by (induction "is" arbitrary: d) (simp_all add: blk_ld_other)

lemma blk_ld32_array_beyond:
  "base + 4 * n \<le> off \<Longrightarrow> blk_ld32 off (fold (\<lambda>i. blk_st32 (base + 4 * i) (f i)) [0..<n] d) = blk_ld32 off d"
  by (induction n arbitrary: d) (simp_all add: blk_ld_other)

lemma blk_ld32_array:
  "j < n \<Longrightarrow> blk_ld32 (base + 4 * j) (fold (\<lambda>i. blk_st32 (base + 4 * i) (f i)) [0..<n] d) = f j"
proof (induction n)
  case (Suc n)
  show ?case
  proof (cases "j = n")
    case False
    with Suc have "base + 4 * j + 4 \<le> base + 4 * n" by simp
    with Suc False show ?thesis by (simp add: blk_ld_other(1))
  qed simp
qed simp

section \<open>The log header on disk\<close>

definition fits32 :: "int \<Rightarrow> bool" where
  "fits32 x \<longleftrightarrow> - (2 ^ 31) \<le> x \<and> x < 2 ^ 31"

lemma sint_word_of_int32: "fits32 x \<Longrightarrow> sint (word_of_int x :: u32) = x"
  by (simp add: fits32_def signed_of_int signed_take_bit_int_eq_self)

definition head_ok :: "logheader \<Rightarrow> bool" where
  "head_ok h \<longleftrightarrow> 0 \<le> lh_n h \<and> lh_n h \<le> LOGBLOCKS \<and> (\<forall>i < nat (lh_n h). fits32 (lh_block h i))"

text \<open>
  C20: the log header survives the trip to the disk and back: reading the block that \<^verbatim>\<open>write_head\<close>
  built gives the count and the block numbers of the header it was built from, whatever the block
  held before, for every count the log can have.
\<close>

theorem log_header_roundtrip:
  assumes "head_ok h"
  shows "lh_n (head_of_block (block_of_head h d) h0) = lh_n h
    \<and> (\<forall>i < nat (lh_n h). lh_block (head_of_block (block_of_head h d) h0) i = lh_block h i)"
proof -
  let ?f = "\<lambda>i. word_of_int (lh_block h i) :: u32"
  let ?d = "block_of_head h d"
  have "blk_ld32 0 ?d = word_of_int (lh_n h)"
    by (simp add: block_of_head_def blk_ld32_array_out)
  moreover have "fits32 (lh_n h)" using assms by (simp add: head_ok_def fits32_def LOGBLOCKS_def)
  ultimately have n: "sint (blk_ld32 0 ?d) = lh_n h" by (simp add: sint_word_of_int32)
  have "sint (blk_ld32 (4 + 4 * i) ?d) = lh_block h i" if "i < nat (lh_n h)" for i
    using that assms by (simp add: block_of_head_def blk_ld32_array sint_word_of_int32 head_ok_def)
  with n show ?thesis by (simp add: head_of_block_def Let_def)
qed

theorem log_header_roundtrip_witness:
  "lh_block (head_of_block (block_of_head \<lparr>lh_n = 2, lh_block = (\<lambda>i. 45 + int i)\<rparr> (\<lambda>_. 7)) \<lparr>lh_n = 0, lh_block = (\<lambda>_. 0)\<rparr>) 1 = 46"
proof -
  have "head_ok \<lparr>lh_n = 2, lh_block = (\<lambda>i. 45 + int i)\<rparr>"
    by (simp add: head_ok_def LOGBLOCKS_def fits32_def)
  from log_header_roundtrip [OF this] show ?thesis by simp
qed

section \<open>Logging a block\<close>

definition logged :: "logheader \<Rightarrow> int set" where
  "logged h = lh_block h ` {..<nat (lh_n h)}"

definition lh_wf :: "logheader \<Rightarrow> bool" where
  "lh_wf h \<longleftrightarrow> 0 \<le> lh_n h \<and> inj_on (lh_block h) {..<nat (lh_n h)}"

text \<open>The header after \<open>log_write\<close> of block \<open>blk\<close>.\<close>

definition lh_add :: "int \<Rightarrow> logheader \<Rightarrow> logheader" where
  "lh_add blk h =
     (let i = log_slot h blk; h' = h\<lparr>lh_block := (lh_block h)(i := blk)\<rparr>
      in if int i = lh_n h then h'\<lparr>lh_n := lh_n h + 1\<rparr> else h')"

lemma log_slot_found: "blk \<in> logged h \<Longrightarrow> log_slot h blk < nat (lh_n h) \<and> lh_block h (log_slot h blk) = blk"
  by (auto simp: log_slot_def logged_def find_None_iff find_Some_iff split: option.splits)

lemma log_slot_new: "blk \<notin> logged h \<Longrightarrow> log_slot h blk = nat (lh_n h)"
  by (auto simp: log_slot_def logged_def find_None_iff find_Some_iff split: option.splits)

lemma lh_add_spec:
  assumes "lh_wf h"
  shows "lh_wf (lh_add blk h)" "logged (lh_add blk h) = insert blk (logged h)"
    "lh_n (lh_add blk h) = (if blk \<in> logged h then lh_n h else lh_n h + 1)"
proof -
  have n: "0 \<le> lh_n h" "inj_on (lh_block h) {..<nat (lh_n h)}" using assms by (auto simp: lh_wf_def)
  show "lh_wf (lh_add blk h)" "logged (lh_add blk h) = insert blk (logged h)"
    "lh_n (lh_add blk h) = (if blk \<in> logged h then lh_n h else lh_n h + 1)"
  proof (atomize (full), cases "blk \<in> logged h")
    case True
    note s = log_slot_found [OF True]
    then have "(lh_block h)(log_slot h blk := blk) = lh_block h" by auto
    moreover have "int (log_slot h blk) \<noteq> lh_n h" using s n(1) by auto
    ultimately have "lh_add blk h = h" by (simp add: lh_add_def Let_def)
    with True assms show "lh_wf (lh_add blk h) \<and> logged (lh_add blk h) = insert blk (logged h) \<and>
      lh_n (lh_add blk h) = (if blk \<in> logged h then lh_n h else lh_n h + 1)" by auto
  next
    case False
    then have add: "lh_add blk h = h\<lparr>lh_block := (lh_block h)(nat (lh_n h) := blk), lh_n := lh_n h + 1\<rparr>"
      using n(1) by (simp add: lh_add_def log_slot_new Let_def)
    have sn: "{..<nat (lh_n h + 1)} = insert (nat (lh_n h)) {..<nat (lh_n h)}"
      using n(1) by (auto simp: nat_add_distrib)
    have im: "((lh_block h)(nat (lh_n h) := blk)) ` {..<nat (lh_n h)} = lh_block h ` {..<nat (lh_n h)}"
      by (rule image_cong) auto
    have "inj_on ((lh_block h)(nat (lh_n h) := blk)) {..<nat (lh_n h)}"
      using n(2) by (auto simp: inj_on_def)
    with False n(1) im show "lh_wf (lh_add blk h) \<and> logged (lh_add blk h) = insert blk (logged h) \<and>
      lh_n (lh_add blk h) = (if blk \<in> logged h then lh_n h else lh_n h + 1)"
      by (simp add: add lh_wf_def logged_def sn inj_on_insert image_insert del: fun_upd_apply)
        (auto simp: logged_def)
  qed
qed

lemma lh_add_keeps:
  assumes "lh_wf h" "i < nat (lh_n h)"
  shows "lh_block (lh_add blk h) i = lh_block h i"
proof (cases "blk \<in> logged h")
  case True
  then show ?thesis using log_slot_found [OF True] by (simp add: lh_add_def Let_def)
next
  case False
  then show ?thesis using log_slot_new [OF False] assms(2) by (simp add: lh_add_def Let_def)
qed

lemma bpin_eq:
  assumes "lock_free Bcache_lock (sync w)" "cpu_ok (sync w)"
  shows "bpin b w = Ok (upd_buf b (\<lambda>x. x\<lparr>b_refcnt := b_refcnt x + 1\<rparr>) (w\<lparr>sync := settle (sync w)\<rparr>))"
  using assms by (simp add: bpin_def lock_simps upd_buf_def)

lemma log_write_eq:
  assumes "lock_free Log_lock (sync w)" "lock_free Bcache_lock (sync w)" "cpu_ok (sync w)"
    and "lh_wf (log_lh (logs w))" "lh_n (log_lh (logs w)) < LOGBLOCKS" "1 \<le> log_outstanding (logs w)"
    and "blk = sint (b_blockno (the_buf w b))"
  shows "\<exists>w'. log_write b w = Ok w' \<and> w' = w\<lparr>sync := settle (sync w), fs := fs w'\<rparr>
    \<and> logs w' = (logs w)\<lparr>log_lh := lh_add blk (log_lh (logs w))\<rparr>
    \<and> bufs (fs w') = (bufs (fs w))(b := (the_buf w b)\<lparr>b_refcnt :=
        b_refcnt (the_buf w b) + (if blk \<in> logged (log_lh (logs w)) then 0 else 1)\<rparr>)
    \<and> fs w' = (fs w)\<lparr>logst := logs w', bufs := bufs (fs w')\<rparr>"
proof (cases "blk \<in> logged (log_lh (logs w))")
  case True
  have "int (log_slot (log_lh (logs w)) blk) \<noteq> lh_n (log_lh (logs w))"
    using log_slot_found [OF True] assms(4) by (auto simp: lh_wf_def)
  then show ?thesis
    using assms True
    by (simp add: log_write_def lock_simps Let_def upd_lh_def upd_log_def lh_add_def fun_upd_idem)
next
  case False
  have "int (log_slot (log_lh (logs w)) blk) = lh_n (log_lh (logs w))"
    using log_slot_new [OF False] assms(4) by (auto simp: lh_wf_def)
  then show ?thesis
    using assms False
    by (simp add: log_write_def lock_simps Let_def upd_lh_def upd_log_def lh_add_def bpin_eq upd_buf_def)
qed

text \<open>
  C21: \<^verbatim>\<open>log_write\<close> puts the block into the running transaction once: it pins the buffer and extends the
  log exactly when the block was not yet in the transaction (log absorption), the transaction then
  holds that block and those it had, each in the slot it had, no block is in it twice, and nothing else changes: no other
  buffer, no other part of the log, the disk or the kernel, and every lock is as it was before.
\<close>

theorem log_write_absorbs:
  assumes "lock_free Log_lock (sync w)" and "lock_free Bcache_lock (sync w)" and "cpu_ok (sync w)"
    and "lh_wf (log_lh (logs w))" and "lh_n (log_lh (logs w)) < LOGBLOCKS" and "1 \<le> log_outstanding (logs w)"
    and "blk = sint (b_blockno (the_buf w b))" and "new \<longleftrightarrow> blk \<notin> logged (log_lh (logs w))"
  shows "\<exists>h. log_write b w = Ok (w\<lparr>sync := settle (sync w), fs := (fs w)\<lparr>logst := (logs w)\<lparr>log_lh := h\<rparr>,
        bufs := (bufs (fs w))(b := (the_buf w b)\<lparr>b_refcnt := b_refcnt (the_buf w b) + of_bool new\<rparr>)\<rparr>\<rparr>)
    \<and> lh_wf h \<and> logged h = insert blk (logged (log_lh (logs w))) \<and> lh_n h = lh_n (log_lh (logs w)) + of_bool new
    \<and> (\<forall>i<nat (lh_n (log_lh (logs w))). lh_block h i = lh_block (log_lh (logs w)) i)
    \<and> lks (settle (sync w)) = lks (sync w)"
proof -
  let ?h = "lh_add blk (log_lh (logs w))"
  obtain w' where w': "log_write b w = Ok w'" "w' = w\<lparr>sync := settle (sync w), fs := fs w'\<rparr>"
    "logs w' = (logs w)\<lparr>log_lh := ?h\<rparr>"
    "bufs (fs w') = (bufs (fs w))(b := (the_buf w b)\<lparr>b_refcnt := b_refcnt (the_buf w b) + of_bool new\<rparr>)"
    "fs w' = (fs w)\<lparr>logst := logs w', bufs := bufs (fs w')\<rparr>"
    using log_write_eq [OF assms(1-7)] assms(8) by (auto simp: of_bool_def)
  have "fs w' = (fs w)\<lparr>logst := (logs w)\<lparr>log_lh := ?h\<rparr>,
      bufs := (bufs (fs w))(b := (the_buf w b)\<lparr>b_refcnt := b_refcnt (the_buf w b) + of_bool new\<rparr>)\<rparr>"
    using w'(3-5) by metis
  with w'(1,2) have "log_write b w = Ok (w\<lparr>sync := settle (sync w), fs := (fs w)\<lparr>logst := (logs w)\<lparr>log_lh := ?h\<rparr>,
        bufs := (bufs (fs w))(b := (the_buf w b)\<lparr>b_refcnt := b_refcnt (the_buf w b) + of_bool new\<rparr>)\<rparr>\<rparr>)" by metis
  with lh_add_spec [OF assms(4), of blk] lh_add_keeps [OF assms(4), of _ blk] settle_lks(1) assms(8)
  show ?thesis by (intro exI [of _ ?h]) auto
qed

text \<open>A machine in which one operation is outstanding and block 7 is logged.\<close>

definition log_world :: world where
  "log_world = (let w = run_world (\<lambda>_ _. None) in w\<lparr>fs := (fs w)\<lparr>logst := (logs w)\<lparr>log_outstanding := 1,
      log_lh := \<lparr>lh_n = 1, lh_block = (\<lambda>_. 7)\<rparr>\<rparr>\<rparr>\<rparr>)"

lemma log_world_simps:
  "sync log_world = sync (run_world (\<lambda>_ _. None))" "log_outstanding (logs log_world) = 1"
  "log_lh (logs log_world) = \<lparr>lh_n = 1, lh_block = (\<lambda>_. 7)\<rparr>"
  "logged \<lparr>lh_n = 1, lh_block = (\<lambda>_. 7)\<rparr> = {7}" "lh_wf \<lparr>lh_n = 1, lh_block = (\<lambda>_. 7)\<rparr>"
  "the_buf log_world b = the_buf (run_world (\<lambda>_ _. None)) b"
  by (auto simp: log_world_def logged_def lh_wf_def Let_def inj_on_def)

theorem log_write_absorbs_witness:
  "\<exists>w'. log_write 0 log_world = Ok w' \<and> lh_n (log_lh (logs w')) = 2
     \<and> logged (log_lh (logs w')) = {0, 7}"
proof -
  have "b_blockno (the_buf log_world 0) = 0"
    by (simp add: log_world_simps) (simp add: run_world_def boot_world_def Let_def zero_fsys_def)
  then show ?thesis
    using log_write_absorbs [of log_world 0 0 True]
    by (auto simp: log_world_simps LOGBLOCKS_def)
qed

section \<open>Reserving log space\<close>

text \<open>
  The log as the operations of several threads see it: \<open>u t\<close> is the number of blocks thread \<open>t\<close> has
  added since its \<open>begin_op\<close>, \<open>None\<close> outside an operation. Each step runs one critical section of \<^verbatim>\<open>log.c\<close>: the last
  round of the loop of \<open>begin_op\<close>, \<open>log_write\<close>, the first section of \<open>end_op\<close>, and the clearing of the log at the end of
  \<open>commit\<close> with the second section of \<open>end_op\<close>. In between anything may happen that leaves the log alone. An operation
  adds at most \<open>MAXOPBLOCKS\<close> blocks. The locks a section takes are free when it starts.
\<close>

definition log_quiet :: "world \<Rightarrow> bool" where
  "log_quiet w \<longleftrightarrow> cpu_ok (sync w) \<and> lock_free Log_lock (sync w) \<and> lock_free Bcache_lock (sync w) \<and> others_free (sync w)"

inductive log_step :: "world \<times> (nat \<Rightarrow> int option) \<Rightarrow> world \<times> (nat \<Rightarrow> int option) \<Rightarrow> bool" where
  op_begins: "u t = None \<Longrightarrow> log_quiet w \<Longrightarrow> begin_op_step (w\<lparr>sync := acq Log_lock (sync w)\<rparr>) = Ok (Done w') \<Longrightarrow>
     log_step (w, u) (w', u(t := Some 0))"
| op_writes: "u t = Some k \<Longrightarrow> log_quiet w \<Longrightarrow> log_write b w = Ok w' \<Longrightarrow>
     k' = k + (lh_n (log_lh (logs w')) - lh_n (log_lh (logs w))) \<Longrightarrow> k' \<le> MAXOPBLOCKS \<Longrightarrow>
     log_step (w, u) (w', u(t := Some k'))"
| op_ends: "u t = Some k \<Longrightarrow> log_quiet w \<Longrightarrow> end_op_enter w = Ok (do_commit, w') \<Longrightarrow>
     log_step (w, u) (w', u(t := None))"
| commits: "log_committing (logs w) \<noteq> 0 \<Longrightarrow> log_quiet w \<Longrightarrow> end_op_leave (clear_log w) = Ok w' \<Longrightarrow>
     log_step (w, u) (w', u)"
| others: "logs w' = logs w \<Longrightarrow> log_step (w, u) (w', u)"

inductive log_reach :: "world \<Rightarrow> world \<times> (nat \<Rightarrow> int option) \<Rightarrow> bool" for w0 where
  start: "log_reach w0 (w0, \<lambda>_. None)"
| step: "log_reach w0 s \<Longrightarrow> log_step s s' \<Longrightarrow> log_reach w0 s'"

text \<open>What each section does to the log; \<open>begin_op\<close> returns from such a round.\<close>

lemma begin_op_returns: "begin_op w = Ok w' \<Longrightarrow> \<exists>w1. begin_op_step w1 = Ok (Done w')"
  unfolding begin_op_def bnd_eq_Ok_iff by (elim exE conjE) (rule loop_res_rule [where I = "\<lambda>_. True"], auto)

lemma begin_op_exit:
  assumes "log_quiet w" "begin_op_step (w\<lparr>sync := acq Log_lock (sync w)\<rparr>) = Ok (Done w')"
  shows "log_committing (logs w) = 0" "lh_n (log_lh (logs w)) + (log_outstanding (logs w) + 1) * MAXOPBLOCKS \<le> LOGBLOCKS"
    "logs w' = (logs w)\<lparr>log_outstanding := log_outstanding (logs w) + 1\<rparr>"
  using assms by (auto simp: begin_op_step_def log_quiet_def lock_simps upd_log_def bnd_eq_Ok_iff split: if_splits)

lemma log_write_logs:
  assumes "log_quiet w" "lh_wf (log_lh (logs w))" "log_write b w = Ok w'"
  shows "\<exists>blk. logs w' = (logs w)\<lparr>log_lh := lh_add blk (log_lh (logs w))\<rparr>"
proof -
  have q: "lock_free Log_lock (sync w)" "lock_free Bcache_lock (sync w)" "cpu_ok (sync w)" using assms(1) by (auto simp: log_quiet_def)
  have "lh_n (log_lh (logs w)) < LOGBLOCKS" "1 \<le> log_outstanding (logs w)"
    using assms(3) q by (auto simp: log_write_def lock_simps split: if_splits)
  from log_write_eq [OF q assms(2) this refl, of b] assms(3) show ?thesis by auto
qed

lemma end_op_enter_logs:
  assumes "log_quiet w"
  shows "end_op_enter w = Ok (d, w') \<Longrightarrow> log_committing (logs w) = 0 \<and> logs w' = (logs w)\<lparr>log_outstanding := log_outstanding (logs w) - 1,
      log_committing := (if log_outstanding (logs w) - 1 = 0 then 1 else 0)\<rparr>"
    "log_committing (logs w) = 0 \<Longrightarrow> \<exists>d w'. end_op_enter w = Ok (d, w')"
  using assms by (auto simp: end_op_enter_def log_quiet_def lock_simps upd_log_def Let_def split: if_splits)

lemma end_op_leave_logs:
  assumes "log_quiet w" "end_op_leave (clear_log w) = Ok w'"
  shows "logs w' = (logs w)\<lparr>log_lh := (log_lh (logs w))\<lparr>lh_n := 0\<rparr>, log_committing := 0\<rparr>"
  using assms by (auto simp: end_op_leave_def clear_log_def upd_lh_def log_quiet_def lock_simps upd_log_def)

text \<open>The log in the state \<open>initlog\<close> leaves it in.\<close>

definition log_fresh :: "log \<Rightarrow> bool" where
  "log_fresh l \<longleftrightarrow> lh_n (log_lh l) = 0 \<and> log_outstanding l = 0 \<and> log_committing l = 0"

text \<open>The blocks logged and the blocks that outstanding operations may still add fit in the log.\<close>

definition log_inv :: "log \<times> (nat \<Rightarrow> int option) \<Rightarrow> bool" where
  "log_inv = (\<lambda>(l, u). lh_wf (log_lh l) \<and> finite (dom u) \<and> log_outstanding l = int (card (dom u))
     \<and> (\<forall>t k. u t = Some k \<longrightarrow> 0 \<le> k \<and> k \<le> MAXOPBLOCKS)
     \<and> lh_n (log_lh l) + (\<Sum>t\<in>dom u. MAXOPBLOCKS - the (u t)) \<le> LOGBLOCKS
     \<and> (log_committing l \<noteq> 0 \<longrightarrow> u = (\<lambda>_. None)))"

definition room_left :: "(nat \<Rightarrow> int option) \<Rightarrow> int" where
  "room_left u = (\<Sum>t\<in>dom u. MAXOPBLOCKS - the (u t))"

lemma room_left_upd:
  assumes "finite (dom u)"
  shows "u t = None \<Longrightarrow> room_left (u(t := Some k)) = room_left u + (MAXOPBLOCKS - k)"
    "u t = Some j \<Longrightarrow> room_left (u(t := Some k)) = room_left u + j - k"
    "u t = Some j \<Longrightarrow> room_left (u(t := None)) = room_left u - (MAXOPBLOCKS - j)"
proof -
  have eq: "(\<Sum>s\<in>dom u - {t}. MAXOPBLOCKS - the ((u(t := x)) s)) = (\<Sum>s\<in>dom u - {t}. MAXOPBLOCKS - the (u s))" for x
    by (rule sum.cong) auto
  have all: "room_left u = (\<Sum>s\<in>dom u - {t}. MAXOPBLOCKS - the (u s)) + (if t \<in> dom u then MAXOPBLOCKS - the (u t) else 0)"
    using assms by (auto simp: room_left_def sum.remove)
  have ins: "room_left (u(t := Some k)) = (\<Sum>s\<in>dom u - {t}. MAXOPBLOCKS - the (u s)) + (MAXOPBLOCKS - k)" for k
    using assms eq by (simp add: room_left_def sum.insert_remove del: fun_upd_apply) simp
  have del: "room_left (u(t := None)) = (\<Sum>s\<in>dom u - {t}. MAXOPBLOCKS - the (u s))"
    using eq by (simp add: room_left_def del: fun_upd_apply)
  show "u t = None \<Longrightarrow> room_left (u(t := Some k)) = room_left u + (MAXOPBLOCKS - k)"
    "u t = Some j \<Longrightarrow> room_left (u(t := Some k)) = room_left u + j - k"
    "u t = Some j \<Longrightarrow> room_left (u(t := None)) = room_left u - (MAXOPBLOCKS - j)"
    using all ins del by (auto simp: domIff)
qed

lemma room_left_ends:
  "finite (dom u) \<Longrightarrow> u t = Some k \<Longrightarrow> k \<le> MAXOPBLOCKS \<Longrightarrow> room_left (u(t := None)) \<le> room_left u"
  by (simp add: room_left_upd(3))

lemma room_left_bound:
  assumes "finite (dom u)" "\<forall>t k. u t = Some k \<longrightarrow> 0 \<le> k \<and> k \<le> MAXOPBLOCKS"
  shows "0 \<le> room_left u" "room_left u \<le> int (card (dom u)) * MAXOPBLOCKS"
    "u t = Some k \<Longrightarrow> MAXOPBLOCKS - k \<le> room_left u"
proof -
  have b: "0 \<le> MAXOPBLOCKS - the (u s)" "MAXOPBLOCKS - the (u s) \<le> MAXOPBLOCKS" if "s \<in> dom u" for s
    using that assms(2) by auto
  show "0 \<le> room_left u" unfolding room_left_def by (rule sum_nonneg) (rule b)
  show "room_left u \<le> int (card (dom u)) * MAXOPBLOCKS"
    unfolding room_left_def using sum_bounded_above [of "dom u" "\<lambda>t. MAXOPBLOCKS - the (u t)" MAXOPBLOCKS] b by simp
  show "MAXOPBLOCKS - k \<le> room_left u" if "u t = Some k"
    unfolding room_left_def using member_le_sum [of t "dom u" "\<lambda>t. MAXOPBLOCKS - the (u t)"] b assms(1) that by auto
qed

lemma log_inv_alt:
  "log_inv (l, u) \<longleftrightarrow> lh_wf (log_lh l) \<and> finite (dom u) \<and> log_outstanding l = int (card (dom u))
     \<and> (\<forall>t k. u t = Some k \<longrightarrow> 0 \<le> k \<and> k \<le> MAXOPBLOCKS)
     \<and> lh_n (log_lh l) + room_left u \<le> LOGBLOCKS \<and> (log_committing l \<noteq> 0 \<longrightarrow> u = (\<lambda>_. None))"
  by (simp add: log_inv_def room_left_def)

lemma log_step_inv: "log_step (w, u) (w', u') \<Longrightarrow> log_inv (logs w, u) \<Longrightarrow> log_inv (logs w', u')"
proof (induction "(w, u)" "(w', u')" arbitrary: w u w' u' rule: log_step.induct)
  case (op_begins u t w w')
  note e = begin_op_exit [OF op_begins.hyps(2,3)]
  have "finite (dom u)" "lh_n (log_lh (logs w)) + room_left u \<le> LOGBLOCKS"
    "room_left u \<le> log_outstanding (logs w) * MAXOPBLOCKS"
    using room_left_bound(2) [of u] op_begins.prems by (auto simp: log_inv_alt)
  with op_begins.prems op_begins.hyps(1) e show ?case
    by (auto simp: log_inv_alt room_left_upd(1) domIff algebra_simps MAXOPBLOCKS_def split: if_splits)
next
  case (op_writes u t k w b w' k')
  have wf: "lh_wf (log_lh (logs w))" using op_writes.prems by (simp add: log_inv_alt)
  from log_write_logs [OF op_writes.hyps(2) wf op_writes.hyps(3)] obtain blk where
    l: "logs w' = (logs w)\<lparr>log_lh := lh_add blk (log_lh (logs w))\<rparr>" by blast
  note a = lh_add_spec [OF wf, of blk]
  have "dom (u(t := Some k')) = dom u" using op_writes.hyps(1) by auto
  moreover have "room_left (u(t := Some k')) = room_left u + k - k'"
    using room_left_upd(2) [of u t k k'] op_writes by (auto simp: log_inv_alt)
  moreover have "0 \<le> k" "k \<le> k'" using op_writes a(3) l by (auto simp: log_inv_alt)
  ultimately show ?case using op_writes.prems op_writes.hyps(4,5) a(1) l by (auto simp: log_inv_alt)
next
  case (op_ends u t k w d w')
  note e = end_op_enter_logs(1) [OF op_ends.hyps(2,3)]
  have t: "t \<in> dom u" "finite (dom u)" using op_ends by (auto simp: log_inv_alt)
  then have c: "card (dom (u(t := None))) = card (dom u) - 1" "0 < card (dom u)"
    by (simp_all add: card_gt_0_iff card_Diff_singleton) blast
  have "room_left (u(t := None)) \<le> room_left u"
    using op_ends by (intro room_left_ends) (auto simp: log_inv_alt)
  moreover have "u(t := None) = (\<lambda>_. None)" if "log_outstanding (logs w) - 1 = 0"
  proof -
    have "card (dom u) = 1" using that op_ends.prems by (simp add: log_inv_alt)
    then have "dom u = {t}" using t(1) by (metis card_1_singletonE singletonD)
    then show ?thesis by (auto simp: fun_eq_iff dom_def)
  qed
  ultimately show ?case
    using op_ends.prems e c by (auto simp: log_inv_alt split: if_splits)
next
  case (commits w w' u)
  then have "u = (\<lambda>_. None)" by (simp add: log_inv_alt)
  with commits.prems end_op_leave_logs [OF commits.hyps(2,3)] show ?case
    by (auto simp: log_inv_alt lh_wf_def room_left_def LOGBLOCKS_def)
qed simp

lemma log_reach_inv: "log_reach w0 (w, u) \<Longrightarrow> log_fresh (logs w0) \<Longrightarrow> log_inv (logs w, u)"
proof (induction "(w, u)" arbitrary: w u rule: log_reach.induct)
  case start
  then show ?case by (simp add: log_inv_alt log_fresh_def lh_wf_def room_left_def LOGBLOCKS_def)
next
  case (step s)
  then show ?case using log_step_inv by (cases s) blast
qed

text \<open>
  C22: the reservation that \<^verbatim>\<open>begin_op\<close> makes is enough: however the critical sections of operations of several threads
  interleave, from a log as \<open>initlog\<close> leaves it, an operation that has added fewer than \<open>MAXOPBLOCKS\<close> blocks can log any
  further block without the panic \<^verbatim>\<open>too big a transaction\<close> or \<^verbatim>\<open>log_write outside of trans\<close>, the header still
  fits in \<open>LOGBLOCKS\<close> blocks, and the write is again a step of such an interleaving; nor does \<^verbatim>\<open>end_op\<close> panic.
\<close>

theorem log_never_overflows:
  assumes "log_fresh (logs w0)" and "log_reach w0 (w, u)" and "u t = Some k" and "k < MAXOPBLOCKS" and "log_quiet w"
  shows "\<exists>w' k'. log_write b w = Ok w' \<and> lh_n (log_lh (logs w')) \<le> LOGBLOCKS
    \<and> log_reach w0 (w', u(t := Some k')) \<and> k \<le> k' \<and> k' \<le> k + 1 \<and> (\<exists>d w''. end_op_enter w = Ok (d, w''))"
proof -
  let ?blk = "sint (b_blockno (the_buf w b))" and ?h = "log_lh (logs w)"
  have inv: "log_inv (logs w, u)" using log_reach_inv assms(1,2) by blast
  then have fin: "finite (dom u)" "\<forall>t k. u t = Some k \<longrightarrow> 0 \<le> k \<and> k \<le> MAXOPBLOCKS" "lh_wf ?h"
    "lh_n ?h + room_left u \<le> LOGBLOCKS" "log_outstanding (logs w) = int (card (dom u))" "log_committing (logs w) = 0"
    using assms(3) by (auto simp: log_inv_alt)
  have n: "lh_n ?h < LOGBLOCKS" using room_left_bound(3) [OF fin(1,2) assms(3)] fin(4) assms(4) by linarith
  have "0 < card (dom u)" using fin(1) assms(3) by (auto simp: card_gt_0_iff)
  then have out: "1 \<le> log_outstanding (logs w)" using fin(5) by linarith
  have q: "lock_free Log_lock (sync w)" "lock_free Bcache_lock (sync w)" "cpu_ok (sync w)" using assms(5) by (auto simp: log_quiet_def)
  obtain w' where w': "log_write b w = Ok w'" "logs w' = (logs w)\<lparr>log_lh := lh_add ?blk ?h\<rparr>"
    using log_write_eq [OF q fin(3) n out refl, of b] by blast
  define k' where "k' = k + (lh_n (log_lh (logs w')) - lh_n ?h)"
  have k': "k \<le> k'" "k' \<le> k + 1" "lh_n (log_lh (logs w')) \<le> LOGBLOCKS" using lh_add_spec(3) [OF fin(3), of ?blk] n by (auto simp: k'_def w'(2))
  then have "log_step (w, u) (w', u(t := Some k'))"
    using assms(4) by (intro op_writes [where k = k, OF _ assms(5) w'(1) k'_def]) (simp_all add: assms(3))
  with assms(2) have "log_reach w0 (w', u(t := Some k'))" by (rule log_reach.step)
  with w'(1) k' end_op_enter_logs(2) [OF assms(5) fin(6)] show ?thesis by blast
qed

theorem log_never_overflows_witness:
  "\<exists>w w'. begin_op (run_world (\<lambda>_ _. None)) = Ok w \<and> log_write 3 w = Ok w' \<and> lh_n (log_lh (logs w')) \<le> LOGBLOCKS"
proof -
  let ?w = "run_world (\<lambda>_ _. None)"
  let ?w1 = "upd_log (\<lambda>l. l\<lparr>log_outstanding := log_outstanding l + 1\<rparr>) (?w\<lparr>sync := settle (sync ?w)\<rparr>)"
  have l0: "log_fresh (logs ?w)" by (simp add: log_fresh_def run_world_def boot_world_def zero_fsys_def Let_def)
  have q: "log_quiet ?w" by (simp add: log_quiet_def)
  have s: "begin_op_step (?w\<lparr>sync := acq Log_lock (sync ?w)\<rparr>) = Ok (Done ?w1)"
    using l0 by (simp add: begin_op_step_def log_fresh_def MAXOPBLOCKS_def LOGBLOCKS_def lock_simps upd_log_def)
  then have b: "begin_op ?w = Ok ?w1" by (simp add: begin_op_def lock_simps) (subst loop_res_unfold, simp)
  have "log_reach ?w (?w1, (\<lambda>_. None)(0 := Some 0))"
    using log_reach.step [OF log_reach.start op_begins [where t = 0, OF _ q s]] by simp
  from log_never_overflows [OF l0 this, of 0 0 3] b show ?thesis
    by (auto simp: MAXOPBLOCKS_def upd_log_def lock_simps log_quiet_def)
qed

end
