(* ===== verification/Xv6_Fs.thy ===== *)
theory Xv6_Fs
  imports Xv6_Log
begin

text \<open>
  \<^verbatim>\<open>kernel/fs.c\<close>: the block allocator, inodes and their content, directories and path names. An inode
  pointer is an index into \<^verbatim>\<open>itable.inode\<close>; a path is the list of its bytes before the NUL; a name buffer
  is the array of its \<open>DIRSIZ\<close> bytes.
\<close>

unbundle bit_operations_syntax

section \<open>Super block and block allocator\<close>

definition FSMAGIC :: u32 where "FSMAGIC = 0x10203040"
definition T_DIR :: u16 where "T_DIR = 1"
definition T_FILE :: u16 where "T_FILE = 2"
definition T_DEVICE :: u16 where "T_DEVICE = 3"
definition BPB :: u32 where "BPB = 8192"
definition IPB :: u32 where "IPB = 16"

abbreviation sb :: "world \<Rightarrow> superblock" where
  "sb w \<equiv> sblk (fs w)"

definition IBLOCK :: "u32 \<Rightarrow> world \<Rightarrow> u32" where
  "IBLOCK i w = i div IPB + sb_inodestart (sb w)"

definition BBLOCK :: "u32 \<Rightarrow> world \<Rightarrow> u32" where
  "BBLOCK b w = b div BPB + sb_bmapstart (sb w)"

text \<open>A null pointer that is dereferenced is a page fault in the kernel.\<close>

definition deref :: "'a option \<Rightarrow> 'a res" where
  "deref p = (case p of None \<Rightarrow> Panic ''kerneltrap'' | Some x \<Rightarrow> Ok x)"

definition sb_of_block :: "block \<Rightarrow> superblock" where
  "sb_of_block d = \<lparr>sb_magic = blk_ld32 0 d, sb_size = blk_ld32 4 d, sb_nblocks = blk_ld32 8 d,
     sb_ninodes = blk_ld32 12 d, sb_nlog = blk_ld32 16 d, sb_logstart = blk_ld32 20 d,
     sb_inodestart = blk_ld32 24 d, sb_bmapstart = blk_ld32 28 d\<rparr>"

definition readsb :: "int \<Rightarrow> world \<Rightarrow> world res" where
  "readsb dev w =
     bnd (bread (word_of_int dev) 1 w) (\<lambda>(bp, w).
     brelse bp (w\<lparr>fs := (fs w)\<lparr>sblk := sb_of_block (b_data (the_buf w bp))\<rparr>\<rparr>))"

definition bzero :: "u32 \<Rightarrow> u32 \<Rightarrow> world \<Rightarrow> world res" where
  "bzero dev bno w =
     bnd (bread dev bno w) (\<lambda>(bp, w).
     bnd (log_write bp (upd_data bp (blk_put 0 (replicate BSIZE 0)) w)) (brelse bp))"

definition bit_set :: "block \<Rightarrow> nat \<Rightarrow> bool" where
  "bit_set d bi \<longleftrightarrow> d (bi div 8) AND push_bit (bi mod 8) 1 \<noteq> 0"

definition set_bit_of :: "nat \<Rightarrow> block \<Rightarrow> block" where
  "set_bit_of bi d = d(bi div 8 := d (bi div 8) OR push_bit (bi mod 8) 1)"

definition clear_bit_of :: "nat \<Rightarrow> block \<Rightarrow> block" where
  "clear_bit_of bi d = d(bi div 8 := d (bi div 8) AND NOT (push_bit (bi mod 8) 1))"

text \<open>The inner loop of \<^verbatim>\<open>balloc\<close>: the first clear bit of the bitmap block that covers block \<open>b\<close> onward.\<close>

definition balloc_bit :: "u32 \<Rightarrow> u32 \<Rightarrow> block \<Rightarrow> nat option" where
  "balloc_bit b nblk d =
     List.find (\<lambda>bi. \<not> bit_set d bi) (takeWhile (\<lambda>bi. b + of_nat bi < nblk) [0..<unat BPB])"

definition balloc_step :: "u32 \<Rightarrow> u32 \<times> world \<Rightarrow> (u32 \<times> world, u32 \<times> world) ctl res" where
  "balloc_step dev = (\<lambda>(b, w).
     if \<not> b < sb_size (sb w)
     then bnd (printf (''balloc: out of blocks'' @ [CHR 0x0A]) [] w) (\<lambda>w. Ok (Done (0, w)))
     else bnd (bread dev (BBLOCK b w) w) (\<lambda>(bp, w).
          case balloc_bit b (sb_size (sb w)) (b_data (the_buf w bp)) of
            Some bi \<Rightarrow>
              bnd (log_write bp (upd_data bp (set_bit_of bi) w)) (\<lambda>w.
              bnd (brelse bp w) (\<lambda>w.
              bnd (bzero dev (b + of_nat bi) w) (\<lambda>w.
              Ok (Done (b + of_nat bi, w)))))
          | None \<Rightarrow> bnd (brelse bp w) (\<lambda>w. Ok (Next (b + BPB, w)))))"

definition balloc :: "u32 \<Rightarrow> world \<Rightarrow> (u32 \<times> world) res" where
  "balloc dev w = loop_res (balloc_step dev) (0, w)"

definition bfree :: "u32 \<Rightarrow> u32 \<Rightarrow> world \<Rightarrow> world res" where
  "bfree dev b w =
     bnd (bread dev (BBLOCK b w) w) (\<lambda>(bp, w).
     let bi = unat (b mod BPB)
     in if \<not> bit_set (b_data (the_buf w bp)) bi then Panic ''freeing free block''
        else bnd (log_write bp (upd_data bp (clear_bit_of bi) w)) (brelse bp))"

section \<open>Inodes\<close>

abbreviation ino :: "world \<Rightarrow> nat \<Rightarrow> inode" where
  "ino w i \<equiv> inodes (fs w) i"

definition upd_inode :: "nat \<Rightarrow> (inode \<Rightarrow> inode) \<Rightarrow> world \<Rightarrow> world" where
  "upd_inode i f w = w\<lparr>fs := (fs w)\<lparr>inodes := (inodes (fs w))(i := f (inodes (fs w) i))\<rparr>\<rparr>"

definition iinit :: "world \<Rightarrow> world" where
  "iinit w = fold (\<lambda>i. initsleeplock (Inode_lock i) ''inode'') [0..<NINODE] (initlock Itable_lock ''itable'' w)"

text \<open>The on-disk inode \<open>inum\<close> is 64 bytes at \<^verbatim>\<open>64 * (inum % IPB)\<close> of its block.\<close>

definition dip_off :: "u32 \<Rightarrow> nat" where
  "dip_off inum = 64 * unat (inum mod IPB)"

definition dip_type :: "u32 \<Rightarrow> block \<Rightarrow> u16" where
  "dip_type inum d = blk_ld16 (dip_off inum) d"

definition dip_nlink :: "u32 \<Rightarrow> block \<Rightarrow> u16" where
  "dip_nlink inum d = blk_ld16 (dip_off inum + 6) d"

definition dinode_of :: "inode \<Rightarrow> block \<Rightarrow> block" where
  "dinode_of ip d =
     (let o0 = dip_off (i_inum ip);
          d = blk_st16 o0 (i_type ip) d;
          d = blk_st16 (o0 + 2) (i_major ip) d;
          d = blk_st16 (o0 + 4) (i_minor ip) d;
          d = blk_st16 (o0 + 6) (i_nlink ip) d;
          d = blk_st32 (o0 + 8) (i_size ip) d
      in fold (\<lambda>i. blk_st32 (o0 + 12 + 4 * i) (i_addrs ip i)) [0..<NDIRECT + 1] d)"

definition of_dinode :: "block \<Rightarrow> inode \<Rightarrow> inode" where
  "of_dinode d ip =
     (let o0 = dip_off (i_inum ip)
      in ip\<lparr>i_type := blk_ld16 o0 d, i_major := blk_ld16 (o0 + 2) d, i_minor := blk_ld16 (o0 + 4) d,
            i_nlink := blk_ld16 (o0 + 6) d, i_size := blk_ld32 (o0 + 8) d,
            i_addrs := (\<lambda>i. if i < NDIRECT + 1 then blk_ld32 (o0 + 12 + 4 * i) d else i_addrs ip i)\<rparr>)"

text \<open>
  \<^verbatim>\<open>iget\<close>: the entry of the table that holds the inode, else the first with no references.
\<close>

definition iget :: "u32 \<Rightarrow> u32 \<Rightarrow> world \<Rightarrow> (nat \<times> world) res" where
  "iget dev inum w =
     bnd (acquire Itable_lock w) (\<lambda>w.
     case List.find (\<lambda>i. i_ref (ino w i) > 0 \<and> i_dev (ino w i) = dev \<and> i_inum (ino w i) = inum) [0..<NINODE] of
       Some i \<Rightarrow>
         bnd (release Itable_lock (upd_inode i (\<lambda>ip. ip\<lparr>i_ref := i_ref ip + 1\<rparr>) w)) (\<lambda>w. Ok (i, w))
     | None \<Rightarrow>
         (case List.find (\<lambda>i. i_ref (ino w i) = 0) [0..<NINODE] of
            None \<Rightarrow> Panic ''iget: no inodes''
          | Some i \<Rightarrow>
              bnd (release Itable_lock (upd_inode i (\<lambda>ip. ip\<lparr>i_dev := dev, i_inum := inum, i_ref := 1,
                     i_valid := 0\<rparr>) w)) (\<lambda>w. Ok (i, w))))"

definition ialloc_step ::
  "u32 \<Rightarrow> u16 \<Rightarrow> u32 \<times> world \<Rightarrow> (nat option \<times> world, u32 \<times> world) ctl res" where
  "ialloc_step dev ty = (\<lambda>(inum, w).
     if \<not> inum < sb_ninodes (sb w)
     then bnd (printf (''ialloc: no inodes'' @ [CHR 0x0A]) [] w) (\<lambda>w. Ok (Done (None, w)))
     else bnd (bread dev (IBLOCK inum w) w) (\<lambda>(bp, w).
          if dip_type inum (b_data (the_buf w bp)) = 0
          then let w = upd_data bp (\<lambda>d. blk_st16 (dip_off inum) ty
                                          (blk_put (dip_off inum) (replicate 64 0) d)) w
               in bnd (log_write bp w) (\<lambda>w.
                  bnd (brelse bp w) (\<lambda>w.
                  bnd (iget dev inum w) (\<lambda>(i, w). Ok (Done (Some i, w)))))
          else bnd (brelse bp w) (\<lambda>w. Ok (Next (inum + 1, w)))))"

definition ialloc :: "u32 \<Rightarrow> u16 \<Rightarrow> world \<Rightarrow> (nat option \<times> world) res" where
  "ialloc dev ty w = loop_res (ialloc_step dev ty) (1, w)"

definition iupdate :: "nat \<Rightarrow> world \<Rightarrow> world res" where
  "iupdate i w =
     bnd (bread (i_dev (ino w i)) (IBLOCK (i_inum (ino w i)) w) w) (\<lambda>(bp, w).
     bnd (log_write bp (upd_data bp (dinode_of (ino w i)) w)) (brelse bp))"

definition idup :: "nat \<Rightarrow> world \<Rightarrow> world res" where
  "idup i w =
     bnd (acquire Itable_lock w) (\<lambda>w.
     release Itable_lock (upd_inode i (\<lambda>ip. ip\<lparr>i_ref := i_ref ip + 1\<rparr>) w))"

definition ilock :: "nat \<Rightarrow> world \<Rightarrow> world res" where
  "ilock i w =
     (if i_ref (ino w i) < 1 then Panic ''ilock''
      else bnd (acquiresleep (Inode_lock i) w) (\<lambda>w.
           if i_valid (ino w i) = 0
           then bnd (bread (i_dev (ino w i)) (IBLOCK (i_inum (ino w i)) w) w) (\<lambda>(bp, w).
                let w = upd_inode i (of_dinode (b_data (the_buf w bp))) w
                in bnd (brelse bp w) (\<lambda>w.
                   let w = upd_inode i (i_valid_update (\<lambda>_. 1)) w
                   in if i_type (ino w i) = 0 then Panic ''ilock: no type'' else Ok w))
           else Ok w))"

definition iunlock :: "nat \<Rightarrow> world \<Rightarrow> world res" where
  "iunlock i w =
     bnd (holdingsleep (Inode_lock i) w) (\<lambda>(h, w).
     if \<not> h \<or> i_ref (ino w i) < 1 then Panic ''iunlock''
     else releasesleep (Inode_lock i) w)"

definition itrunc_direct :: "nat \<Rightarrow> nat \<Rightarrow> world \<Rightarrow> world res" where
  "itrunc_direct i k w =
     (if i_addrs (ino w i) k \<noteq> 0
      then bnd (bfree (i_dev (ino w i)) (i_addrs (ino w i) k) w) (\<lambda>w.
           Ok (upd_inode i (\<lambda>ip. ip\<lparr>i_addrs := (i_addrs ip)(k := 0)\<rparr>) w))
      else Ok w)"

definition itrunc :: "nat \<Rightarrow> world \<Rightarrow> world res" where
  "itrunc i w =
     bnd (foreach (itrunc_direct i) [0..<NDIRECT] w) (\<lambda>w.
     bnd (if i_addrs (ino w i) NDIRECT \<noteq> 0
          then bnd (bread (i_dev (ino w i)) (i_addrs (ino w i) NDIRECT) w) (\<lambda>(bp, w).
               bnd (foreach (\<lambda>j w.
                      let a = blk_ld32 (4 * j) (b_data (the_buf w bp))
                      in if a \<noteq> 0 then bfree (i_dev (ino w i)) a w else Ok w) [0..<NINDIRECT] w) (\<lambda>w.
               bnd (brelse bp w) (\<lambda>w.
               bnd (bfree (i_dev (ino w i)) (i_addrs (ino w i) NDIRECT) w) (\<lambda>w.
               Ok (upd_inode i (\<lambda>ip. ip\<lparr>i_addrs := (i_addrs ip)(NDIRECT := 0)\<rparr>) w)))))
          else Ok w) (\<lambda>w.
     iupdate i (upd_inode i (i_size_update (\<lambda>_. 0)) w)))"

definition iput :: "nat \<Rightarrow> world \<Rightarrow> world res" where
  "iput i w =
     bnd (acquire Itable_lock w) (\<lambda>w.
     bnd (if i_ref (ino w i) = 1 \<and> i_valid (ino w i) \<noteq> 0 \<and> i_nlink (ino w i) = 0
          then bnd (acquiresleep (Inode_lock i) w) (\<lambda>w.
               bnd (release Itable_lock w) (\<lambda>w.
               bnd (itrunc i w) (\<lambda>w.
               bnd (iupdate i (upd_inode i (i_type_update (\<lambda>_. 0)) w)) (\<lambda>w.
               bnd (releasesleep (Inode_lock i) (upd_inode i (i_valid_update (\<lambda>_. 0)) w)) (\<lambda>w.
               acquire Itable_lock w)))))
          else Ok w) (\<lambda>w.
     release Itable_lock (upd_inode i (\<lambda>ip. ip\<lparr>i_ref := i_ref ip - 1\<rparr>) w)))"

definition iunlockput :: "nat \<Rightarrow> world \<Rightarrow> world res" where
  "iunlockput i w = bnd (iunlock i w) (iput i)"

definition ireclaim_step :: "u32 \<Rightarrow> u32 \<times> world \<Rightarrow> (u32 \<times> world) res" where
  "ireclaim_step dev = (\<lambda>(inum, w).
     bnd (bread dev (IBLOCK inum w) w) (\<lambda>(bp, w).
     bnd (if dip_type inum (b_data (the_buf w bp)) \<noteq> 0 \<and> dip_nlink inum (b_data (the_buf w bp)) = 0
          then bnd (printf (''ireclaim: orphaned inode %d'' @ [CHR 0x0A]) [VWord (ucast inum)] w) (\<lambda>w.
               bnd (iget dev inum w) (\<lambda>(i, w). Ok (Some i, w)))
          else Ok (None, w)) (\<lambda>(ip, w).
     bnd (brelse bp w) (\<lambda>w.
     case ip of
       None \<Rightarrow> Ok (inum + 1, w)
     | Some i \<Rightarrow>
         bnd (begin_op w) (\<lambda>w.
         bnd (ilock i w) (\<lambda>w.
         bnd (iunlock i w) (\<lambda>w.
         bnd (iput i w) (\<lambda>w.
         bnd (end_op w) (\<lambda>w. Ok (inum + 1, w))))))))))"

definition ireclaim :: "u32 \<Rightarrow> world \<Rightarrow> world res" where
  "ireclaim dev w =
     bnd (while_res (\<lambda>(inum, w). inum < sb_ninodes (sb w)) (ireclaim_step dev) (1, w)) (\<lambda>(_, w). Ok w)"

definition fsinit :: "int \<Rightarrow> world \<Rightarrow> world res" where
  "fsinit dev w =
     bnd (readsb dev w) (\<lambda>w.
     if sb_magic (sb w) \<noteq> FSMAGIC then Panic ''invalid file system''
     else bnd (initlog dev (sb w) w) (ireclaim (word_of_int dev)))"

section \<open>Inode content\<close>

text \<open>A block number of the inode, allocated on first use: the two occurrences of this in \<^verbatim>\<open>bmap\<close>.\<close>

definition bmap_slot :: "nat \<Rightarrow> nat \<Rightarrow> world \<Rightarrow> (u32 \<times> world) res" where
  "bmap_slot i k w =
     (if i_addrs (ino w i) k = 0
      then bnd (balloc (i_dev (ino w i)) w) (\<lambda>(addr, w).
           if addr = 0 then Ok (0, w)
           else Ok (addr, upd_inode i (\<lambda>ip. ip\<lparr>i_addrs := (i_addrs ip)(k := addr)\<rparr>) w))
      else Ok (i_addrs (ino w i) k, w))"

definition bmap :: "nat \<Rightarrow> u32 \<Rightarrow> world \<Rightarrow> (u32 \<times> world) res" where
  "bmap i bn w =
     (if bn < of_nat NDIRECT then bmap_slot i (unat bn) w
      else let bn = bn - of_nat NDIRECT
           in if bn < of_nat NINDIRECT
              then bnd (bmap_slot i NDIRECT w) (\<lambda>(addr, w).
                   if addr = 0 then Ok (0, w)
                   else bnd (bread (i_dev (ino w i)) addr w) (\<lambda>(bp, w).
                        let a = blk_ld32 (4 * unat bn) (b_data (the_buf w bp))
                        in bnd (if a = 0
                                then bnd (balloc (i_dev (ino w i)) w) (\<lambda>(a, w).
                                     if a \<noteq> 0
                                     then bnd (log_write bp (upd_data bp (blk_st32 (4 * unat bn) a) w)) (\<lambda>w. Ok (a, w))
                                     else Ok (a, w))
                                else Ok (a, w)) (\<lambda>(a, w).
                           bnd (brelse bp w) (\<lambda>w. Ok (a, w)))))
              else Panic ''bmap: out of range'')"

record stat =
  st_dev :: int
  st_ino :: u32
  st_type :: u16
  st_nlink :: u16
  st_size :: u64

definition stati :: "nat \<Rightarrow> world \<Rightarrow> stat" where
  "stati i w = \<lparr>st_dev = sint (i_dev (ino w i)), st_ino = i_inum (ino w i), st_type = i_type (ino w i),
     st_nlink = i_nlink (ino w i), st_size = ucast (i_size (ino w i))\<rparr>"

definition cdst_add :: "cdst \<Rightarrow> u32 \<Rightarrow> cdst" where
  "cdst_add d m = (case d of To_user a \<Rightarrow> To_user (a + ucast m) | To_mem a \<Rightarrow> To_mem (a + ucast m)
                   | To_local \<Rightarrow> To_local)"

definition csrc_add :: "csrc \<Rightarrow> u32 \<Rightarrow> csrc" where
  "csrc_add s m = (case s of From_user a \<Rightarrow> From_user (a + ucast m) | From_mem a \<Rightarrow> From_mem (a + ucast m)
                   | From_local bs \<Rightarrow> From_local (drop (unat m) bs))"

definition chunk :: "u32 \<Rightarrow> u32 \<Rightarrow> u32 \<Rightarrow> u32" where
  "chunk n tot off = min (n - tot) (of_nat BSIZE - off mod of_nat BSIZE)"

text \<open>
  The loop of \<^verbatim>\<open>readi\<close>. The result has, next to the return value, the bytes copied so far, which is what
  a destination that is a local variable holds afterwards.
\<close>

definition readi_step :: "nat \<Rightarrow> u32 \<Rightarrow> u32 \<times> u32 \<times> cdst \<times> u8 list \<times> world \<Rightarrow>
    (u32 \<times> u8 list \<times> world, u32 \<times> u32 \<times> cdst \<times> u8 list \<times> world) ctl res" where
  "readi_step i n = (\<lambda>(tot, off, dst, acc, w).
     if \<not> tot < n then Ok (Done (tot, acc, w))
     else bnd (bmap i (off div of_nat BSIZE) w) (\<lambda>(addr, w).
          if addr = 0 then Ok (Done (tot, acc, w))
          else bnd (bread (i_dev (ino w i)) addr w) (\<lambda>(bp, w).
               let m = chunk n tot off;
                   bs = blk_get (unat (off mod of_nat BSIZE)) (unat m) (b_data (the_buf w bp))
               in bnd (either_copyout dst bs w) (\<lambda>(r, w).
                  bnd (brelse bp w) (\<lambda>w.
                  if r = -1 then Ok (Done (- 1, acc, w))
                  else Ok (Next (tot + m, off + m, cdst_add dst m, acc @ bs, w)))))))"

definition readi :: "nat \<Rightarrow> cdst \<Rightarrow> u32 \<Rightarrow> u32 \<Rightarrow> world \<Rightarrow> (int \<times> u8 list \<times> world) res" where
  "readi i dst off n w =
     (if off > i_size (ino w i) \<or> off + n < off then Ok (0, [], w)
      else let n = (if off + n > i_size (ino w i) then i_size (ino w i) - off else n)
           in bnd (loop_res (readi_step i n) (0, off, dst, [], w)) (\<lambda>(tot, acc, w).
              Ok (sint tot, acc, w)))"

text \<open>
  The loop of \<^verbatim>\<open>writei\<close>. A copy that fails part of the way has already changed the buffer, which is then
  released without being logged.
\<close>

definition writei_step :: "nat \<Rightarrow> u32 \<Rightarrow> u32 \<times> u32 \<times> csrc \<times> world \<Rightarrow>
    (u32 \<times> u32 \<times> world, u32 \<times> u32 \<times> csrc \<times> world) ctl res" where
  "writei_step i n = (\<lambda>(tot, off, src, w).
     if \<not> tot < n then Ok (Done (tot, off, w))
     else bnd (bmap i (off div of_nat BSIZE) w) (\<lambda>(addr, w).
          if addr = 0 then Ok (Done (tot, off, w))
          else bnd (bread (i_dev (ino w i)) addr w) (\<lambda>(bp, w).
               let m = chunk n tot off
               in bnd (either_copyin src (unat m) w) (\<lambda>(r, bs, w).
                  let w = upd_data bp (blk_put (unat (off mod of_nat BSIZE)) bs) w
                  in if r = -1 then bnd (brelse bp w) (\<lambda>w. Ok (Done (tot, off, w)))
                     else bnd (log_write bp w) (\<lambda>w.
                          bnd (brelse bp w) (\<lambda>w.
                          Ok (Next (tot + m, off + m, csrc_add src m, w))))))))"

definition writei :: "nat \<Rightarrow> csrc \<Rightarrow> u32 \<Rightarrow> u32 \<Rightarrow> world \<Rightarrow> (int \<times> world) res" where
  "writei i src off n w =
     (if off > i_size (ino w i) \<or> off + n < off then Ok (-1, w)
      else if off + n > of_nat (MAXFILE * BSIZE) then Ok (-1, w)
      else bnd (loop_res (writei_step i n) (0, off, src, w)) (\<lambda>(tot, off, w).
           let w = (if off > i_size (ino w i) then upd_inode i (i_size_update (\<lambda>_. off)) w else w)
           in bnd (iupdate i w) (\<lambda>w. Ok (sint tot, w))))"

section \<open>Directories\<close>

text \<open>\<^verbatim>\<open>strncmp\<close> and \<^verbatim>\<open>strncpy\<close> on arrays; a read past the end of an array stops the comparison there.\<close>

primrec strncmp_arr :: "nat \<Rightarrow> nat \<Rightarrow> u8 list \<Rightarrow> u8 list \<Rightarrow> int" where
  "strncmp_arr 0 k p q = 0"
| "strncmp_arr (Suc n) k p q =
     (if arr_get p k \<noteq> 0 \<and> arr_get p k = arr_get q k then strncmp_arr n (Suc k) p q
      else uint (arr_get p k) - uint (arr_get q k))"

definition namecmp :: "u8 list \<Rightarrow> u8 list \<Rightarrow> int" where
  "namecmp s t = strncmp_arr DIRSIZ 0 s t"

definition strncpy_arr :: "u8 list \<Rightarrow> nat \<Rightarrow> u8 list" where
  "strncpy_arr t n = (let s = take n (cstring t) in s @ replicate (n - length s) 0)"

record dirent =
  de_inum :: u16
  de_name :: "u8 list"

definition dirent_of :: "u8 list \<Rightarrow> dirent" where
  "dirent_of bs = \<lparr>de_inum = of_le (take 2 bs), de_name = take DIRSIZ (drop 2 bs)\<rparr>"

definition dirent_bytes :: "dirent \<Rightarrow> u8 list" where
  "dirent_bytes de = le_bytes 2 (de_inum de) @ de_name de"

definition dirlookup_step ::
  "nat \<Rightarrow> u8 list \<Rightarrow> u32 \<times> world \<Rightarrow> ((nat \<times> u32) option \<times> world, u32 \<times> world) ctl res" where
  "dirlookup_step dp name = (\<lambda>(off, w).
     if \<not> off < i_size (ino w dp) then Ok (Done (None, w))
     else bnd (readi dp To_local off 16 w) (\<lambda>(r, bs, w).
          if r \<noteq> 16 then Panic ''dirlookup read''
          else let de = dirent_of bs
               in if de_inum de = 0 then Ok (Next (off + 16, w))
                  else if namecmp name (de_name de) = 0
                  then bnd (iget (i_dev (ino w dp)) (ucast (de_inum de)) w) (\<lambda>(i, w).
                       Ok (Done (Some (i, off), w)))
                  else Ok (Next (off + 16, w))))"

definition dirlookup :: "nat \<Rightarrow> u8 list \<Rightarrow> world \<Rightarrow> ((nat \<times> u32) option \<times> world) res" where
  "dirlookup dp name w =
     (if i_type (ino w dp) \<noteq> T_DIR then Panic ''dirlookup not DIR''
      else loop_res (dirlookup_step dp name) (0, w))"

definition dirlink_step :: "nat \<Rightarrow> u32 \<times> world \<Rightarrow> (u32 \<times> world, u32 \<times> world) ctl res" where
  "dirlink_step dp = (\<lambda>(off, w).
     if \<not> off < i_size (ino w dp) then Ok (Done (off, w))
     else bnd (readi dp To_local off 16 w) (\<lambda>(r, bs, w).
          if r \<noteq> 16 then Panic ''dirlink read''
          else if de_inum (dirent_of bs) = 0 then Ok (Done (off, w))
          else Ok (Next (off + 16, w))))"

definition dirlink :: "nat \<Rightarrow> u8 list \<Rightarrow> u32 \<Rightarrow> world \<Rightarrow> (int \<times> world) res" where
  "dirlink dp name inum w =
     bnd (dirlookup dp name w) (\<lambda>(f, w).
     case f of
       Some (i, _) \<Rightarrow> bnd (iput i w) (\<lambda>w. Ok (-1, w))
     | None \<Rightarrow>
         bnd (loop_res (dirlink_step dp) (0, w)) (\<lambda>(off, w).
         let de = \<lparr>de_inum = ucast inum, de_name = strncpy_arr name DIRSIZ\<rparr>
         in bnd (writei dp (From_local (dirent_bytes de)) off 16 w) (\<lambda>(r, w).
            if r \<noteq> 16 then Ok (-1, w) else Ok (0, w))))"

section \<open>Paths\<close>

definition slash :: u8 where "slash = 47"

text \<open>\<open>None\<close> is the null pointer \<^verbatim>\<open>skipelem\<close> returns when there is no element left.\<close>

definition skipelem :: "u8 list \<Rightarrow> u8 list \<Rightarrow> u8 list option \<times> u8 list" where
  "skipelem path name =
     (let path = dropWhile (\<lambda>c. c = slash) path
      in if path = [] then (None, name)
         else let s = takeWhile (\<lambda>c. c \<noteq> slash) path; rest = dropWhile (\<lambda>c. c \<noteq> slash) path;
                  len = length s;
                  name = (if len \<ge> DIRSIZ then take DIRSIZ s else s @ [0] @ drop (len + 1) name)
              in (Some (dropWhile (\<lambda>c. c = slash) rest), name))"

definition namex_step :: "bool \<Rightarrow> nat \<times> u8 list \<times> u8 list \<times> world \<Rightarrow>
    (nat option \<times> u8 list \<times> world, nat \<times> u8 list \<times> u8 list \<times> world) ctl res" where
  "namex_step parent = (\<lambda>(i, path, name, w).
     case skipelem path name of
       (None, name) \<Rightarrow>
         if parent then bnd (iput i w) (\<lambda>w. Ok (Done (None, name, w))) else Ok (Done (Some i, name, w))
     | (Some path, name) \<Rightarrow>
         bnd (ilock i w) (\<lambda>w.
         if i_type (ino w i) \<noteq> T_DIR then bnd (iunlockput i w) (\<lambda>w. Ok (Done (None, name, w)))
         else if parent \<and> path = [] then bnd (iunlock i w) (\<lambda>w. Ok (Done (Some i, name, w)))
         else bnd (dirlookup i name w) (\<lambda>(nx, w).
              bnd (iunlockput i w) (\<lambda>w.
              case nx of None \<Rightarrow> Ok (Done (None, name, w))
              | Some (j, _) \<Rightarrow> Ok (Next (j, path, name, w))))))"

definition namex :: "u8 list \<Rightarrow> bool \<Rightarrow> u8 list \<Rightarrow> world \<Rightarrow> (nat option \<times> u8 list \<times> world) res" where
  "namex path parent name w =
     bnd (if path \<noteq> [] \<and> hd path = slash then iget ROOTDEV ROOTINO w
          else bnd (myproc_deref w) (\<lambda>(p, w).
               bnd (deref (p_cwd (procs w p))) (\<lambda>i.
               bnd (idup i w) (\<lambda>w. Ok (i, w))))) (\<lambda>(i, w).
     loop_res (namex_step parent) (i, path, name, w))"

definition namei :: "u8 list \<Rightarrow> world \<Rightarrow> (nat option \<times> world) res" where
  "namei path w = bnd (namex path False (map (junk w) [0..<DIRSIZ]) w) (\<lambda>(i, _, w). Ok (i, w))"

definition nameiparent :: "u8 list \<Rightarrow> u8 list \<Rightarrow> world \<Rightarrow> (nat option \<times> u8 list \<times> world) res" where
  "nameiparent path name w = namex path True name w"

end
