(* ===== verification/Xv6_Pipe.thy ===== *)
theory Xv6_Pipe
  imports Xv6_Kqueue
begin

text \<open>
  \<^verbatim>\<open>kernel/pipe.c\<close>: closing, reading and writing a pipe (\<^verbatim>\<open>pipealloc\<close> is with the file table). The two
  counters are 32 bits wide, run over, and are reduced modulo \<open>PIPESIZE\<close> only to index the buffer.
\<close>

section \<open>Operations\<close>

definition upd_pipe :: "u64 \<Rightarrow> (pipe \<Rightarrow> pipe) \<Rightarrow> world \<Rightarrow> world" where
  "upd_pipe pi f w = w\<lparr>pipes := (pipes w)(pi := f (pipes w pi))\<rparr>"

definition pipeclose :: "u64 \<Rightarrow> bool \<Rightarrow> world \<Rightarrow> world res" where
  "pipeclose pi writable w =
     bnd (acquire (Pipe_lock pi) w) (\<lambda>w.
     bnd (if writable
          then wakeup (Some (Ch_nread pi)) (upd_pipe pi (pi_writeopen_update (\<lambda>_. 0)) w)
          else wakeup (Some (Ch_nwrite pi)) (upd_pipe pi (pi_readopen_update (\<lambda>_. 0)) w)) (\<lambda>w.
     if pi_readopen (pipes w pi) = 0 \<and> pi_writeopen (pipes w pi) = 0
     then bnd (release (Pipe_lock pi) w) (kfree pi)
     else release (Pipe_lock pi) w))"

definition pipe_full :: "pipe \<Rightarrow> bool" where
  "pipe_full p \<longleftrightarrow> pi_nwrite p = pi_nread p + PIPESIZE"

definition pipe_put :: "u8 \<Rightarrow> pipe \<Rightarrow> pipe" where
  "pipe_put ch p =
     p\<lparr>pi_data := (pi_data p)(pi_nwrite p mod PIPESIZE := ch), pi_nwrite := pi_nwrite p + 1\<rparr>"

text \<open>One iteration of the loop of \<^verbatim>\<open>pipewrite\<close>; \<open>Done None\<close> is the early return of -1.\<close>

definition pipewrite_step :: "u64 \<Rightarrow> nat \<Rightarrow> u64 \<Rightarrow> int \<Rightarrow> int \<times> world \<Rightarrow>
    (int option \<times> world, int \<times> world) ctl res" where
  "pipewrite_step pi pr addr n = (\<lambda>(i, w).
     if \<not> i < n then Ok (Done (Some i, w))
     else bnd (if pi_readopen (pipes w pi) = 0 then Ok (1, w) else killed pr w) (\<lambda>(k, w).
          if k \<noteq> 0 then bnd (release (Pipe_lock pi) w) (\<lambda>w. Ok (Done (None, w)))
          else if pipe_full (pipes w pi)
          then bnd (wakeup (Some (Ch_nread pi)) w) (\<lambda>w.
               bnd (sleep (Ch_nwrite pi) (Pipe_lock pi) w) (\<lambda>w. Ok (Next (i, w))))
          else bnd (copyin (p_pagetable (procs w pr)) (addr + word_of_int i) 1 w) (\<lambda>(r, ch, w).
               if r = -1 then Ok (Done (Some i, w))
               else Ok (Next (i + 1, upd_pipe pi (pipe_put (ch ! 0)) w)))))"

definition pipewrite :: "u64 \<Rightarrow> u64 \<Rightarrow> int \<Rightarrow> world \<Rightarrow> (int \<times> world) res" where
  "pipewrite pi addr n w =
     bnd (myproc_deref w) (\<lambda>(pr, w).
     bnd (acquire (Pipe_lock pi) w) (\<lambda>w.
     bnd (loop_res (pipewrite_step pi pr addr n) (0, w)) (\<lambda>(i, w).
     case i of
       None \<Rightarrow> Ok (-1, w)
     | Some i \<Rightarrow> bnd (wakeup (Some (Ch_nread pi)) w) (\<lambda>w.
                bnd (release (Pipe_lock pi) w) (\<lambda>w. Ok (i, w))))))"

text \<open>The wait of \<^verbatim>\<open>piperead\<close>: \<open>Done True\<close> goes on to copy, \<open>Done False\<close> is the return of -1.\<close>

definition piperead_wait :: "u64 \<Rightarrow> nat \<Rightarrow> world \<Rightarrow> (bool \<times> world, world) ctl res" where
  "piperead_wait pi pr w =
     (if pi_nread (pipes w pi) = pi_nwrite (pipes w pi) \<and> pi_writeopen (pipes w pi) \<noteq> 0
      then bnd (killed pr w) (\<lambda>(k, w).
           if k \<noteq> 0 then bnd (release (Pipe_lock pi) w) (\<lambda>w. Ok (Done (False, w)))
           else bnd (sleep (Ch_nread pi) (Pipe_lock pi) w) (\<lambda>w. Ok (Next w)))
      else Ok (Done (True, w)))"

definition pipe_next :: "pipe \<Rightarrow> u8" where
  "pipe_next p = pi_data p (pi_nread p mod PIPESIZE)"

text \<open>The copy loop: \<open>k\<close> is \<^verbatim>\<open>n - i\<close>.\<close>

primrec piperead_copy :: "nat \<Rightarrow> u64 \<Rightarrow> nat \<Rightarrow> u64 \<Rightarrow> int \<Rightarrow> world \<Rightarrow> (int \<times> world) res" where
  "piperead_copy 0 pi pr addr i w = Ok (i, w)"
| "piperead_copy (Suc k) pi pr addr i w =
     (if pi_nread (pipes w pi) = pi_nwrite (pipes w pi) then Ok (i, w)
      else bnd (copyout (p_pagetable (procs w pr)) (addr + word_of_int i) [pipe_next (pipes w pi)] w) (\<lambda>(r, w).
           if r = -1 then Ok (if i = 0 then -1 else i, w)
           else piperead_copy k pi pr addr (i + 1) (upd_pipe pi (\<lambda>p. p\<lparr>pi_nread := pi_nread p + 1\<rparr>) w)))"

definition piperead :: "u64 \<Rightarrow> u64 \<Rightarrow> int \<Rightarrow> world \<Rightarrow> (int \<times> world) res" where
  "piperead pi addr n w =
     bnd (myproc_deref w) (\<lambda>(pr, w).
     bnd (acquire (Pipe_lock pi) w) (\<lambda>w.
     bnd (loop_res (piperead_wait pi pr) w) (\<lambda>(go, w).
     if \<not> go then Ok (-1, w)
     else bnd (piperead_copy (nat n) pi pr addr 0 w) (\<lambda>(i, w).
          bnd (wakeup (Some (Ch_nwrite pi)) w) (\<lambda>w.
          bnd (release (Pipe_lock pi) w) (\<lambda>w. Ok (i, w)))))))"

section \<open>The buffer as a queue\<close>

definition pipe_pop :: "pipe \<Rightarrow> pipe" where
  "pipe_pop p = p\<lparr>pi_nread := pi_nread p + 1\<rparr>"

definition pipe_inv :: "pipe \<Rightarrow> bool" where
  "pipe_inv p \<longleftrightarrow> unat (pi_nwrite p - pi_nread p) \<le> 512"

definition pipe_abs :: "pipe \<Rightarrow> u8 list" where
  "pipe_abs p = ring_view 512 (pi_data p) (pi_nread p) (pi_nwrite p)"

lemma pipe_ring: "(512 :: nat) dvd 2 ^ 32" "(512 :: nat) < 2 ^ 32"
  by simp_all

interpretation pq: fifo pipe_inv pipe_abs 512 pipe_put pipe_next pipe_pop
proof
  show "length (pipe_abs p) \<le> 512" if "pipe_inv p" for p using that by (simp add: pipe_abs_def pipe_inv_def)
  show "pipe_inv (pipe_put c p) \<and> pipe_abs (pipe_put c p) = pipe_abs p @ [c]"
    if "length (pipe_abs p) < 512" for c p
    using that ring_put(1) [OF pipe_ring, of "pi_nwrite p" "pi_nread p"]
      ring_put(2) [OF pipe_ring, of "pi_nwrite p" "pi_nread p" "pi_data p" c]
    by (simp add: pipe_inv_def pipe_abs_def pipe_put_def PIPESIZE_def)
  show "pipe_next p = hd (pipe_abs p) \<and> pipe_inv (pipe_pop p) \<and> pipe_abs (pipe_pop p) = tl (pipe_abs p)"
    if "pipe_inv p" "pipe_abs p \<noteq> []" for p
  proof -
    have "pi_nread p \<noteq> pi_nwrite p" using that(2) by (auto simp: pipe_abs_def ring_view_def)
    from ring_pop(1) [OF this, of 512 "pi_data p"] ring_pop(2) [OF this] that(1) show ?thesis
      by (simp add: pipe_inv_def pipe_abs_def pipe_pop_def pipe_next_def PIPESIZE_def)
  qed
qed

lemma pipe_full_iff:
  assumes "pipe_inv p"
  shows "pipe_full p \<longleftrightarrow> length (pipe_abs p) = 512"
proof -
  have "pi_nwrite p = pi_nread p + PIPESIZE \<longleftrightarrow> pi_nwrite p - pi_nread p = 512"
    by (auto simp: PIPESIZE_def algebra_simps)
  also have "\<dots> \<longleftrightarrow> unat (pi_nwrite p - pi_nread p) = 512"
    by (auto simp: word_unat_eq_iff)
  finally show ?thesis by (simp add: pipe_full_def pipe_abs_def)
qed

lemma pipe_empty_iff: "pi_nread p = pi_nwrite p \<longleftrightarrow> pipe_abs p = []"
proof -
  have "pipe_abs p = [] \<longleftrightarrow> unat (pi_nwrite p - pi_nread p) = 0" by (simp add: pipe_abs_def ring_view_def)
  then show ?thesis by (auto simp: unat_eq_0)
qed

text \<open>
  C12: a pipe's buffer is a first-in-first-out queue of 512 bytes although its two counters are 32-bit
  words that run over: from an empty pipe with the counters anywhere, any at most 512 bytes that are
  put in come out in the same order, and the pipe is empty again.
\<close>

theorem pipe_buffer_fifo:
  assumes "pi_nread p = pi_nwrite p" and "length bs \<le> 512"
  shows "fifo_drain pipe_next pipe_pop (length bs) (fold pipe_put bs p) = bs
    \<and> pipe_abs ((pipe_pop ^^ length bs) (fold pipe_put bs p)) = []"
proof -
  have "pipe_inv p" using assms(1) by (simp add: pipe_inv_def)
  moreover have "pipe_abs p = []" using assms(1) pipe_empty_iff by blast
  ultimately show ?thesis using pq.put_then_drain assms(2) by blast
qed

text \<open>The counters of this pipe are about to run over.\<close>

definition old_pipe :: pipe where
  "old_pipe = \<lparr>pi_data = (\<lambda>_. 0), pi_nread = 0xFFFFFFFE, pi_nwrite = 0xFFFFFFFE, pi_readopen = 1, pi_writeopen = 1\<rparr>"

theorem pipe_buffer_fifo_witness:
  "fifo_drain pipe_next pipe_pop 5 (fold pipe_put [104, 101, 108, 108, 111] old_pipe) = [104, 101, 108, 108, 111]"
proof -
  have "pi_nread old_pipe = pi_nwrite old_pipe" by (simp add: old_pipe_def)
  moreover have len: "length [104, 101, 108, 108, 111 :: u8] = 5" by simp
  ultimately show ?thesis
    using pipe_buffer_fifo [of old_pipe "[104, 101, 108, 108, 111]"] unfolding len by simp
qed

section \<open>Reading and writing\<close>

lemma killed_eq:
  assumes "cpu_ok (sync w)" "lock_free (Proc_lock p) (sync w)"
  shows "killed p w = Ok (p_killed (procs w p), w\<lparr>sync := settle (sync w)\<rparr>)"
  using assms by (simp add: killed_def lock_simps Let_def)

text \<open>The running process \<open>p\<close>, which may take its own lock and the pipe's.\<close>

definition pipe_user :: "nat \<Rightarrow> u64 \<Rightarrow> sync \<Rightarrow> bool" where
  "pipe_user p pi s \<longleftrightarrow> cur s = Some p \<and> cpu_ok s \<and> lock_free (Pipe_lock pi) s
     \<and> lock_free (Proc_lock p) s \<and> others_free s"

lemma pipewrite_loop:
  assumes "cpu_ok (sync w)" "settle (sync w) = sync w" "lock_free (Proc_lock p) (sync w)"
    and "pi_readopen (pipes w pi) \<noteq> 0" "p_killed (procs w p) = 0"
    and "pt_wf 2 e (mem w) (p_pagetable (procs w p))"
    and "user_range (mem w) (p_pagetable (procs w p)) (addr + of_nat i) k"
    and "pipe_inv (pipes w pi)" "length (pipe_abs (pipes w pi)) + k \<le> 512"
  shows "loop_res (pipewrite_step pi p addr (int (i + k))) (int i, w) =
    Ok (Some (int (i + k)), upd_pipe pi (fold pipe_put
      (map (\<lambda>j. user_byte (mem w) (p_pagetable (procs w p)) (addr + of_nat i + of_nat j)) [0..<k])) w)"
  using assms
proof (induction k arbitrary: i w)
  case 0
  then show ?case by (subst loop_res_unfold) (simp add: pipewrite_step_def upd_pipe_def)
next
  case (Suc k)
  let ?pt = "p_pagetable (procs w p)"
  let ?c = "user_byte (mem w) ?pt (addr + of_nat i)"
  let ?w = "upd_pipe pi (pipe_put ?c) w"
  have room: "length (pipe_abs (pipes w pi)) < 512" using Suc.prems(9) by simp
  have nf: "\<not> pipe_full (pipes w pi)" using pipe_full_iff [OF Suc.prems(8)] room by simp
  have "user_range (mem w) ?pt (addr + of_nat i) 1"
    using Suc.prems(7) by (auto simp: user_range_def)
  from copyin_spec [OF Suc.prems(6) this]
  have ci: "copyin ?pt (addr + of_nat i) 1 w = Ok (0, [?c], w)" by simp
  have kl: "killed p w = Ok (0, w)" using killed_eq [OF Suc.prems(1,3)] Suc.prems(2,5) by simp
  have step: "pipewrite_step pi p addr (int (i + Suc k)) (int i, w) = Ok (Next (int (Suc i), ?w))"
    using Suc.prems(4) nf ci kl by (simp add: pipewrite_step_def)
  have put: "pipe_inv (pipe_put ?c (pipes w pi))" "pipe_abs (pipe_put ?c (pipes w pi)) = pipe_abs (pipes w pi) @ [?c]"
    using pq.put_room [OF Suc.prems(8) room, of ?c] by simp_all
  have rng: "user_range (mem w) ?pt (addr + of_nat (Suc i)) k"
    using user_range_drop [OF Suc.prems(7), of 1] by (simp add: add.commute add.left_commute)
  have "loop_res (pipewrite_step pi p addr (int (Suc i + k))) (int (Suc i), ?w) =
    Ok (Some (int (Suc i + k)), upd_pipe pi (fold pipe_put
      (map (\<lambda>j. user_byte (mem ?w) (p_pagetable (procs ?w p)) (addr + of_nat (Suc i) + of_nat j)) [0..<k])) ?w)"
    by (rule Suc.IH) (use Suc.prems put rng in \<open>simp_all add: upd_pipe_def pipe_put_def\<close>)
  moreover have "map (\<lambda>j. user_byte (mem w) ?pt (addr + of_nat i + of_nat j)) [0..<Suc k] =
      ?c # map (\<lambda>j. user_byte (mem w) ?pt (addr + of_nat (Suc i) + of_nat j)) [0..<k]"
    by (simp add: map_upt_Suc add.commute add.left_commute del: upt_Suc)
  ultimately show ?case
    using step by (subst loop_res_unfold) (simp add: upd_pipe_def)
qed

text \<open>
  C13: \<^verbatim>\<open>pipewrite\<close> of \<open>n\<close> bytes for which the pipe has room, by a process that has not been killed, to a
  pipe whose read end is open, returns \<open>n\<close> without sleeping; the bytes of user memory, in order, are
  appended to the pipe, and the processes that wait to read it become runnable.
\<close>

theorem pipewrite_appends:
  assumes "pipe_user p pi (sync w)" and "pi_readopen (pipes w pi) \<noteq> 0" and "p_killed (procs w p) = 0"
    and "pt_wf 2 e (mem w) (p_pagetable (procs w p))"
    and "user_range (mem w) (p_pagetable (procs w p)) addr n"
    and "pipe_inv (pipes w pi)" and "length (pipe_abs (pipes w pi)) + n \<le> 512"
  shows "\<exists>w'. pipewrite pi addr (int n) w = Ok (int n, w')
    \<and> pipe_abs (pipes w' pi) = pipe_abs (pipes w pi) @
        map (\<lambda>j. user_byte (mem w) (p_pagetable (procs w p)) (addr + of_nat j)) [0..<n]
    \<and> pipe_inv (pipes w' pi) \<and> procs w' = woken (Some (Ch_nread pi)) (Some p) (procs w)
    \<and> w' = w\<lparr>sync := settle (sync w), procs := procs w', pipes := (pipes w)(pi := pipes w' pi)\<rparr>"
proof -
  let ?bs = "map (\<lambda>j. user_byte (mem w) (p_pagetable (procs w p)) (addr + of_nat j)) [0..<n]"
  have st: "cpu_ok (sync w)" "cur (sync w) = Some p" "lock_free (Pipe_lock pi) (sync w)"
    "lock_free (Proc_lock p) (sync w)" "others_free (sync w)"
    using assms(1) by (auto simp: pipe_user_def)
  let ?w1 = "w\<lparr>sync := acq (Pipe_lock pi) (sync w)\<rparr>"
  have "loop_res (pipewrite_step pi p addr (int (0 + n))) (int 0, ?w1) =
    Ok (Some (int (0 + n)), upd_pipe pi (fold pipe_put
      (map (\<lambda>j. user_byte (mem ?w1) (p_pagetable (procs ?w1 p)) (addr + of_nat 0 + of_nat j)) [0..<n])) ?w1)"
    by (rule pipewrite_loop) (use assms st in \<open>simp_all add: lock_simps\<close>)
  then have "pipewrite pi addr (int n) w = Ok (int n, w\<lparr>sync := settle (sync w),
      pipes := (pipes w)(pi := fold pipe_put ?bs (pipes w pi)), procs := woken (Some (Ch_nread pi)) (Some p) (procs w)\<rparr>)"
    using st by (simp add: pipewrite_def myproc_deref_def lock_simps upd_pipe_def)
  moreover have "pipe_inv (fold pipe_put ?bs (pipes w pi))"
    "pipe_abs (fold pipe_put ?bs (pipes w pi)) = pipe_abs (pipes w pi) @ ?bs"
    using pq.put_all [OF assms(6), of ?bs] assms(7) by simp_all
  ultimately show ?thesis by simp
qed

text \<open>A process with one page of user memory and a pipe whose counters are about to run over.\<close>

definition pipe_world :: world where
  "pipe_world = user_world\<lparr>sync := boot_sync\<lparr>cpus := (\<lambda>_. \<lparr>cpu_proc = Some 0, cpu_noff = 0, cpu_intena = False\<rparr>)\<rparr>,
     procs := (\<lambda>_. zero_proc\<lparr>p_state := RUNNING, p_pagetable := 0x87FFF000\<rparr>), pipes := (\<lambda>_. old_pipe)\<rparr>"

lemma pipe_world_simps [simp]:
  "pipe_user 0 pi (sync pipe_world)" "pipes pipe_world pi = old_pipe" "mem pipe_world = mem user_world"
  "procs pipe_world i = zero_proc\<lparr>p_state := RUNNING, p_pagetable := 0x87FFF000\<rparr>"
  by (simp_all add: pipe_world_def pipe_user_def boot_sync_def sync_defs others_free_def)

lemma old_pipe_simps [simp]: "pipe_inv old_pipe" "pipe_abs old_pipe = []" "pi_readopen old_pipe = 1" "pi_writeopen old_pipe = 1"
  by (simp_all add: old_pipe_def pipe_inv_def pipe_abs_def ring_view_def)

lemma user_world_wf: "pt_wf 2 0x80023000 (mem user_world) 0x87FFF000"
  using user_world_ok(1,4) by (auto simp: pt_ok_def)

theorem pipewrite_appends_witness:
  "\<exists>w'. pipewrite 0x87FF0000 0x4010 5 pipe_world = Ok (5, w') \<and> length (pipe_abs (pipes w' 0x87FF0000)) = 5"
proof -
  have r: "user_range (mem user_world) 0x87FFF000 0x4010 5" using user_world_writable by (simp add: user_writable_def)
  have i: "int 5 = 5" by simp
  obtain w' where "pipewrite 0x87FF0000 0x4010 (int 5) pipe_world = Ok (int 5, w')"
    "pipe_abs (pipes w' 0x87FF0000) = pipe_abs (pipes pipe_world 0x87FF0000) @
        map (\<lambda>j. user_byte (mem pipe_world) (p_pagetable (procs pipe_world 0)) (0x4010 + of_nat j)) [0..<5]"
    using pipewrite_appends [of 0 "0x87FF0000" pipe_world "0x80023000" "0x4010" 5] r user_world_wf
    by (auto simp: zero_proc_def)
  then show ?thesis unfolding i by (intro exI [of _ w']) simp
qed

lemma user_written_writable:
  assumes "user_written e pt va src m m'"
  shows "user_writable m' pt a n = user_writable m pt a n"
  using assms by (intro user_writable_cong(1)) (auto simp: user_written_def)

lemma piperead_loop:
  assumes "pt_wf 2 e (mem w) (p_pagetable (procs w p))" "pipe_inv (pipes w pi)"
    and "user_writable (mem w) (p_pagetable (procs w p)) (addr + of_nat i) (min k (length (pipe_abs (pipes w pi))))"
  shows "\<exists>m. piperead_copy k pi p addr (int i) w = Ok (int (i + min k (length (pipe_abs (pipes w pi)))),
      w\<lparr>mem := m, pipes := (pipes w)(pi := (pipe_pop ^^ min k (length (pipe_abs (pipes w pi)))) (pipes w pi))\<rparr>)
    \<and> user_written e (p_pagetable (procs w p)) (addr + of_nat i) (take k (pipe_abs (pipes w pi))) (mem w) m"
  using assms
proof (induction k arbitrary: i w)
  case 0
  then show ?case by (intro exI [of _ "mem w"]) (simp add: user_written_def)
next
  case (Suc k)
  let ?pt = "p_pagetable (procs w p)" and ?q = "pipes w pi"
  show ?case
  proof (cases "pipe_abs ?q")
    case Nil
    then show ?thesis using Suc.prems pipe_empty_iff [of ?q]
      by (intro exI [of _ "mem w"]) (simp add: user_written_def)
  next
    case (Cons c cs)
    have ne: "pi_nread ?q \<noteq> pi_nwrite ?q" using Cons pipe_empty_iff [of ?q] by auto
    have q: "pipe_next ?q = c" "pipe_inv (pipe_pop ?q)" "pipe_abs (pipe_pop ?q) = cs"
      using pq.take_front [OF Suc.prems(2)] Cons by auto
    have wr: "user_writable (mem w) ?pt (addr + of_nat i) (Suc (min k (length cs)))"
      using Suc.prems(3) Cons by simp
    then have wr1: "user_writable (mem w) ?pt (addr + of_nat i) (length [c])"
      by (auto simp: user_writable_def user_range_def lessThan_Suc)
    obtain m1 where m1: "copyout ?pt (addr + of_nat i) [c] w = Ok (0, w\<lparr>mem := m1\<rparr>)"
      "user_written e ?pt (addr + of_nat i) [c] (mem w) m1"
      using copyout_spec [OF Suc.prems(1) wr1] by blast
    let ?w = "w\<lparr>mem := m1, pipes := (pipes w)(pi := pipe_pop ?q)\<rparr>"
    have wr2: "user_writable m1 ?pt (addr + of_nat (Suc i)) (min k (length cs))"
      using user_writable_drop [OF wr, of 1] user_written_writable [OF m1(2)]
      by (simp add: add.commute add.left_commute)
    have wf: "pt_wf 2 e m1 ?pt" using m1(2) by (simp add: user_written_def)
    have ws: "pipes ?w pi = pipe_pop ?q" "mem ?w = m1" "procs ?w = procs w" by simp_all
    obtain m where m:
      "piperead_copy k pi p addr (int (Suc i)) ?w = Ok (int (Suc i + min k (length cs)),
         ?w\<lparr>mem := m, pipes := (pipes ?w)(pi := (pipe_pop ^^ min k (length cs)) (pipe_pop ?q))\<rparr>)"
      "user_written e ?pt (addr + of_nat (Suc i)) (take k cs) m1 m"
      using Suc.IH [of ?w "Suc i", unfolded ws q(3), OF wf q(2) wr2] by blast
    have step: "piperead_copy (Suc k) pi p addr (int i) w = piperead_copy k pi p addr (int (Suc i)) ?w"
      using ne m1(1) q(1) by (simp add: upd_pipe_def pipe_pop_def add.commute)
    have "inj_on (\<lambda>j. user_pa (mem w) ?pt (addr + of_nat i + of_nat j)) {..<length [c] + length (take k cs)}"
      using wr by (simp add: user_writable_def min.commute)
    from user_written_append [OF this m1(2)] m(2)
    have "user_written e ?pt (addr + of_nat i) (take (Suc k) (c # cs)) (mem w) m"
      by (simp add: add.commute add.left_commute)
    with m(1) step show ?thesis
      unfolding Cons by (intro exI [of _ m]) (simp add: funpow_swap1 del: piperead_copy.simps fun_upd_apply)
  qed
qed

text \<open>
  C14: \<^verbatim>\<open>piperead\<close> of at most \<open>n\<close> bytes from a pipe that is not empty returns how many it took, the lesser of
  \<open>n\<close> and the number of bytes in the pipe, without sleeping: it takes the oldest bytes, in order, stores
  them in user memory and nowhere else, and makes the processes that wait to write runnable.
\<close>

theorem piperead_takes:
  assumes "pipe_user p pi (sync w)" and "pipe_inv (pipes w pi)" and "pipe_abs (pipes w pi) \<noteq> []"
    and "pt_wf 2 e (mem w) (p_pagetable (procs w p))"
    and "user_writable (mem w) (p_pagetable (procs w p)) addr (min n (length (pipe_abs (pipes w pi))))"
  shows "\<exists>w'. piperead pi addr (int n) w = Ok (int (min n (length (pipe_abs (pipes w pi)))), w')
    \<and> pipe_inv (pipes w' pi) \<and> pipe_abs (pipes w' pi) = drop n (pipe_abs (pipes w pi))
    \<and> user_written e (p_pagetable (procs w p)) addr (take n (pipe_abs (pipes w pi))) (mem w) (mem w')
    \<and> procs w' = woken (Some (Ch_nwrite pi)) (Some p) (procs w)
    \<and> w' = w\<lparr>sync := settle (sync w), mem := mem w', procs := procs w', pipes := (pipes w)(pi := pipes w' pi)\<rparr>"
proof -
  let ?q = "pipes w pi" and ?k = "min n (length (pipe_abs (pipes w pi)))"
  have st: "cpu_ok (sync w)" "cur (sync w) = Some p" "lock_free (Pipe_lock pi) (sync w)"
    "lock_free (Proc_lock p) (sync w)" "others_free (sync w)"
    using assms(1) by (auto simp: pipe_user_def)
  let ?w1 = "w\<lparr>sync := acq (Pipe_lock pi) (sync w)\<rparr>"
  have ne: "pi_nread ?q \<noteq> pi_nwrite ?q" using assms(3) pipe_empty_iff by blast
  have wt: "loop_res (piperead_wait pi p) ?w1 = Ok (True, ?w1)"
    using ne by (subst loop_res_unfold) (simp add: piperead_wait_def)
  obtain m where m: "piperead_copy n pi p addr 0 ?w1 = Ok (int ?k,
      ?w1\<lparr>mem := m, pipes := (pipes w)(pi := (pipe_pop ^^ ?k) ?q)\<rparr>)"
    "user_written e (p_pagetable (procs w p)) addr (take n (pipe_abs ?q)) (mem w) m"
    using piperead_loop [of e ?w1 p pi addr 0 n] assms by auto
  have pop: "pipe_inv ((pipe_pop ^^ ?k) ?q)" "pipe_abs ((pipe_pop ^^ ?k) ?q) = drop ?k (pipe_abs ?q)"
    using pq.pop_all [OF assms(2), of ?k] by simp_all
  have "drop ?k (pipe_abs ?q) = drop n (pipe_abs ?q)" by (cases "n \<le> length (pipe_abs ?q)") (simp_all add: min_def)
  moreover have "piperead pi addr (int n) w = Ok (int ?k, w\<lparr>sync := settle (sync w), mem := m,
      pipes := (pipes w)(pi := (pipe_pop ^^ ?k) ?q), procs := woken (Some (Ch_nwrite pi)) (Some p) (procs w)\<rparr>)"
    using st wt m(1) by (simp add: piperead_def myproc_deref_def lock_simps)
  ultimately show ?thesis using pop m(2) by simp
qed

theorem piperead_takes_witness:
  "\<exists>w'. piperead 0x87FF0000 0x4010 9 (upd_pipe 0x87FF0000 (fold pipe_put [104, 101, 108, 108, 111]) pipe_world) = Ok (5, w')
     \<and> pipe_abs (pipes w' 0x87FF0000) = []"
proof -
  let ?bs = "[104, 101, 108, 108, 111] :: u8 list" and ?pi = "0x87FF0000 :: u64"
  let ?w = "upd_pipe ?pi (fold pipe_put ?bs) pipe_world"
  have "pipe_inv (fold pipe_put ?bs old_pipe) \<and> pipe_abs (fold pipe_put ?bs old_pipe) = pipe_abs old_pipe @ ?bs"
    by (rule pq.put_all) simp_all
  then have q: "pipe_inv (pipes ?w ?pi)" "pipe_abs (pipes ?w ?pi) = ?bs" by (simp_all add: upd_pipe_def)
  have w: "sync ?w = sync pipe_world" "mem ?w = mem user_world" "p_pagetable (procs ?w 0) = 0x87FFF000"
    by (simp_all add: upd_pipe_def)
  have k: "min 9 (length (pipe_abs (pipes ?w ?pi))) = 5" unfolding q by simp
  obtain w' where "piperead ?pi 0x4010 (int 9) ?w = Ok (int (min 9 (length (pipe_abs (pipes ?w ?pi)))), w')"
    "pipe_abs (pipes w' ?pi) = drop 9 (pipe_abs (pipes ?w ?pi))"
    using piperead_takes [of 0 ?pi ?w "0x80023000" "0x4010" 9] user_world_writable user_world_wf
    unfolding k w using q by auto
  then show ?thesis unfolding k unfolding q by (intro exI [of _ w']) simp
qed

text \<open>
  C15: the error paths of pipes: a write of at least one byte to a pipe whose read end is closed, or by a
  process that has been killed, returns -1 and leaves the pipe as it is; a read from an empty pipe
  whose write end is closed returns 0, and one by a killed process from an empty pipe whose write end is open returns -1.
\<close>

theorem pipe_errors:
  assumes "pipe_user p pi (sync w)"
  shows "(0 < n \<and> (pi_readopen (pipes w pi) = 0 \<or> p_killed (procs w p) \<noteq> 0) \<longrightarrow>
      pipewrite pi addr n w = Ok (-1, w\<lparr>sync := settle (sync w)\<rparr>))
    \<and> (pi_nread (pipes w pi) = pi_nwrite (pipes w pi) \<and> pi_writeopen (pipes w pi) = 0 \<longrightarrow>
      piperead pi addr n w = Ok (0, w\<lparr>sync := settle (sync w), procs := woken (Some (Ch_nwrite pi)) (Some p) (procs w)\<rparr>))
    \<and> (pi_nread (pipes w pi) = pi_nwrite (pipes w pi) \<and> pi_writeopen (pipes w pi) \<noteq> 0 \<and> p_killed (procs w p) \<noteq> 0 \<longrightarrow>
      piperead pi addr n w = Ok (-1, w\<lparr>sync := settle (sync w)\<rparr>))"
proof -
  have st: "cpu_ok (sync w)" "cur (sync w) = Some p" "lock_free (Pipe_lock pi) (sync w)"
    "lock_free (Proc_lock p) (sync w)" "others_free (sync w)"
    using assms(1) by (auto simp: pipe_user_def)
  let ?w1 = "w\<lparr>sync := acq (Pipe_lock pi) (sync w)\<rparr>"
  have kl: "killed p ?w1 = Ok (p_killed (procs w p), ?w1)"
    using killed_eq [of ?w1 p] st by (simp add: lock_simps)
  have 1: "pipewrite pi addr n w = Ok (-1, w\<lparr>sync := settle (sync w)\<rparr>)"
    if "0 < n \<and> (pi_readopen (pipes w pi) = 0 \<or> p_killed (procs w p) \<noteq> 0)"
    using that st kl
    by (simp add: pipewrite_def myproc_deref_def lock_simps)
      (subst loop_res_unfold, auto simp: pipewrite_step_def lock_simps)
  have c: "piperead_copy k pi p addr 0 ?w1 = Ok (0, ?w1)" if "pi_nread (pipes w pi) = pi_nwrite (pipes w pi)" for k
    using that by (cases k) simp_all
  have 2: "piperead pi addr n w = Ok (0, w\<lparr>sync := settle (sync w), procs := woken (Some (Ch_nwrite pi)) (Some p) (procs w)\<rparr>)"
    if "pi_nread (pipes w pi) = pi_nwrite (pipes w pi) \<and> pi_writeopen (pipes w pi) = 0"
    using that st c
    by (simp add: piperead_def myproc_deref_def lock_simps)
      (subst loop_res_unfold, simp add: piperead_wait_def lock_simps)
  have 3: "piperead pi addr n w = Ok (-1, w\<lparr>sync := settle (sync w)\<rparr>)"
    if "pi_nread (pipes w pi) = pi_nwrite (pipes w pi) \<and> pi_writeopen (pipes w pi) \<noteq> 0 \<and> p_killed (procs w p) \<noteq> 0"
    using that st kl
    by (simp add: piperead_def myproc_deref_def lock_simps)
      (subst loop_res_unfold, simp add: piperead_wait_def lock_simps)
  from 1 2 3 show ?thesis by blast
qed

theorem pipe_errors_witness:
  "pipewrite 0x87FF0000 0x4010 5 (upd_pipe 0x87FF0000 (pi_readopen_update (\<lambda>_. 0)) pipe_world) =
     Ok (-1, (upd_pipe 0x87FF0000 (pi_readopen_update (\<lambda>_. 0)) pipe_world)\<lparr>sync := settle (sync pipe_world)\<rparr>)"
  using pipe_errors [of 0 "0x87FF0000" "upd_pipe 0x87FF0000 (pi_readopen_update (\<lambda>_. 0)) pipe_world" 5 "0x4010"]
  by (simp add: upd_pipe_def)

end
