(* ===== verification/Xv6_Console.thy ===== *)
theory Xv6_Console
  imports Xv6_Proc
begin

text \<open>
  \<^verbatim>\<open>kernel/console.c\<close> and the interrupt-driven half of \<^verbatim>\<open>kernel/uart.c\<close>: the circular input buffer with
  its read, write and edit indices, line editing, and the console as a device file.
\<close>

unbundle bit_operations_syntax

section \<open>Output\<close>

definition uartwrite_wait :: "world \<Rightarrow> world res" where
  "uartwrite_wait w = while_res (\<lambda>w. tx_busy w \<noteq> 0) (sleep Ch_tx Tx_lock) w"

definition uartwrite :: "u8 list \<Rightarrow> world \<Rightarrow> world res" where
  "uartwrite buf w =
     bnd (acquire Tx_lock w) (\<lambda>w.
     bnd (foreach (\<lambda>c w. bnd (uartwrite_wait w) (\<lambda>w. Ok ((WriteReg THR c w)\<lparr>tx_busy := 1\<rparr>))) buf w) (\<lambda>w.
     release Tx_lock w))"

text \<open>\<open>i\<close> is how many bytes have been written; the loop moves batches of 32.\<close>

definition consolewrite_step :: "u64 \<Rightarrow> int \<Rightarrow> int \<times> world \<Rightarrow> (int \<times> world, int \<times> world) ctl res" where
  "consolewrite_step src n = (\<lambda>(i, w).
     if \<not> i < n then Ok (Done (i, w))
     else let nn = (if 32 > n - i then n - i else 32)
          in bnd (either_copyin (From_user (src + word_of_int i)) (nat nn) w) (\<lambda>(r, buf, w).
             if r = -1 then Ok (Done (i, w))
             else bnd (uartwrite buf w) (\<lambda>w. Ok (Next (i + nn, w)))))"

definition consolewrite :: "u64 \<Rightarrow> int \<Rightarrow> world \<Rightarrow> (int \<times> world) res" where
  "consolewrite src n w = loop_res (consolewrite_step src n) (0, w)"

section \<open>Input\<close>

definition Ctrl :: "char \<Rightarrow> int" where
  "Ctrl c = of_char c - of_char (CHR ''@'')"

definition consoleread_wait :: "world \<Rightarrow> (bool \<times> world, world) ctl res" where
  "consoleread_wait w =
     (if cons_r (cons_st w) = cons_w (cons_st w)
      then bnd (myproc_deref w) (\<lambda>(p, w).
           bnd (killed p w) (\<lambda>(k, w).
           if k \<noteq> 0 then bnd (release Cons_lock w) (\<lambda>w. Ok (Done (False, w)))
           else bnd (sleep Ch_cons_r Cons_lock w) (\<lambda>w. Ok (Next w))))
      else Ok (Done (True, w)))"

text \<open>
  One iteration of \<^verbatim>\<open>while(n > 0)\<close>. \<open>Done (Some n)\<close> leaves the loop with that many bytes still wanted,
  \<open>Done None\<close> is the return of -1 when the reader has been killed.
\<close>

definition consoleread_step ::
  "int \<Rightarrow> u64 \<times> int \<times> world \<Rightarrow> (int option \<times> world, u64 \<times> int \<times> world) ctl res" where
  "consoleread_step target = (\<lambda>(dst, n, w).
     if \<not> n > 0 then Ok (Done (Some n, w))
     else bnd (loop_res consoleread_wait w) (\<lambda>(go, w).
          if \<not> go then Ok (Done (None, w))
          else let c = cons_buf (cons_st w) (cons_r (cons_st w) mod INPUT_BUF_SIZE);
                   w = w\<lparr>cons_st := (cons_st w)\<lparr>cons_r := cons_r (cons_st w) + 1\<rparr>\<rparr>
               in if uint c = Ctrl (CHR ''D'')
                  then Ok (Done (Some n, if n < target
                         then w\<lparr>cons_st := (cons_st w)\<lparr>cons_r := cons_r (cons_st w) - 1\<rparr>\<rparr> else w))
                  else bnd (either_copyout (To_user dst) [c] w) (\<lambda>(r, w).
                       if r = -1 then Ok (Done (Some n, w))
                       else if c = 10 then Ok (Done (Some (n - 1), w))
                       else Ok (Next (dst + 1, n - 1, w)))))"

definition consoleread :: "u64 \<Rightarrow> int \<Rightarrow> world \<Rightarrow> (int \<times> world) res" where
  "consoleread dst n w =
     bnd (acquire Cons_lock w) (\<lambda>w.
     bnd (loop_res (consoleread_step n) (dst, n, w)) (\<lambda>(m, w).
     case m of
       None \<Rightarrow> Ok (-1, w)
     | Some m \<Rightarrow> bnd (release Cons_lock w) (\<lambda>w. Ok (n - m, w))))"

definition upd_cons :: "(cons \<Rightarrow> cons) \<Rightarrow> world \<Rightarrow> world" where
  "upd_cons f w = w\<lparr>cons_st := f (cons_st w)\<rparr>"

text \<open>The loop of control-U: erase back to the start of the line.\<close>

definition kill_line :: "world \<Rightarrow> world res" where
  "kill_line w =
     while_res (\<lambda>w. cons_e (cons_st w) \<noteq> cons_w (cons_st w) \<and>
                   cons_buf (cons_st w) ((cons_e (cons_st w) - 1) mod INPUT_BUF_SIZE) \<noteq> 10)
       (\<lambda>w. consputc BACKSPACE (upd_cons (\<lambda>c. c\<lparr>cons_e := cons_e c - 1\<rparr>) w)) w"

definition cons_put :: "u8 \<Rightarrow> cons \<Rightarrow> cons" where
  "cons_put ch c =
     c\<lparr>cons_buf := (cons_buf c)(cons_e c mod INPUT_BUF_SIZE := ch), cons_e := cons_e c + 1\<rparr>"

definition consoleintr_char :: "int \<Rightarrow> world \<Rightarrow> world res" where
  "consoleintr_char c w =
     (if c \<noteq> 0 \<and> cons_e (cons_st w) - cons_r (cons_st w) < INPUT_BUF_SIZE
      then let c = (if c = 13 then 10 else c)
           in bnd (consputc c w) (\<lambda>w.
              let w = upd_cons (cons_put (word_of_int c)) w
              in if c = 10 \<or> c = Ctrl (CHR ''D'') \<or>
                    cons_e (cons_st w) - cons_r (cons_st w) = INPUT_BUF_SIZE
                 then wakeup (Some Ch_cons_r) (upd_cons (\<lambda>c. c\<lparr>cons_w := cons_e c\<rparr>) w)
                 else Ok w)
      else Ok w)"

definition consoleintr :: "int \<Rightarrow> world \<Rightarrow> world res" where
  "consoleintr c w =
     bnd (acquire Cons_lock w) (\<lambda>w.
     bnd (if c = Ctrl (CHR ''P'') then procdump w
          else if c = Ctrl (CHR ''U'') then kill_line w
          else if c = Ctrl (CHR ''H'') \<or> c = 127
          then if cons_e (cons_st w) \<noteq> cons_w (cons_st w)
               then consputc BACKSPACE (upd_cons (\<lambda>c. c\<lparr>cons_e := cons_e c - 1\<rparr>) w)
               else Ok w
          else consoleintr_char c w) (\<lambda>w.
     release Cons_lock w))"

definition CONSOLE :: nat where "CONSOLE = 1"

definition consoleinit :: "world \<Rightarrow> world" where
  "consoleinit w =
     (let w = uartinit (initlock Cons_lock ''cons'' w)
      in w\<lparr>fs := (fs w)\<lparr>devsw := (devsw (fs w))(CONSOLE := True)\<rparr>\<rparr>)"

section \<open>The UART interrupt\<close>

definition uartgetc :: "world \<Rightarrow> int \<times> world" where
  "uartgetc w =
     (let (v, w) = ReadReg LSR w
      in if v AND LSR_RX_READY \<noteq> 0 then (let (c, w) = ReadReg RHR w in (uint c, w)) else (-1, w))"

definition uartintr_step :: "world \<Rightarrow> (world, world) ctl res" where
  "uartintr_step w =
     (let (c, w) = uartgetc w
      in if c = -1 then Ok (Done w) else bnd (consoleintr c w) (\<lambda>w. Ok (Next w)))"

definition uartintr :: "world \<Rightarrow> world res" where
  "uartintr w =
     (let (_, w) = ReadReg ISR w
      in bnd (acquire Tx_lock w) (\<lambda>w.
         let (v, w) = ReadReg LSR w
         in bnd (if v AND LSR_TX_IDLE \<noteq> 0 then wakeup (Some Ch_tx) (w\<lparr>tx_busy := 0\<rparr>) else Ok w) (\<lambda>w.
            bnd (release Tx_lock w) (\<lambda>w.
            loop_res uartintr_step w))))"

end
