(* ===== verification/Xv6_File.thy ===== *)
theory Xv6_File
  imports Xv6_Fs Xv6_Pipe Xv6_Console
begin

text \<open>
  \<^verbatim>\<open>kernel/file.c\<close>: the table of open files and the operations on them, and \<^verbatim>\<open>pipealloc\<close> of
  \<^verbatim>\<open>kernel/pipe.c\<close>. A file pointer is an index into \<^verbatim>\<open>ftable.file\<close>. The only device with functions is the
  console.
\<close>

abbreviation the_file :: "world \<Rightarrow> nat \<Rightarrow> file_s" where
  "the_file w f \<equiv> files (fs w) f"

definition upd_file :: "nat \<Rightarrow> (file_s \<Rightarrow> file_s) \<Rightarrow> world \<Rightarrow> world" where
  "upd_file f g w = w\<lparr>fs := (fs w)\<lparr>files := (files (fs w))(f := g (files (fs w) f))\<rparr>\<rparr>"

definition fileinit :: "world \<Rightarrow> world" where
  "fileinit w = initlock Ftable_lock ''ftable'' w"

definition filealloc :: "world \<Rightarrow> (nat option \<times> world) res" where
  "filealloc w =
     bnd (acquire Ftable_lock w) (\<lambda>w.
     case List.find (\<lambda>f. f_ref (the_file w f) = 0) [0..<NFILE] of
       Some f \<Rightarrow> bnd (release Ftable_lock (upd_file f (f_ref_update (\<lambda>_. 1)) w)) (\<lambda>w. Ok (Some f, w))
     | None \<Rightarrow> bnd (release Ftable_lock w) (\<lambda>w. Ok (None, w)))"

definition filedup :: "nat \<Rightarrow> world \<Rightarrow> world res" where
  "filedup f w =
     bnd (acquire Ftable_lock w) (\<lambda>w.
     if f_ref (the_file w f) < 1 then Panic ''filedup''
     else release Ftable_lock (upd_file f (\<lambda>x. x\<lparr>f_ref := f_ref x + 1\<rparr>) w))"

definition fileclose :: "nat \<Rightarrow> world \<Rightarrow> world res" where
  "fileclose f w =
     bnd (acquire Ftable_lock w) (\<lambda>w.
     if f_ref (the_file w f) < 1 then Panic ''fileclose''
     else let w = upd_file f (\<lambda>x. x\<lparr>f_ref := f_ref x - 1\<rparr>) w
          in if f_ref (the_file w f) > 0 then release Ftable_lock w
             else let ff = the_file w f; w = upd_file f (\<lambda>x. x\<lparr>f_ref := 0, f_type := FD_NONE\<rparr>) w
                  in bnd (release Ftable_lock w) (\<lambda>w.
                     case f_type ff of
                       FD_PIPE \<Rightarrow> pipeclose (f_pipe ff) (f_writable ff) w
                     | FD_NONE \<Rightarrow> Ok w
                     | _ \<Rightarrow> bnd (begin_op w) (\<lambda>w.
                           bnd (deref (f_ip ff)) (\<lambda>i.
                           bnd (iput i w) end_op))))"

text \<open>
  \<^verbatim>\<open>struct stat\<close> as bytes; the four bytes before the 8-aligned \<^verbatim>\<open>size\<close> are never written, and hold
  whatever was on the stack.
\<close>

definition stat_bytes :: "stat \<Rightarrow> u8 list \<Rightarrow> u8 list" where
  "stat_bytes st pad =
     le_bytes 4 (word_of_int (st_dev st) :: u32) @ le_bytes 4 (st_ino st) @ le_bytes 2 (st_type st) @
     le_bytes 2 (st_nlink st) @ pad @ le_bytes 8 (st_size st)"

definition ilock_ptr :: "nat option \<Rightarrow> world \<Rightarrow> (nat \<times> world) res" where
  "ilock_ptr p w = (case p of None \<Rightarrow> Panic ''ilock'' | Some i \<Rightarrow> bnd (ilock i w) (\<lambda>w. Ok (i, w)))"

definition filestat :: "nat \<Rightarrow> u64 \<Rightarrow> world \<Rightarrow> (int \<times> world) res" where
  "filestat f addr w =
     bnd (myproc_deref w) (\<lambda>(p, w).
     if f_type (the_file w f) = FD_INODE \<or> f_type (the_file w f) = FD_DEVICE
     then bnd (ilock_ptr (f_ip (the_file w f)) w) (\<lambda>(i, w).
          let st = stati i w
          in bnd (iunlock i w) (\<lambda>w.
             bnd (copyout (p_pagetable (procs w p)) addr (stat_bytes st (map (junk w) [12..<16])) w) (\<lambda>(r, w).
             if r < 0 then Ok (-1, w) else Ok (0, w))))
     else Ok (-1, w))"

definition no_dev :: "nat \<Rightarrow> world \<Rightarrow> bool" where
  "no_dev f w \<longleftrightarrow> sint (f_major (the_file w f)) < 0 \<or> sint (f_major (the_file w f)) \<ge> NDEV
     \<or> \<not> devsw (fs w) (unat (f_major (the_file w f)))"

definition fileread :: "nat \<Rightarrow> u64 \<Rightarrow> int \<Rightarrow> world \<Rightarrow> (int \<times> world) res" where
  "fileread f addr n w =
     (if \<not> f_readable (the_file w f) then Ok (-1, w)
      else case f_type (the_file w f) of
             FD_PIPE \<Rightarrow> piperead (f_pipe (the_file w f)) addr n w
           | FD_DEVICE \<Rightarrow> if no_dev f w then Ok (-1, w) else consoleread addr n w
           | FD_INODE \<Rightarrow>
               bnd (ilock_ptr (f_ip (the_file w f)) w) (\<lambda>(i, w).
               bnd (readi i (To_user addr) (f_off (the_file w f)) (word_of_int n) w) (\<lambda>(r, _, w).
               let w = (if r > 0 then upd_file f (\<lambda>x. x\<lparr>f_off := f_off x + word_of_int r\<rparr>) w else w)
               in bnd (iunlock i w) (\<lambda>w. Ok (r, w))))
           | FD_NONE \<Rightarrow> Panic ''fileread'')"

definition filewrite_max :: int where
  "filewrite_max = ((MAXOPBLOCKS - 1 - 1 - 2) div 2) * int BSIZE"

definition filewrite_step ::
  "nat \<Rightarrow> u64 \<Rightarrow> int \<Rightarrow> int \<times> world \<Rightarrow> (int \<times> world, int \<times> world) ctl res" where
  "filewrite_step f addr n = (\<lambda>(i, w).
     if \<not> i < n then Ok (Done (i, w))
     else let n1 = (if n - i > filewrite_max then filewrite_max else n - i)
          in bnd (begin_op w) (\<lambda>w.
             bnd (ilock_ptr (f_ip (the_file w f)) w) (\<lambda>(ip, w).
             bnd (writei ip (From_user (addr + word_of_int i)) (f_off (the_file w f)) (word_of_int n1) w) (\<lambda>(r, w).
             let w = (if r > 0 then upd_file f (\<lambda>x. x\<lparr>f_off := f_off x + word_of_int r\<rparr>) w else w)
             in bnd (iunlock ip w) (\<lambda>w.
                bnd (end_op w) (\<lambda>w.
                if r \<noteq> n1 then Ok (Done (i, w)) else Ok (Next (i + r, w))))))))"

definition filewrite :: "nat \<Rightarrow> u64 \<Rightarrow> int \<Rightarrow> world \<Rightarrow> (int \<times> world) res" where
  "filewrite f addr n w =
     (if \<not> f_writable (the_file w f) then Ok (-1, w)
      else case f_type (the_file w f) of
             FD_PIPE \<Rightarrow> pipewrite (f_pipe (the_file w f)) addr n w
           | FD_DEVICE \<Rightarrow> if no_dev f w then Ok (-1, w) else consolewrite addr n w
           | FD_INODE \<Rightarrow>
               bnd (loop_res (filewrite_step f addr n) (0, w)) (\<lambda>(i, w).
               Ok (if i = n then n else -1, w))
           | FD_NONE \<Rightarrow> Panic ''filewrite'')"

section \<open>Creating a pipe\<close>

definition close_if :: "nat option \<Rightarrow> world \<Rightarrow> world res" where
  "close_if f w = (case f of None \<Rightarrow> Ok w | Some f \<Rightarrow> fileclose f w)"

text \<open>\<open>Some (f0, f1)\<close> are the read and the write end; \<open>None\<close> is the return of -1.\<close>

definition pipealloc :: "world \<Rightarrow> ((nat \<times> nat) option \<times> world) res" where
  "pipealloc w =
     (let bad = (\<lambda>f0 f1 w. bnd (close_if f0 w) (\<lambda>w. bnd (close_if f1 w) (\<lambda>w. Ok (None, w))))
      in bnd (filealloc w) (\<lambda>(f0, w).
         case f0 of
           None \<Rightarrow> bad None None w
         | Some f0 \<Rightarrow>
             bnd (filealloc w) (\<lambda>(f1, w).
             case f1 of
               None \<Rightarrow> bad (Some f0) None w
             | Some f1 \<Rightarrow>
                 bnd (kalloc w) (\<lambda>(pi, w).
                 if pi = 0 then bad (Some f0) (Some f1) w
                 else let w = upd_pipe pi (\<lambda>p. p\<lparr>pi_readopen := 1, pi_writeopen := 1, pi_nwrite := 0,
                              pi_nread := 0\<rparr>) w;
                          w = initlock (Pipe_lock pi) ''pipe'' w;
                          w = upd_file f0 (\<lambda>x. x\<lparr>f_type := FD_PIPE, f_readable := True, f_writable := False,
                              f_pipe := pi\<rparr>) w;
                          w = upd_file f1 (\<lambda>x. x\<lparr>f_type := FD_PIPE, f_readable := False, f_writable := True,
                              f_pipe := pi\<rparr>) w
                      in Ok (Some (f0, f1), w)))))"

end
