(* ===== verification/Xv6_Exec.thy ===== *)
theory Xv6_Exec
  imports Xv6_File
begin

text \<open>
  \<^verbatim>\<open>kernel/exec.c\<close>: loading an ELF image into a new address space. Each \<^verbatim>\<open>goto bad\<close> of \<^verbatim>\<open>kexec\<close> hands the
  new page table, its size and whether the inode is still locked to \<open>exec_bad\<close>.
\<close>

unbundle bit_operations_syntax

definition MAXARG :: nat where "MAXARG = 32"
definition USERSTACK :: u64 where "USERSTACK = 1"
definition ELF_MAGIC :: u32 where "ELF_MAGIC = 0x464C457F"
definition ELF_PROG_LOAD :: u32 where "ELF_PROG_LOAD = 1"

definition flags2perm :: "u32 \<Rightarrow> u64" where
  "flags2perm flags =
     (let perm = (if flags AND 1 \<noteq> 0 then PTE_X else 0)
      in if flags AND 2 \<noteq> 0 then perm OR PTE_W else perm)"

section \<open>Headers\<close>

record elfhdr =
  elf_magic :: u32
  elf_entry :: u64
  elf_phoff :: u64
  elf_phnum :: u16

record proghdr =
  ph_type :: u32
  ph_flags :: u32
  ph_off :: u64
  ph_vaddr :: u64
  ph_filesz :: u64
  ph_memsz :: u64

definition field :: "nat \<Rightarrow> nat \<Rightarrow> u8 list \<Rightarrow> 'a::len word" where
  "field off n bs = of_le (take n (drop off bs))"

definition elf_of :: "u8 list \<Rightarrow> elfhdr" where
  "elf_of bs = \<lparr>elf_magic = field 0 4 bs, elf_entry = field 24 8 bs, elf_phoff = field 32 8 bs,
     elf_phnum = field 56 2 bs\<rparr>"

definition ph_of :: "u8 list \<Rightarrow> proghdr" where
  "ph_of bs = \<lparr>ph_type = field 0 4 bs, ph_flags = field 4 4 bs, ph_off = field 8 8 bs,
     ph_vaddr = field 16 8 bs, ph_filesz = field 32 8 bs, ph_memsz = field 40 8 bs\<rparr>"

section \<open>Segments\<close>

definition loadseg_step :: "u64 \<Rightarrow> u64 \<Rightarrow> nat \<Rightarrow> u32 \<Rightarrow> u32 \<Rightarrow> u32 \<times> world \<Rightarrow>
    (int \<times> world, u32 \<times> world) ctl res" where
  "loadseg_step pagetable va ip offset sz = (\<lambda>(i, w).
     if \<not> i < sz then Ok (Done (0, w))
     else bnd (walkaddr pagetable (va + ucast i) w) (\<lambda>(pa, w).
          if pa = 0 then Panic ''loadseg: address should exist''
          else let n = (if sz - i < 4096 then sz - i else 4096)
               in bnd (readi ip (To_mem pa) (offset + i) n w) (\<lambda>(r, _, w).
                  if r \<noteq> sint n then Ok (Done (-1, w)) else Ok (Next (i + 4096, w)))))"

definition loadseg :: "u64 \<Rightarrow> u64 \<Rightarrow> nat \<Rightarrow> u32 \<Rightarrow> u32 \<Rightarrow> world \<Rightarrow> (int \<times> world) res" where
  "loadseg pagetable va ip offset sz w = loop_res (loadseg_step pagetable va ip offset sz) (0, w)"

text \<open>
  One program header: \<open>Inl sz\<close> is \<^verbatim>\<open>goto bad\<close> with \<^verbatim>\<open>sz\<close> as it is there, \<open>Inr sz\<close> goes on with the next.
\<close>

definition exec_seg :: "u64 \<Rightarrow> nat \<Rightarrow> u32 \<Rightarrow> u64 \<Rightarrow> world \<Rightarrow> ((u64 + u64) \<times> world) res" where
  "exec_seg pagetable ip off sz w =
     bnd (readi ip To_local off 56 w) (\<lambda>(r, bs, w).
     let ph = ph_of bs
     in if r \<noteq> 56 then Ok (Inl sz, w)
        else if ph_type ph \<noteq> ELF_PROG_LOAD then Ok (Inr sz, w)
        else if ph_memsz ph < ph_filesz ph then Ok (Inl sz, w)
        else if ph_vaddr ph + ph_memsz ph < ph_vaddr ph then Ok (Inl sz, w)
        else if ph_vaddr ph mod PGSIZE \<noteq> 0 then Ok (Inl sz, w)
        else bnd (uvmalloc pagetable sz (ph_vaddr ph + ph_memsz ph) (flags2perm (ph_flags ph)) w) (\<lambda>(sz1, w).
             if sz1 = 0 then Ok (Inl sz, w)
             else bnd (loadseg pagetable (ph_vaddr ph) ip (ucast (ph_off ph)) (ucast (ph_filesz ph)) w) (\<lambda>(r, w).
                  if r < 0 then Ok (Inl sz1, w) else Ok (Inr sz1, w))))"

text \<open>The loop over the \<open>k\<close> program headers that are left.\<close>

primrec exec_segs :: "nat \<Rightarrow> u64 \<Rightarrow> nat \<Rightarrow> u32 \<Rightarrow> u64 \<Rightarrow> world \<Rightarrow> ((u64 + u64) \<times> world) res" where
  "exec_segs 0 pagetable ip off sz w = Ok (Inr sz, w)"
| "exec_segs (Suc k) pagetable ip off sz w =
     bnd (exec_seg pagetable ip off sz w) (\<lambda>(x, w).
     case x of Inl sz \<Rightarrow> Ok (Inl sz, w) | Inr sz \<Rightarrow> exec_segs k pagetable ip (off + 56) sz w)"

section \<open>The user stack\<close>

text \<open>
  The argument strings, copied to the new stack from the top down. \<open>ustack\<close> is \<^verbatim>\<open>ustack[0 .. argc-1]\<close>;
  an argument is its bytes before the NUL.
\<close>

fun exec_args :: "u64 \<Rightarrow> u64 \<Rightarrow> u8 list list \<Rightarrow> u64 list \<Rightarrow> u64 \<Rightarrow> world \<Rightarrow>
    ((u64 list \<times> u64) option \<times> world) res" where
  "exec_args pagetable stackbase [] ustack sp w = Ok (Some (ustack, sp), w)"
| "exec_args pagetable stackbase (a # args) ustack sp w =
     (if length ustack \<ge> MAXARG then Ok (None, w)
      else let sp = sp - of_nat (length a + 1); sp = sp - sp mod 16
           in if sp < stackbase then Ok (None, w)
              else bnd (copyout pagetable sp (a @ [0]) w) (\<lambda>(r, w).
                   if r < 0 then Ok (None, w)
                   else exec_args pagetable stackbase args (ustack @ [sp]) sp w))"

definition exec_stack :: "u64 \<Rightarrow> u64 \<Rightarrow> u8 list list \<Rightarrow> u64 \<Rightarrow> world \<Rightarrow> (u64 option \<times> world) res" where
  "exec_stack pagetable stackbase argv sp w =
     bnd (exec_args pagetable stackbase argv [] sp w) (\<lambda>(x, w).
     case x of
       None \<Rightarrow> Ok (None, w)
     | Some (ustack, sp) \<Rightarrow>
         let ustack = ustack @ [0]; sp = sp - of_nat (length ustack) * 8; sp = sp - sp mod 16
         in if sp < stackbase then Ok (None, w)
            else bnd (copyout pagetable sp (concat (map (le_bytes 8) ustack)) w) (\<lambda>(r, w).
                 if r < 0 then Ok (None, w) else Ok (Some sp, w)))"

section \<open>exec\<close>

definition upd_tf :: "u64 \<Rightarrow> (trapframe \<Rightarrow> trapframe) \<Rightarrow> world \<Rightarrow> world" where
  "upd_tf a f w = w\<lparr>tframes := (tframes w)(a := f (tframes w a))\<rparr>"

definition exec_bad :: "u64 \<Rightarrow> u64 \<Rightarrow> nat option \<Rightarrow> world \<Rightarrow> (int \<times> world) res" where
  "exec_bad pagetable sz ip w =
     bnd (if pagetable \<noteq> 0 then proc_freepagetable pagetable sz w else Ok w) (\<lambda>w.
     bnd (case ip of None \<Rightarrow> Ok w | Some i \<Rightarrow> bnd (iunlockput i w) end_op) (\<lambda>w.
     Ok (-1, w)))"

definition last_elem :: "u8 list \<Rightarrow> u8 list" where
  "last_elem path = rev (takeWhile (\<lambda>c. c \<noteq> slash) (rev path))"

text \<open>From the allocation of the stack to the commit to the new image.\<close>

definition exec_commit :: "u8 list \<Rightarrow> u8 list list \<Rightarrow> u64 \<Rightarrow> u64 \<Rightarrow> u64 \<Rightarrow> world \<Rightarrow> (int \<times> world) res" where
  "exec_commit path argv pagetable sz entry w =
     bnd (myproc_deref w) (\<lambda>(p, w).
     let oldsz = p_sz (procs w p); sz = PGROUNDUP sz
     in bnd (uvmalloc pagetable sz (sz + (USERSTACK + 1) * PGSIZE) PTE_W w) (\<lambda>(sz1, w).
        if sz1 = 0 then exec_bad pagetable sz None w
        else bnd (uvmclear pagetable (sz1 - (USERSTACK + 1) * PGSIZE) w) (\<lambda>w.
             bnd (exec_stack pagetable (sz1 - USERSTACK * PGSIZE) argv sz1 w) (\<lambda>(x, w).
             case x of
               None \<Rightarrow> exec_bad pagetable sz1 None w
             | Some sp \<Rightarrow>
                 let tf = p_trapframe (procs w p);
                     w = upd_tf tf (tf_a1_update (\<lambda>_. sp)) w;
                     w = upd_proc p (\<lambda>q. q\<lparr>p_name := safestrcpy_arr (p_name q) (last_elem path @ [0]) 16\<rparr>) w;
                     oldpt = p_pagetable (procs w p);
                     w = upd_proc p (\<lambda>q. q\<lparr>p_pagetable := pagetable, p_sz := sz1\<rparr>) w;
                     w = upd_tf tf (\<lambda>t. t\<lparr>tf_epc := entry, tf_sp := sp\<rparr>) w
                 in bnd (proc_freepagetable oldpt oldsz w) (\<lambda>w. Ok (int (length argv), w))))))"

definition kexec :: "u8 list \<Rightarrow> u8 list list \<Rightarrow> world \<Rightarrow> (int \<times> world) res" where
  "kexec path argv w =
     bnd (myproc_deref w) (\<lambda>(p, w).
     bnd (begin_op w) (\<lambda>w.
     bnd (namei path w) (\<lambda>(ip, w).
     case ip of
       None \<Rightarrow> bnd (end_op w) (\<lambda>w. Ok (-1, w))
     | Some ip \<Rightarrow>
         bnd (ilock ip w) (\<lambda>w.
         bnd (readi ip To_local 0 64 w) (\<lambda>(r, bs, w).
         let elf = elf_of bs
         in if r \<noteq> 64 then exec_bad 0 0 (Some ip) w
            else if elf_magic elf \<noteq> ELF_MAGIC then exec_bad 0 0 (Some ip) w
            else bnd (proc_pagetable p w) (\<lambda>(pagetable, w).
                 if pagetable = 0 then exec_bad 0 0 (Some ip) w
                 else bnd (exec_segs (unat (elf_phnum elf)) pagetable ip (ucast (elf_phoff elf)) 0 w) (\<lambda>(x, w).
                      case x of
                        Inl sz \<Rightarrow> exec_bad pagetable sz (Some ip) w
                      | Inr sz \<Rightarrow>
                          bnd (iunlockput ip w) (\<lambda>w.
                          bnd (end_op w) (\<lambda>w.
                          exec_commit path argv pagetable sz (elf_entry elf) w)))))))))"

end
