(* ===== verification/Xv6_Process.thy ===== *)
theory Xv6_Process
  imports Xv6_Exec
begin

text \<open>
  The operations of \<^verbatim>\<open>kernel/proc.c\<close> on whole processes, which need the file system: \<^verbatim>\<open>userinit\<close>, \<^verbatim>\<open>kfork\<close>
  and \<^verbatim>\<open>kexit\<close>.
\<close>

definition userinit :: "world \<Rightarrow> world res" where
  "userinit w =
     bnd (allocproc w) (\<lambda>(p, w).
     let w = w\<lparr>initproc := p\<rparr>
     in bnd (namei [slash] w) (\<lambda>(ip, w).
        bnd (deref p) (\<lambda>p.
        let w = upd_proc p (p_cwd_update (\<lambda>_. ip)) w;
            w = upd_proc p (p_state_update (\<lambda>_. RUNNABLE)) w
        in release (Proc_lock p) w)))"

definition fork_files_step :: "nat \<Rightarrow> nat \<Rightarrow> nat \<Rightarrow> world \<Rightarrow> world res" where
  "fork_files_step p np i w =
     (case p_ofile (procs w p) i of
        None \<Rightarrow> Ok w
      | Some f \<Rightarrow> bnd (filedup f w) (\<lambda>w.
          Ok (upd_proc np (\<lambda>q. q\<lparr>p_ofile := (p_ofile q)(i := Some f)\<rparr>) w)))"

definition kfork :: "world \<Rightarrow> (int \<times> world) res" where
  "kfork w =
     bnd (myproc_deref w) (\<lambda>(p, w).
     bnd (allocproc w) (\<lambda>(np, w).
     case np of
       None \<Rightarrow> Ok (-1, w)
     | Some np \<Rightarrow>
         bnd (uvmcopy (p_pagetable (procs w p)) (p_pagetable (procs w np)) (p_sz (procs w p)) w) (\<lambda>(r, w).
         if r < 0
         then bnd (freeproc np w) (\<lambda>w. bnd (release (Proc_lock np) w) (\<lambda>w. Ok (-1, w)))
         else let w = upd_proc np (p_sz_update (\<lambda>_. p_sz (procs w p))) w;
                  w = upd_tf (p_trapframe (procs w np)) (\<lambda>_. tframes w (p_trapframe (procs w p))) w;
                  w = upd_tf (p_trapframe (procs w np)) (tf_a0_update (\<lambda>_. 0)) w
              in bnd (foreach (fork_files_step p np) [0..<NOFILE] w) (\<lambda>w.
                 bnd (deref (p_cwd (procs w p))) (\<lambda>cwd.
                 bnd (idup cwd w) (\<lambda>w.
                 let w = upd_proc np (p_cwd_update (\<lambda>_. Some cwd)) w;
                     w = upd_proc np (\<lambda>q. q\<lparr>p_name := safestrcpy_arr (p_name q) (p_name (procs w p)) 16\<rparr>) w;
                     pid = p_pid (procs w np)
                 in bnd (release (Proc_lock np) w) (\<lambda>w.
                    bnd (acquire Wait_lock w) (\<lambda>w.
                    bnd (release Wait_lock (upd_proc np (p_parent_update (\<lambda>_. Some p)) w)) (\<lambda>w.
                    bnd (acquire (Proc_lock np) w) (\<lambda>w.
                    bnd (release (Proc_lock np) (upd_proc np (p_state_update (\<lambda>_. RUNNABLE)) w)) (\<lambda>w.
                    bnd (kqueue_post (cstr ''fork'') pid w) (\<lambda>w.
                    Ok (pid, w)))))))))))))"

definition exit_close_step :: "nat \<Rightarrow> nat \<Rightarrow> world \<Rightarrow> world res" where
  "exit_close_step p fd w =
     (case p_ofile (procs w p) fd of
        None \<Rightarrow> Ok w
      | Some f \<Rightarrow> bnd (fileclose f w) (\<lambda>w.
          Ok (upd_proc p (\<lambda>q. q\<lparr>p_ofile := (p_ofile q)(fd := None)\<rparr>) w)))"

text \<open>\<^verbatim>\<open>kexit\<close> up to the point where it calls \<^verbatim>\<open>sched\<close>, and the whole function, which never returns.\<close>

definition kexit_to_sched :: "int \<Rightarrow> world \<Rightarrow> world res" where
  "kexit_to_sched status w =
     bnd (myproc w) (\<lambda>(p, w).
     if p = initproc w then Panic ''init exiting''
     else bnd (deref p) (\<lambda>p.
       bnd (foreach (exit_close_step p) [0..<NOFILE] w) (\<lambda>w.
       bnd (begin_op w) (\<lambda>w.
       bnd (deref (p_cwd (procs w p))) (\<lambda>cwd.
       bnd (iput cwd w) (\<lambda>w.
       bnd (end_op w) (\<lambda>w.
       let w = upd_proc p (p_cwd_update (\<lambda>_. None)) w
       in bnd (acquire Wait_lock w) (\<lambda>w.
          bnd (reparent p w) (\<lambda>w.
          bnd (wakeup (map_option Ch_proc (p_parent (procs w p))) w) (\<lambda>w.
          bnd (acquire (Proc_lock p) w) (\<lambda>w.
          release Wait_lock (upd_proc p (\<lambda>q. q\<lparr>p_xstate := status, p_state := ZOMBIE\<rparr>) w))))))))))))"

definition kexit :: "int \<Rightarrow> world \<Rightarrow> 'a res" where
  "kexit status w =
     bnd (kexit_to_sched status w) (\<lambda>w.
     bnd (sched w) (\<lambda>_. Panic ''zombie exit''))"

end
