(* ===== verification/Xv6_Sysfile.thy ===== *)
theory Xv6_Sysfile
  imports Xv6_Process
begin

text \<open>
  The argument fetching of \<^verbatim>\<open>kernel/syscall.c\<close> and the file-system calls of \<^verbatim>\<open>kernel/sysfile.c\<close>. A string
  argument is the list of the bytes before its NUL. A system call returns its \<^verbatim>\<open>uint64\<close> as the signed
  number it stands for.
\<close>

unbundle bit_operations_syntax

section \<open>Arguments\<close>

definition MAXPATH :: nat where "MAXPATH = 128"

definition fetchaddr :: "u64 \<Rightarrow> world \<Rightarrow> (int \<times> u64 \<times> world) res" where
  "fetchaddr addr w =
     bnd (myproc_deref w) (\<lambda>(p, w).
     if addr \<ge> p_sz (procs w p) \<or> addr + 8 > p_sz (procs w p) then Ok (-1, 0, w)
     else bnd (copyin (p_pagetable (procs w p)) addr 8 w) (\<lambda>(r, bs, w).
          if r \<noteq> 0 then Ok (-1, of_le bs, w) else Ok (0, of_le bs, w)))"

text \<open>The bytes stored in \<^verbatim>\<open>buf\<close> come back next to the length; on success they end with a NUL.\<close>

definition fetchstr :: "u64 \<Rightarrow> nat \<Rightarrow> world \<Rightarrow> (int \<times> u8 list \<times> world) res" where
  "fetchstr addr mx w =
     bnd (myproc_deref w) (\<lambda>(p, w).
     bnd (copyinstr (p_pagetable (procs w p)) addr mx w) (\<lambda>(r, bs, w).
     if r < 0 then Ok (-1, bs, w) else Ok (int (length (cstring bs)), bs, w)))"

definition argraw :: "nat \<Rightarrow> world \<Rightarrow> (u64 \<times> world) res" where
  "argraw n w =
     bnd (myproc_deref w) (\<lambda>(p, w).
     let tf = tframes w (p_trapframe (procs w p))
     in if n = 0 then Ok (tf_a0 tf, w)
        else if n = 1 then Ok (tf_a1 tf, w)
        else if n = 2 then Ok (tf_a2 tf, w)
        else if n = 3 then Ok (tf_a3 tf, w)
        else if n = 4 then Ok (tf_a4 tf, w)
        else if n = 5 then Ok (tf_a5 tf, w)
        else Panic ''argraw'')"

definition argint :: "nat \<Rightarrow> world \<Rightarrow> (int \<times> world) res" where
  "argint n w = bnd (argraw n w) (\<lambda>(x, w). Ok (sint (ucast x :: u32), w))"

definition argaddr :: "nat \<Rightarrow> world \<Rightarrow> (u64 \<times> world) res" where
  "argaddr n w = argraw n w"

definition argstr :: "nat \<Rightarrow> nat \<Rightarrow> world \<Rightarrow> (int \<times> u8 list \<times> world) res" where
  "argstr n mx w = bnd (argaddr n w) (\<lambda>(addr, w). fetchstr addr mx w)"

section \<open>File descriptors\<close>

definition argfd :: "nat \<Rightarrow> world \<Rightarrow> ((nat \<times> nat) option \<times> world) res" where
  "argfd n w =
     bnd (argint n w) (\<lambda>(fd, w).
     if fd < 0 \<or> fd \<ge> int NOFILE then Ok (None, w)
     else bnd (myproc_deref w) (\<lambda>(p, w).
          case p_ofile (procs w p) (nat fd) of
            None \<Rightarrow> Ok (None, w)
          | Some f \<Rightarrow> Ok (Some (nat fd, f), w)))"

definition set_ofile :: "nat \<Rightarrow> nat \<Rightarrow> nat option \<Rightarrow> world \<Rightarrow> world" where
  "set_ofile p fd f w = upd_proc p (\<lambda>q. q\<lparr>p_ofile := (p_ofile q)(fd := f)\<rparr>) w"

definition fdalloc :: "nat \<Rightarrow> world \<Rightarrow> (nat option \<times> world) res" where
  "fdalloc f w =
     bnd (myproc_deref w) (\<lambda>(p, w).
     case List.find (\<lambda>fd. p_ofile (procs w p) fd = None) [0..<NOFILE] of
       Some fd \<Rightarrow> Ok (Some fd, set_ofile p fd (Some f) w)
     | None \<Rightarrow> Ok (None, w))"

definition sys_dup :: "world \<Rightarrow> (int \<times> world) res" where
  "sys_dup w =
     bnd (argfd 0 w) (\<lambda>(a, w).
     case a of
       None \<Rightarrow> Ok (-1, w)
     | Some (_, f) \<Rightarrow>
         bnd (fdalloc f w) (\<lambda>(fd, w).
         case fd of
           None \<Rightarrow> Ok (-1, w)
         | Some fd \<Rightarrow> bnd (filedup f w) (\<lambda>w. Ok (int fd, w))))"

definition sys_read :: "world \<Rightarrow> (int \<times> world) res" where
  "sys_read w =
     bnd (argaddr 1 w) (\<lambda>(p, w).
     bnd (argint 2 w) (\<lambda>(n, w).
     bnd (argfd 0 w) (\<lambda>(a, w).
     case a of None \<Rightarrow> Ok (-1, w) | Some (_, f) \<Rightarrow> fileread f p n w)))"

definition sys_write :: "world \<Rightarrow> (int \<times> world) res" where
  "sys_write w =
     bnd (argaddr 1 w) (\<lambda>(p, w).
     bnd (argint 2 w) (\<lambda>(n, w).
     bnd (argfd 0 w) (\<lambda>(a, w).
     case a of
       None \<Rightarrow> Ok (-1, w)
     | Some (_, f) \<Rightarrow>
         bnd (filewrite f p n w) (\<lambda>(result, w).
         bnd (if result > 0
              then bnd (myproc_deref w) (\<lambda>(me, w). kqueue_post (cstr ''write'') (p_pid (procs w me)) w)
              else Ok w) (\<lambda>w.
         Ok (result, w))))))"

definition sys_close :: "world \<Rightarrow> (int \<times> world) res" where
  "sys_close w =
     bnd (argfd 0 w) (\<lambda>(a, w).
     case a of
       None \<Rightarrow> Ok (-1, w)
     | Some (fd, f) \<Rightarrow>
         bnd (myproc_deref w) (\<lambda>(p, w).
         bnd (fileclose f (set_ofile p fd None w)) (\<lambda>w. Ok (0, w))))"

definition sys_fstat :: "world \<Rightarrow> (int \<times> world) res" where
  "sys_fstat w =
     bnd (argaddr 1 w) (\<lambda>(st, w).
     bnd (argfd 0 w) (\<lambda>(a, w).
     case a of None \<Rightarrow> Ok (-1, w) | Some (_, f) \<Rightarrow> filestat f st w))"

section \<open>Links and directories\<close>

definition name_buf :: "world \<Rightarrow> u8 list" where
  "name_buf w = map (junk w) [0..<DIRSIZ]"

definition fail_op :: "world \<Rightarrow> (int \<times> world) res" where
  "fail_op w = bnd (end_op w) (\<lambda>w. Ok (-1, w))"

definition add_nlink :: "nat \<Rightarrow> u16 \<Rightarrow> world \<Rightarrow> world res" where
  "add_nlink i d w = iupdate i (upd_inode i (\<lambda>x. x\<lparr>i_nlink := i_nlink x + d\<rparr>) w)"

definition link_bad :: "nat \<Rightarrow> world \<Rightarrow> (int \<times> world) res" where
  "link_bad ip w =
     bnd (ilock ip w) (\<lambda>w.
     bnd (add_nlink ip (-1) w) (\<lambda>w.
     bnd (iunlockput ip w) fail_op))"

definition sys_link :: "world \<Rightarrow> (int \<times> world) res" where
  "sys_link w =
     bnd (argstr 0 MAXPATH w) (\<lambda>(r, old, w).
     if r < 0 then Ok (-1, w) else
     bnd (argstr 1 MAXPATH w) (\<lambda>(r, new, w).
     if r < 0 then Ok (-1, w) else
     bnd (begin_op w) (\<lambda>w.
     bnd (namei (cstring old) w) (\<lambda>(ip, w).
     case ip of
       None \<Rightarrow> fail_op w
     | Some ip \<Rightarrow>
         bnd (ilock ip w) (\<lambda>w.
         if i_type (ino w ip) = T_DIR then bnd (iunlockput ip w) fail_op
         else bnd (add_nlink ip 1 w) (\<lambda>w.
              bnd (iunlock ip w) (\<lambda>w.
              bnd (nameiparent (cstring new) (name_buf w) w) (\<lambda>(dp, name, w).
              case dp of
                None \<Rightarrow> link_bad ip w
              | Some dp \<Rightarrow>
                  bnd (ilock dp w) (\<lambda>w.
                  bnd (if i_dev (ino w dp) \<noteq> i_dev (ino w ip) then Ok (-1, w)
                       else dirlink dp name (i_inum (ino w ip)) w) (\<lambda>(r, w).
                  bnd (iunlockput dp w) (\<lambda>w.
                  if r < 0 then link_bad ip w
                  else bnd (iput ip w) (\<lambda>w. bnd (end_op w) (\<lambda>w. Ok (0, w))))))))))))))"

definition isdirempty_step :: "nat \<Rightarrow> u32 \<times> world \<Rightarrow> (bool \<times> world, u32 \<times> world) ctl res" where
  "isdirempty_step dp = (\<lambda>(off, w).
     if \<not> off < i_size (ino w dp) then Ok (Done (True, w))
     else bnd (readi dp To_local off 16 w) (\<lambda>(r, bs, w).
          if r \<noteq> 16 then Panic ''isdirempty: readi''
          else if de_inum (dirent_of bs) \<noteq> 0 then Ok (Done (False, w))
          else Ok (Next (off + 16, w))))"

definition isdirempty :: "nat \<Rightarrow> world \<Rightarrow> (bool \<times> world) res" where
  "isdirempty dp w = loop_res (isdirempty_step dp) (32, w)"

definition unlink_entry :: "nat \<Rightarrow> nat \<Rightarrow> u32 \<Rightarrow> world \<Rightarrow> (int \<times> world) res" where
  "unlink_entry dp ip off w =
     bnd (writei dp (From_local (replicate 16 0)) off 16 w) (\<lambda>(r, w).
     if r \<noteq> 16 then Panic ''unlink: writei''
     else bnd (if i_type (ino w ip) = T_DIR then add_nlink dp (-1) w else Ok w) (\<lambda>w.
          bnd (iunlockput dp w) (\<lambda>w.
          bnd (add_nlink ip (-1) w) (\<lambda>w.
          bnd (iunlockput ip w) (\<lambda>w.
          bnd (end_op w) (\<lambda>w. Ok (0, w)))))))"

definition sys_unlink :: "world \<Rightarrow> (int \<times> world) res" where
  "sys_unlink w =
     bnd (argstr 0 MAXPATH w) (\<lambda>(r, path, w).
     if r < 0 then Ok (-1, w) else
     bnd (begin_op w) (\<lambda>w.
     bnd (nameiparent (cstring path) (name_buf w) w) (\<lambda>(dp, name, w).
     case dp of
       None \<Rightarrow> fail_op w
     | Some dp \<Rightarrow>
         let bad = (\<lambda>w. bnd (iunlockput dp w) fail_op)
         in bnd (ilock dp w) (\<lambda>w.
            if namecmp name (cstr ''.'') = 0 \<or> namecmp name (cstr ''..'') = 0 then bad w
            else bnd (dirlookup dp name w) (\<lambda>(x, w).
                 case x of
                   None \<Rightarrow> bad w
                 | Some (ip, off) \<Rightarrow>
                     bnd (ilock ip w) (\<lambda>w.
                     if sint (i_nlink (ino w ip)) < 1 then Panic ''unlink: nlink < 1''
                     else bnd (if i_type (ino w ip) = T_DIR then isdirempty ip w else Ok (True, w)) (\<lambda>(e, w).
                          if \<not> e then bnd (iunlockput ip w) bad
                          else unlink_entry dp ip off w)))))))"

definition create_fail :: "nat \<Rightarrow> nat \<Rightarrow> world \<Rightarrow> (nat option \<times> world) res" where
  "create_fail ip dp w =
     bnd (iupdate ip (upd_inode ip (i_nlink_update (\<lambda>_. 0)) w)) (\<lambda>w.
     bnd (iunlockput ip w) (\<lambda>w.
     bnd (iunlockput dp w) (\<lambda>w. Ok (None, w))))"

definition create :: "u8 list \<Rightarrow> u16 \<Rightarrow> u16 \<Rightarrow> u16 \<Rightarrow> world \<Rightarrow> (nat option \<times> world) res" where
  "create path ty major minor w =
     bnd (nameiparent path (name_buf w) w) (\<lambda>(dp, name, w).
     case dp of
       None \<Rightarrow> Ok (None, w)
     | Some dp \<Rightarrow>
         bnd (ilock dp w) (\<lambda>w.
         bnd (dirlookup dp name w) (\<lambda>(x, w).
         case x of
           Some (ip, _) \<Rightarrow>
             bnd (iunlockput dp w) (\<lambda>w.
             bnd (ilock ip w) (\<lambda>w.
             if ty = T_FILE \<and> (i_type (ino w ip) = T_FILE \<or> i_type (ino w ip) = T_DEVICE) then Ok (Some ip, w)
             else bnd (iunlockput ip w) (\<lambda>w. Ok (None, w))))
         | None \<Rightarrow>
             bnd (ialloc (i_dev (ino w dp)) ty w) (\<lambda>(ip, w).
             case ip of
               None \<Rightarrow> bnd (iunlockput dp w) (\<lambda>w. Ok (None, w))
             | Some ip \<Rightarrow>
                 bnd (ilock ip w) (\<lambda>w.
                 bnd (iupdate ip (upd_inode ip (\<lambda>x. x\<lparr>i_major := major, i_minor := minor, i_nlink := 1\<rparr>) w)) (\<lambda>w.
                 bnd (if ty = T_DIR
                      then bnd (dirlink ip (cstr ''.'') (i_inum (ino w ip)) w) (\<lambda>(r, w).
                           if r < 0 then Ok (-1, w) else dirlink ip (cstr ''..'') (i_inum (ino w dp)) w)
                      else Ok (0, w)) (\<lambda>(r, w).
                 if r < 0 then create_fail ip dp w
                 else bnd (dirlink dp name (i_inum (ino w ip)) w) (\<lambda>(r, w).
                      if r < 0 then create_fail ip dp w
                      else bnd (if ty = T_DIR then add_nlink dp 1 w else Ok w) (\<lambda>w.
                           bnd (iunlockput dp w) (\<lambda>w. Ok (Some ip, w)))))))))))"

definition O_RDONLY :: int where "O_RDONLY = 0"
definition O_WRONLY :: u32 where "O_WRONLY = 1"
definition O_RDWR :: u32 where "O_RDWR = 2"
definition O_CREATE :: u32 where "O_CREATE = 0x200"
definition O_TRUNC :: u32 where "O_TRUNC = 0x400"

text \<open>The first half of \<^verbatim>\<open>sys_open\<close>: the inode, locked, or \<open>None\<close> after a failure.\<close>

definition open_inode :: "u8 list \<Rightarrow> int \<Rightarrow> world \<Rightarrow> (nat option \<times> world) res" where
  "open_inode path omode w =
     (if (word_of_int omode :: u32) AND O_CREATE \<noteq> 0 then create path T_FILE 0 0 w
      else bnd (namei path w) (\<lambda>(ip, w).
           case ip of
             None \<Rightarrow> Ok (None, w)
           | Some ip \<Rightarrow>
               bnd (ilock ip w) (\<lambda>w.
               if i_type (ino w ip) = T_DIR \<and> omode \<noteq> O_RDONLY
               then bnd (iunlockput ip w) (\<lambda>w. Ok (None, w))
               else Ok (Some ip, w))))"

definition open_fill :: "nat \<Rightarrow> nat \<Rightarrow> u32 \<Rightarrow> world \<Rightarrow> world" where
  "open_fill f ip om w =
     (let w = (if i_type (ino w ip) = T_DEVICE
               then upd_file f (\<lambda>x. x\<lparr>f_type := FD_DEVICE, f_major := i_major (ino w ip)\<rparr>) w
               else upd_file f (\<lambda>x. x\<lparr>f_type := FD_INODE, f_off := 0\<rparr>) w)
      in upd_file f (\<lambda>x. x\<lparr>f_ip := Some ip, f_readable := (om AND O_WRONLY = 0),
           f_writable := (om AND O_WRONLY \<noteq> 0 \<or> om AND O_RDWR \<noteq> 0)\<rparr>) w)"

definition sys_open :: "world \<Rightarrow> (int \<times> world) res" where
  "sys_open w =
     bnd (argint 1 w) (\<lambda>(omode, w).
     bnd (argstr 0 MAXPATH w) (\<lambda>(n, path, w).
     if n < 0 then Ok (-1, w) else
     bnd (begin_op w) (\<lambda>w.
     bnd (open_inode (cstring path) omode w) (\<lambda>(ip, w).
     case ip of
       None \<Rightarrow> fail_op w
     | Some ip \<Rightarrow>
         if i_type (ino w ip) = T_DEVICE \<and>
            (sint (i_major (ino w ip)) < 0 \<or> sint (i_major (ino w ip)) \<ge> NDEV)
         then bnd (iunlockput ip w) fail_op
         else bnd (filealloc w) (\<lambda>(f, w).
              bnd (case f of None \<Rightarrow> Ok (None, w) | Some f \<Rightarrow> fdalloc f w) (\<lambda>(fd, w).
              case (f, fd) of
                (Some f, Some fd) \<Rightarrow>
                  let w = open_fill f ip (word_of_int omode) w
                  in bnd (if (word_of_int omode :: u32) AND O_TRUNC \<noteq> 0 \<and> i_type (ino w ip) = T_FILE
                          then itrunc ip w else Ok w) (\<lambda>w.
                     bnd (iunlock ip w) (\<lambda>w.
                     bnd (end_op w) (\<lambda>w. Ok (int fd, w))))
              | _ \<Rightarrow> bnd (close_if f w) (\<lambda>w. bnd (iunlockput ip w) fail_op)))))))"

definition sys_mkdir :: "world \<Rightarrow> (int \<times> world) res" where
  "sys_mkdir w =
     bnd (begin_op w) (\<lambda>w.
     bnd (argstr 0 MAXPATH w) (\<lambda>(r, path, w).
     bnd (if r < 0 then Ok (None, w) else create (cstring path) T_DIR 0 0 w) (\<lambda>(ip, w).
     case ip of
       None \<Rightarrow> fail_op w
     | Some ip \<Rightarrow> bnd (iunlockput ip w) (\<lambda>w. bnd (end_op w) (\<lambda>w. Ok (0, w))))))"

definition sys_mknod :: "world \<Rightarrow> (int \<times> world) res" where
  "sys_mknod w =
     bnd (begin_op w) (\<lambda>w.
     bnd (argint 1 w) (\<lambda>(major, w).
     bnd (argint 2 w) (\<lambda>(minor, w).
     bnd (argstr 0 MAXPATH w) (\<lambda>(r, path, w).
     bnd (if r < 0 then Ok (None, w)
          else create (cstring path) T_DEVICE (word_of_int major) (word_of_int minor) w) (\<lambda>(ip, w).
     case ip of
       None \<Rightarrow> fail_op w
     | Some ip \<Rightarrow> bnd (iunlockput ip w) (\<lambda>w. bnd (end_op w) (\<lambda>w. Ok (0, w))))))))"

definition sys_chdir :: "world \<Rightarrow> (int \<times> world) res" where
  "sys_chdir w =
     bnd (myproc_deref w) (\<lambda>(p, w).
     bnd (begin_op w) (\<lambda>w.
     bnd (argstr 0 MAXPATH w) (\<lambda>(r, path, w).
     bnd (if r < 0 then Ok (None, w) else namei (cstring path) w) (\<lambda>(ip, w).
     case ip of
       None \<Rightarrow> fail_op w
     | Some ip \<Rightarrow>
         bnd (ilock ip w) (\<lambda>w.
         if i_type (ino w ip) \<noteq> T_DIR then bnd (iunlockput ip w) fail_op
         else bnd (iunlock ip w) (\<lambda>w.
              bnd (deref (p_cwd (procs w p))) (\<lambda>cwd.
              bnd (iput cwd w) (\<lambda>w.
              bnd (end_op w) (\<lambda>w.
              Ok (0, upd_proc p (p_cwd_update (\<lambda>_. Some ip)) w)))))))))) "

section \<open>exec and pipe\<close>

text \<open>
  The loop that fetches the argument vector: \<open>argv\<close> is the pages allocated so far. \<open>True\<close> goes on to
  \<^verbatim>\<open>kexec\<close>, \<open>False\<close> is \<^verbatim>\<open>goto bad\<close>; \<open>k\<close> is how many more arguments fit.
\<close>

primrec exec_fetch :: "nat \<Rightarrow> u64 \<Rightarrow> u64 list \<Rightarrow> world \<Rightarrow> (bool \<times> u64 list \<times> world) res" where
  "exec_fetch 0 uargv argv w = Ok (False, argv, w)"
| "exec_fetch (Suc k) uargv argv w =
     bnd (fetchaddr (uargv + 8 * of_nat (length argv)) w) (\<lambda>(r, uarg, w).
     if r < 0 then Ok (False, argv, w)
     else if uarg = 0 then Ok (True, argv, w)
     else bnd (kalloc w) (\<lambda>(pg, w).
          if pg = 0 then Ok (False, argv, w)
          else bnd (fetchstr uarg 4096 w) (\<lambda>(r, bs, w).
               let w = w\<lparr>mem := store_bytes pg bs (mem w)\<rparr>
               in if r < 0 then Ok (False, argv @ [pg], w)
                  else exec_fetch k uargv (argv @ [pg]) w)))"

definition sys_exec :: "world \<Rightarrow> (int \<times> world) res" where
  "sys_exec w =
     bnd (argaddr 1 w) (\<lambda>(uargv, w).
     bnd (argstr 0 MAXPATH w) (\<lambda>(r, path, w).
     if r < 0 then Ok (-1, w) else
     bnd (exec_fetch MAXARG uargv [] w) (\<lambda>(go, argv, w).
     bnd (if go then kexec (cstring path) (map (\<lambda>pg. cstring (region (mem w) pg 4096)) argv) w
          else Ok (-1, w)) (\<lambda>(ret, w).
     bnd (foreach kfree argv w) (\<lambda>w. Ok (ret, w))))))"

definition int_bytes :: "nat \<Rightarrow> u8 list" where
  "int_bytes fd = le_bytes 4 (of_nat fd :: u32)"

definition pipe_fail :: "nat \<Rightarrow> nat \<Rightarrow> world \<Rightarrow> (int \<times> world) res" where
  "pipe_fail rf wrf w = bnd (fileclose rf w) (\<lambda>w. bnd (fileclose wrf w) (\<lambda>w. Ok (-1, w)))"

definition sys_pipe :: "world \<Rightarrow> (int \<times> world) res" where
  "sys_pipe w =
     bnd (myproc_deref w) (\<lambda>(p, w).
     bnd (argaddr 0 w) (\<lambda>(fdarray, w).
     bnd (pipealloc w) (\<lambda>(x, w).
     case x of
       None \<Rightarrow> Ok (-1, w)
     | Some (rf, wrf) \<Rightarrow>
         bnd (fdalloc rf w) (\<lambda>(fd0, w).
         case fd0 of
           None \<Rightarrow> pipe_fail rf wrf w
         | Some fd0 \<Rightarrow>
             bnd (fdalloc wrf w) (\<lambda>(fd1, w).
             case fd1 of
               None \<Rightarrow> pipe_fail rf wrf (set_ofile p fd0 None w)
             | Some fd1 \<Rightarrow>
                 bnd (copyout (p_pagetable (procs w p)) fdarray (int_bytes fd0) w) (\<lambda>(r, w).
                 bnd (if r < 0 then Ok (-1, w)
                      else copyout (p_pagetable (procs w p)) (fdarray + 4) (int_bytes fd1) w) (\<lambda>(r, w).
                 if r < 0 then pipe_fail rf wrf (set_ofile p fd1 None (set_ofile p fd0 None w))
                 else Ok (0, w))))))))"

end
