(* ===== verification/Xv6_Syscall.thy ===== *)
theory Xv6_Syscall
  imports Xv6_Sysfile
begin

text \<open>
  The process system calls of \<^verbatim>\<open>kernel/sysproc.c\<close>, the two event-queue calls of \<^verbatim>\<open>kernel/proc.c\<close>, and the
  dispatch of \<^verbatim>\<open>kernel/syscall.c\<close>.
\<close>

section \<open>Processes\<close>

definition sys_exit :: "world \<Rightarrow> (int \<times> world) res" where
  "sys_exit w = bnd (argint 0 w) (\<lambda>(n, w). kexit n w)"

definition sys_getpid :: "world \<Rightarrow> (int \<times> world) res" where
  "sys_getpid w = bnd (myproc_deref w) (\<lambda>(p, w). Ok (p_pid (procs w p), w))"

definition sys_fork :: "world \<Rightarrow> (int \<times> world) res" where
  "sys_fork w = kfork w"

definition sys_wait :: "world \<Rightarrow> (int \<times> world) res" where
  "sys_wait w = bnd (argaddr 0 w) (\<lambda>(p, w). kwait p w)"

definition SBRK_EAGER :: int where "SBRK_EAGER = 1"

definition sys_sbrk :: "world \<Rightarrow> (int \<times> world) res" where
  "sys_sbrk w =
     bnd (argint 0 w) (\<lambda>(n, w).
     bnd (argint 1 w) (\<lambda>(t, w).
     bnd (myproc_deref w) (\<lambda>(p, w).
     let addr = p_sz (procs w p)
     in if t = SBRK_EAGER \<or> n < 0
        then bnd (growproc n w) (\<lambda>(r, w). if r < 0 then Ok (-1, w) else Ok (sint addr, w))
        else if addr + word_of_int n < addr then Ok (-1, w)
        else if addr + word_of_int n > TRAPFRAME then Ok (-1, w)
        else bnd (myproc_deref w) (\<lambda>(p, w).
             Ok (sint addr, upd_proc p (\<lambda>q. q\<lparr>p_sz := p_sz q + word_of_int n\<rparr>) w)))))"

text \<open>The wait loop of \<^verbatim>\<open>sys_pause\<close>; the difference of the tick counters is 32 bits wide.\<close>

definition pause_step :: "u32 \<Rightarrow> int \<Rightarrow> world \<Rightarrow> (bool \<times> world, world) ctl res" where
  "pause_step ticks0 n w =
     (if ticks w - ticks0 < word_of_int n
      then bnd (myproc_deref w) (\<lambda>(p, w).
           bnd (killed p w) (\<lambda>(k, w).
           if k \<noteq> 0 then bnd (release Tickslock w) (\<lambda>w. Ok (Done (False, w)))
           else bnd (sleep Ch_ticks Tickslock w) (\<lambda>w. Ok (Next w))))
      else Ok (Done (True, w)))"

definition sys_pause :: "world \<Rightarrow> (int \<times> world) res" where
  "sys_pause w =
     bnd (argint 0 w) (\<lambda>(n, w).
     let n = (if n < 0 then 0 else n)
     in bnd (acquire Tickslock w) (\<lambda>w.
        let ticks0 = ticks w
        in bnd (loop_res (pause_step ticks0 n) w) (\<lambda>(go, w).
           if \<not> go then Ok (-1, w)
           else bnd (release Tickslock w) (\<lambda>w.
                bnd (myproc_deref w) (\<lambda>(p, w).
                bnd (kqueue_post (cstr ''sleep'') (p_pid (procs w p)) w) (\<lambda>w.
                Ok (0, w)))))))"

definition sys_kill :: "world \<Rightarrow> (int \<times> world) res" where
  "sys_kill w = bnd (argint 0 w) (\<lambda>(pid, w). kkill pid w)"

definition sys_uptime :: "world \<Rightarrow> (int \<times> world) res" where
  "sys_uptime w =
     bnd (acquire Tickslock w) (\<lambda>w.
     let xticks = ticks w
     in bnd (release Tickslock w) (\<lambda>w. Ok (uint xticks, w)))"

section \<open>The event queue\<close>

text \<open>
  The local \<^verbatim>\<open>name[MAXEVENTNAME]\<close> of \<^verbatim>\<open>sys_kqueue_post\<close> starts uninitialised; \<^verbatim>\<open>argstr\<close> overwrites a
  prefix, and its result is not looked at.
\<close>

definition overwrite :: "u8 list \<Rightarrow> u8 list \<Rightarrow> u8 list" where
  "overwrite bs arr = bs @ drop (length bs) arr"

definition sys_kqueue_post :: "world \<Rightarrow> (int \<times> world) res" where
  "sys_kqueue_post w =
     bnd (argint 0 w) (\<lambda>(pid, w).
     bnd (argstr 1 (nat MAXEVENTNAME) w) (\<lambda>(_, bs, w).
     bnd (kqueue_post (overwrite bs (map (junk w) [0..<nat MAXEVENTNAME])) pid w) (\<lambda>w.
     Ok (0, w))))"

definition event_bytes :: "event \<Rightarrow> u8 list" where
  "event_bytes e =
     le_bytes 4 (word_of_int (ev_pid e) :: u32) @ ev_name e @ ev_pad e @ le_bytes 8 (ev_timestamp e)"

lemma event_bytes_size: "length (ev_name e) = nat MAXEVENTNAME \<Longrightarrow> length (ev_pad e) = 4 \<Longrightarrow> length (event_bytes e) = 48"
  by (simp add: event_bytes_def MAXEVENTNAME_def)

definition sys_kqueue_wait :: "world \<Rightarrow> (int \<times> world) res" where
  "sys_kqueue_wait w =
     bnd (argaddr 0 w) (\<lambda>(evp, w).
     bnd (kqueue_wait_internal w) (\<lambda>(ev, w).
     bnd (myproc_deref w) (\<lambda>(p, w).
     bnd (copyout (p_pagetable (procs w p)) evp (event_bytes ev) w) (\<lambda>(r, w).
     if r < 0 then Ok (-1, w) else Ok (0, w)))))"

section \<open>Dispatch\<close>

text \<open>The table \<^verbatim>\<open>syscalls\<close> under the numbers of \<^verbatim>\<open>kernel/syscall.h\<close>.\<close>

definition syscalls :: "int \<Rightarrow> (world \<Rightarrow> (int \<times> world) res) option" where
  "syscalls num =
     (if num = 1 then Some sys_fork else if num = 2 then Some sys_exit
      else if num = 3 then Some sys_wait else if num = 4 then Some sys_pipe
      else if num = 5 then Some sys_read else if num = 6 then Some sys_kill
      else if num = 7 then Some sys_exec else if num = 8 then Some sys_fstat
      else if num = 9 then Some sys_chdir else if num = 10 then Some sys_dup
      else if num = 11 then Some sys_getpid else if num = 12 then Some sys_sbrk
      else if num = 13 then Some sys_pause else if num = 14 then Some sys_uptime
      else if num = 15 then Some sys_open else if num = 16 then Some sys_write
      else if num = 17 then Some sys_mknod else if num = 18 then Some sys_unlink
      else if num = 19 then Some sys_link else if num = 20 then Some sys_mkdir
      else if num = 21 then Some sys_close else if num = 22 then Some sys_kqueue_wait
      else if num = 23 then Some sys_kqueue_post else None)"

definition syscall :: "world \<Rightarrow> world res" where
  "syscall w =
     bnd (myproc_deref w) (\<lambda>(p, w).
     let tf = p_trapframe (procs w p); num = sint (ucast (tf_a7 (tframes w tf)) :: u32)
     in case syscalls num of
          Some f \<Rightarrow> bnd (f w) (\<lambda>(r, w). Ok (upd_tf (p_trapframe (procs w p)) (tf_a0_update (\<lambda>_. word_of_int r)) w))
        | None \<Rightarrow>
            bnd (printf (''%d %s: unknown sys call %d'' @ [CHR 0x0A])
                   [VWord (word_of_int (p_pid (procs w p))), VStr (Some (p_name (procs w p))),
                    VWord (word_of_int num)] w) (\<lambda>w.
            Ok (upd_tf (p_trapframe (procs w p)) (tf_a0_update (\<lambda>_. - 1)) w)))"

end
