(* ===== verification/Xv6_Trap.thy ===== *)
theory Xv6_Trap
  imports Xv6_Syscall
begin

text \<open>
  \<^verbatim>\<open>kernel/trap.c\<close> and \<^verbatim>\<open>kernel/plic.c\<close>: traps from user space and from the kernel, the clock and device
  interrupts, and the return to user space; \<^verbatim>\<open>forkret\<close> of \<^verbatim>\<open>kernel/proc.c\<close>, the first code a new process
  runs. The trampoline, which saves and restores the user registers, is assembly: a value of \<^verbatim>\<open>satp\<close> is
  what the C code hands to it.
\<close>

unbundle bit_operations_syntax

section \<open>Registers of the running hart\<close>

definition hreg :: "world \<Rightarrow> hartregs" where
  "hreg w = hregs w (hart (sync w))"

definition upd_hreg :: "(hartregs \<Rightarrow> hartregs) \<Rightarrow> world \<Rightarrow> world" where
  "upd_hreg f w = w\<lparr>hregs := (hregs w)(hart (sync w) := f (hreg w))\<rparr>"

section \<open>The interrupt controller\<close>

definition UART0_IRQ :: u32 where "UART0_IRQ = 10"
definition VIRTIO0_IRQ :: u32 where "VIRTIO0_IRQ = 1"

text \<open>Offsets from \<^verbatim>\<open>PLIC\<close>.\<close>

definition PLIC_SENABLE :: "nat \<Rightarrow> u32" where "PLIC_SENABLE h = 0x2080 + of_nat h * 0x100"
definition PLIC_SPRIORITY :: "nat \<Rightarrow> u32" where "PLIC_SPRIORITY h = 0x201000 + of_nat h * 0x2000"
definition PLIC_SCLAIM :: "nat \<Rightarrow> u32" where "PLIC_SCLAIM h = 0x201004 + of_nat h * 0x2000"

definition plic_write :: "u32 \<Rightarrow> u32 \<Rightarrow> world \<Rightarrow> world" where
  "plic_write r v w = w\<lparr>plic := io_put r v (plic w)\<rparr>"

definition plicinit :: "world \<Rightarrow> world" where
  "plicinit w = plic_write (VIRTIO0_IRQ * 4) 1 (plic_write (UART0_IRQ * 4) 1 w)"

definition plicinithart :: "world \<Rightarrow> world" where
  "plicinithart w =
     (let h = cpuid (sync w);
          w = plic_write (PLIC_SENABLE h) (push_bit 10 1 OR push_bit 1 1) w
      in plic_write (PLIC_SPRIORITY h) 0 w)"

definition plic_claim :: "world \<Rightarrow> u32 \<times> world" where
  "plic_claim w = (let (v, d) = io_get (PLIC_SCLAIM (cpuid (sync w))) (plic w) in (v, w\<lparr>plic := d\<rparr>))"

definition plic_complete :: "u32 \<Rightarrow> world \<Rightarrow> world" where
  "plic_complete irq w = plic_write (PLIC_SCLAIM (cpuid (sync w))) irq w"

section \<open>Interrupts\<close>

definition trapinit :: "world \<Rightarrow> world" where
  "trapinit w = initlock Tickslock ''time'' w"

definition trapinithart :: "world \<Rightarrow> world" where
  "trapinithart w = upd_hreg (hr_stvec_update (\<lambda>_. ld_kernelvec (ld w))) w"

definition clockintr :: "world \<Rightarrow> world res" where
  "clockintr w =
     bnd (if cpuid (sync w) = 0
          then bnd (acquire Tickslock w) (\<lambda>w.
               bnd (wakeup (Some Ch_ticks) (w\<lparr>ticks := ticks w + 1\<rparr>)) (\<lambda>w.
               release Tickslock w))
          else Ok w) (\<lambda>w.
     Ok (upd_hreg (hr_stimecmp_update (\<lambda>_. r_time w + 1000000)) w))"

definition devintr :: "world \<Rightarrow> (int \<times> world) res" where
  "devintr w =
     (let scause = hr_scause (hreg w)
      in if scause = 0x8000000000000009
         then let (irq, w) = plic_claim w
              in bnd (if irq = UART0_IRQ then uartintr w
                      else if irq = VIRTIO0_IRQ then virtio_disk_intr w
                      else if irq \<noteq> 0
                      then printf (''unexpected interrupt irq=%d'' @ [CHR 0x0A]) [VWord (ucast irq)] w
                      else Ok w) (\<lambda>w.
                 Ok (1, if irq \<noteq> 0 then plic_complete irq w else w))
         else if scause = 0x8000000000000005
         then bnd (clockintr w) (\<lambda>w. Ok (2, w))
         else Ok (0, w))"

section \<open>Returning to user space\<close>

definition prepare_return :: "world \<Rightarrow> world res" where
  "prepare_return w =
     bnd (myproc_deref w) (\<lambda>(p, w).
     let w = w\<lparr>sync := intr_off (sync w)\<rparr>;
         w = upd_hreg (hr_stvec_update (\<lambda>_. TRAMPOLINE + (ld_uservec (ld w) - ld_trampoline (ld w)))) w;
         tf = p_trapframe (procs w p);
         w = upd_tf tf (\<lambda>t. t\<lparr>tf_kernel_satp := hr_satp (hreg w), tf_kernel_sp := p_kstack (procs w p) + PGSIZE,
               tf_kernel_trap := ld_usertrap (ld w), tf_kernel_hartid := of_nat (hart (sync w))\<rparr>) w;
         w = upd_hreg (\<lambda>r. r\<lparr>hr_spp := False, hr_spie := True\<rparr>) w
     in Ok (upd_hreg (hr_sepc_update (\<lambda>_. tf_epc (tframes w tf))) w))"

text \<open>The result is the \<^verbatim>\<open>satp\<close> that \<^verbatim>\<open>userret\<close> gets.\<close>

definition forkret :: "world \<Rightarrow> (u64 \<times> world) res" where
  "forkret w =
     bnd (myproc_deref w) (\<lambda>(p, w).
     bnd (release (Proc_lock p) w) (\<lambda>w.
     bnd (if fs_first w
          then bnd (fsinit (uint ROOTDEV) w) (\<lambda>w.
               let w = w\<lparr>fs_first := False\<rparr>
               in bnd (kexec (map of_char ''/init'') [map of_char ''/init''] w) (\<lambda>(r, w).
                  let w = upd_tf (p_trapframe (procs w p)) (tf_a0_update (\<lambda>_. word_of_int r)) w
                  in if tf_a0 (tframes w (p_trapframe (procs w p))) = - 1 then Panic ''exec'' else Ok w))
          else Ok w) (\<lambda>w.
     bnd (prepare_return w) (\<lambda>w.
     Ok (MAKE_SATP (p_pagetable (procs w p)), w)))))"

section \<open>Traps\<close>

definition unexpected_trap :: "nat \<Rightarrow> world \<Rightarrow> world res" where
  "unexpected_trap p w =
     bnd (printf (''usertrap(): unexpected scause 0x%lx pid=%d'' @ [CHR 0x0A])
            [VWord (hr_scause (hreg w)), VWord (word_of_int (p_pid (procs w p)))] w) (\<lambda>w.
     bnd (printf (''            sepc=0x%lx stval=0x%lx'' @ [CHR 0x0A])
            [VWord (hr_sepc (hreg w)), VWord (hr_stval (hreg w))] w) (\<lambda>w.
     setkilled p w))"

text \<open>What \<^verbatim>\<open>usertrap\<close> does about the cause of the trap; the result is \<^verbatim>\<open>which_dev\<close>.\<close>

definition usertrap_cause :: "nat \<Rightarrow> world \<Rightarrow> (int \<times> world) res" where
  "usertrap_cause p w =
     (if hr_scause (hreg w) = 8
      then bnd (killed p w) (\<lambda>(k, w).
           if k \<noteq> 0 then kexit (-1) w
           else let w = upd_tf (p_trapframe (procs w p)) (\<lambda>t. t\<lparr>tf_epc := tf_epc t + 4\<rparr>) w;
                    w = w\<lparr>sync := intr_on (sync w)\<rparr>
                in bnd (syscall w) (\<lambda>w. Ok (0, w)))
      else bnd (devintr w) (\<lambda>(which_dev, w).
           if which_dev \<noteq> 0 then Ok (which_dev, w)
           else bnd (if hr_scause (hreg w) = 15 \<or> hr_scause (hreg w) = 13
                     then vmfault (p_pagetable (procs w p)) (hr_stval (hreg w)) w else Ok (0, w)) (\<lambda>(pa, w).
                if pa \<noteq> 0 then Ok (0, w)
                else bnd (unexpected_trap p w) (\<lambda>w. Ok (0, w)))))"

definition usertrap :: "world \<Rightarrow> (u64 \<times> world) res" where
  "usertrap w =
     (if hr_spp (hreg w) then Panic ''usertrap: not from user mode''
      else let w = upd_hreg (hr_stvec_update (\<lambda>_. ld_kernelvec (ld w))) w
           in bnd (myproc_deref w) (\<lambda>(p, w).
              let w = upd_tf (p_trapframe (procs w p)) (tf_epc_update (\<lambda>_. hr_sepc (hreg w))) w
              in bnd (usertrap_cause p w) (\<lambda>(which_dev, w).
                 bnd (killed p w) (\<lambda>(k, w).
                 bnd (if k \<noteq> 0 then kexit (-1) w else Ok w) (\<lambda>w.
                 bnd (if which_dev = 2 then yield w else Ok w) (\<lambda>w.
                 bnd (prepare_return w) (\<lambda>w.
                 Ok (MAKE_SATP (p_pagetable (procs w p)), w))))))))"

text \<open>
  \<^verbatim>\<open>kerneltrap\<close> restores \<^verbatim>\<open>sepc\<close> and \<^verbatim>\<open>sstatus\<close>, of which the model has the bits SPP, SPIE and SIE.
\<close>

definition kerneltrap :: "world \<Rightarrow> world res" where
  "kerneltrap w =
     (let r = hreg w; s_sie = intr_get (sync w)
      in if \<not> hr_spp r then Panic ''kerneltrap: not from supervisor mode''
         else if intr_get (sync w) then Panic ''kerneltrap: interrupts enabled''
         else bnd (devintr w) (\<lambda>(which_dev, w).
              if which_dev = 0
              then bnd (printf (''scause=0x%lx sepc=0x%lx stval=0x%lx'' @ [CHR 0x0A])
                     [VWord (hr_scause r), VWord (hr_sepc (hreg w)), VWord (hr_stval (hreg w))] w)
                   (\<lambda>_. Panic ''kerneltrap'')
              else bnd (if which_dev = 2
                        then bnd (myproc w) (\<lambda>(p, w). if p \<noteq> None then yield w else Ok w)
                        else Ok w) (\<lambda>w.
                   let w = upd_hreg (\<lambda>x. x\<lparr>hr_sepc := hr_sepc r, hr_spp := hr_spp r, hr_spie := hr_spie r\<rparr>) w
                   in Ok (w\<lparr>sync := (if s_sie then intr_on (sync w) else intr_off (sync w))\<rparr>))))"

end
