(* ===== verification/Xv6_Main.thy ===== *)
theory Xv6_Main
  imports Xv6_Trap
begin

text \<open>\<^verbatim>\<open>kernel/start.c\<close> and \<^verbatim>\<open>kernel/main.c\<close>: from machine mode to the scheduler.\<close>

unbundle bit_operations_syntax

definition timerinit :: "world \<Rightarrow> world" where
  "timerinit w =
     upd_hreg (\<lambda>r. r\<lparr>hr_mie := hr_mie r OR push_bit 5 1, hr_menvcfg := hr_menvcfg r OR push_bit 63 1,
       hr_mcounteren := hr_mcounteren r OR 2, hr_stimecmp := r_time w + 1000000\<rparr>) w"

text \<open>\<^verbatim>\<open>start\<close>; the final \<^verbatim>\<open>mret\<close> continues at \<^verbatim>\<open>main\<close> in supervisor mode.\<close>

definition start :: "world \<Rightarrow> world" where
  "start w =
     (let w = upd_hreg (\<lambda>r. r\<lparr>hr_mstatus := (hr_mstatus r AND NOT (push_bit 11 3)) OR push_bit 11 1,
                hr_mepc := ld_main (ld w), hr_satp := 0, hr_medeleg := 0xffff, hr_mideleg := 0xffff,
                hr_sie := hr_sie r OR push_bit 9 1 OR push_bit 5 1,
                hr_pmpaddr0 := 0x3fffffffffffff, hr_pmpcfg0 := 0xf\<rparr>) w;
          w = timerinit w
      in w\<lparr>sync := (sync w)\<lparr>hart := unat (hr_mhartid (hreg w))\<rparr>\<rparr>)"

text \<open>What hart 0 does before the scheduler, and what the others do.\<close>

definition main0 :: "world \<Rightarrow> world res" where
  "main0 w =
     (let w = printfinit (consoleinit w)
      in bnd (printf [CHR 0x0A] [] w) (\<lambda>w.
         bnd (printf (''xv6 kernel is booting'' @ [CHR 0x0A]) [] w) (\<lambda>w.
         bnd (printf [CHR 0x0A] [] w) (\<lambda>w.
         bnd (kinit w) (\<lambda>w.
         bnd (kvminit w) (\<lambda>w.
         let w = fileinit (iinit (binit (plicinithart (plicinit (trapinithart (trapinit (procinit
                   (kvminithart w))))))))
         in bnd (virtio_disk_init w) (\<lambda>w.
            bnd (userinit w) (\<lambda>w.
            Ok (w\<lparr>started := True\<rparr>)))))))))"

definition main_other :: "world \<Rightarrow> world res" where
  "main_other w =
     bnd (while_res (\<lambda>w. \<not> started w) others_run w) (\<lambda>w.
     bnd (printf (''hart %d starting'' @ [CHR 0x0A]) [VWord (of_nat (cpuid (sync w)))] w) (\<lambda>w.
     Ok (plicinithart (trapinithart (kvminithart w)))))"

definition main :: "world \<Rightarrow> world res" where
  "main w = bnd (if cpuid (sync w) = 0 then main0 w else main_other w) scheduler"

end
