(* ===== verification/Xv6_Fslayout.thy ===== *)
theory Xv6_Fslayout
  imports Xv6_Fs
begin

text \<open>
  The data of the file system on disk: on-disk inodes, the free bitmap, directory entries and path names.
\<close>

unbundle bit_operations_syntax

declare add_2_eq_Suc [simp del] add_2_eq_Suc' [simp del]

section \<open>On-disk inodes\<close>

text \<open>The fields of an inode that are kept on disk.\<close>

definition on_disk :: "inode \<Rightarrow> u16 \<times> u16 \<times> u16 \<times> u16 \<times> u32 \<times> u32 list" where
  "on_disk ip = (i_type ip, i_major ip, i_minor ip, i_nlink ip, i_size ip, map (i_addrs ip) [0..<NDIRECT + 1])"

lemma blk_array_frame:
  assumes "off + k \<le> base \<or> base + 4 * n \<le> off"
  shows "blk_get off k (fold (\<lambda>i. blk_st32 (base + 4 * i) (f i)) [0..<n] d) = blk_get off k d"
  using assms
proof (induction n)
  case (Suc n)
  have "blk_get off k (blk_st32 (base + 4 * n) v e) = blk_get off k e" for v e
    unfolding blk_st32_def by (rule blk_get_put_other) (use Suc.prems in auto)
  with Suc show ?case by auto
qed simp

lemma blk_get_st:
  "off + k \<le> o1 \<or> o1 + 2 \<le> off \<Longrightarrow> blk_get off k (blk_st16 o1 u d) = blk_get off k d"
  "off + k \<le> o1 \<or> o1 + 4 \<le> off \<Longrightarrow> blk_get off k (blk_st32 o1 v d) = blk_get off k d"
  by (simp_all add: blk_st16_def blk_st32_def blk_get_put_other)

lemma dinode_frame:
  assumes "off + k \<le> dip_off (i_inum ip) \<or> dip_off (i_inum ip) + 64 \<le> off"
  shows "blk_get off k (dinode_of ip d) = blk_get off k d"
  using assms unfolding dinode_of_def Let_def
  by (subst blk_array_frame) (auto simp: NDIRECT_def blk_get_st)

lemma dinode_fields:
  fixes ip :: inode
  defines "o0 \<equiv> dip_off (i_inum ip)"
  shows "blk_ld16 o0 (dinode_of ip d) = i_type ip" "blk_ld16 (o0 + 2) (dinode_of ip d) = i_major ip"
    "blk_ld16 (o0 + 4) (dinode_of ip d) = i_minor ip" "blk_ld16 (o0 + 6) (dinode_of ip d) = i_nlink ip"
    "blk_ld32 (o0 + 8) (dinode_of ip d) = i_size ip"
    "i < NDIRECT + 1 \<Longrightarrow> blk_ld32 (o0 + 12 + 4 * i) (dinode_of ip d) = i_addrs ip i"
proof -
  show "i < NDIRECT + 1 \<Longrightarrow> blk_ld32 (o0 + 12 + 4 * i) (dinode_of ip d) = i_addrs ip i"
    unfolding dinode_of_def Let_def o0_def by (rule blk_ld32_array)
  let ?h = "blk_st32 (o0 + 8) (i_size ip) (blk_st16 (o0 + 6) (i_nlink ip) (blk_st16 (o0 + 4) (i_minor ip)
      (blk_st16 (o0 + 2) (i_major ip) (blk_st16 o0 (i_type ip) d))))"
  have g: "blk_get off k (dinode_of ip d) = blk_get off k ?h" if "off + k \<le> o0 + 12" for off k
    unfolding dinode_of_def Let_def o0_def by (rule blk_array_frame) (use that in \<open>simp add: o0_def\<close>)
  have l: "blk_ld16 off (dinode_of ip d) = blk_ld16 off ?h" if "off + 2 \<le> o0 + 12" for off
    by (simp add: blk_ld16_def g that)
  have l': "blk_ld32 off (dinode_of ip d) = blk_ld32 off ?h" if "off + 4 \<le> o0 + 12" for off
    by (simp add: blk_ld32_def g that)
  show "blk_ld16 o0 (dinode_of ip d) = i_type ip" "blk_ld16 (o0 + 2) (dinode_of ip d) = i_major ip"
    "blk_ld16 (o0 + 4) (dinode_of ip d) = i_minor ip" "blk_ld16 (o0 + 6) (dinode_of ip d) = i_nlink ip"
    "blk_ld32 (o0 + 8) (dinode_of ip d) = i_size ip"
    by (simp_all add: l l' blk_ld_other)
qed

lemma dinode_others:
  assumes "inum mod IPB \<noteq> i_inum ip mod IPB" "off + k \<le> 64"
  shows "blk_get (dip_off inum + off) k (dinode_of ip d) = blk_get (dip_off inum + off) k d"
proof (rule dinode_frame)
  have "unat (inum mod IPB) \<noteq> unat (i_inum ip mod IPB)" using assms(1) by (simp add: word_unat_eq_iff)
  with assms(2) show "dip_off inum + off + k \<le> dip_off (i_inum ip) \<or> dip_off (i_inum ip) + 64 \<le> dip_off inum + off"
    by (auto simp: dip_off_def linorder_neq_iff)
qed

text \<open>
  C23: an inode written by \<^verbatim>\<open>iupdate\<close> is read back by \<^verbatim>\<open>ilock\<close>: the type, device numbers, link count, size and
  all thirteen block addresses survive in the inode's block, and every other inode of the same
  block reads as before.
\<close>

theorem dinode_roundtrip:
  "(i_inum ip' = i_inum ip \<longrightarrow> on_disk (of_dinode (dinode_of ip d) ip') = on_disk ip)
   \<and> (i_inum ip' mod IPB \<noteq> i_inum ip mod IPB \<longrightarrow> of_dinode (dinode_of ip d) ip' = of_dinode d ip')"
proof (intro conjI impI)
  assume "i_inum ip' = i_inum ip"
  then show "on_disk (of_dinode (dinode_of ip d) ip') = on_disk ip"
    by (simp add: on_disk_def of_dinode_def Let_def dinode_fields del: upt_Suc cong: map_cong)
next
  assume ne: "i_inum ip' mod IPB \<noteq> i_inum ip mod IPB"
  let ?o = "dip_off (i_inum ip')"
  have f16: "blk_ld16 (?o + k) (dinode_of ip d) = blk_ld16 (?o + k) d" if "k + 2 \<le> 64" for k
    using dinode_others [OF ne that] by (simp add: blk_ld16_def)
  have f32: "blk_ld32 (?o + k) (dinode_of ip d) = blk_ld32 (?o + k) d" if "k + 4 \<le> 64" for k
    using dinode_others [OF ne that] by (simp add: blk_ld32_def)
  have "blk_ld32 (?o + 12 + 4 * i) (dinode_of ip d) = blk_ld32 (?o + 12 + 4 * i) d" if "i < NDIRECT + 1" for i
    using f32 [of "12 + 4 * i"] that by (simp add: NDIRECT_def add.assoc)
  moreover have "blk_ld16 ?o (dinode_of ip d) = blk_ld16 ?o d" using f16 [of 0] by simp
  ultimately show "of_dinode (dinode_of ip d) ip' = of_dinode d ip'"
    using f16 f32 by (simp add: of_dinode_def Let_def fun_eq_iff)
qed

theorem dinode_roundtrip_witness:
  "i_addrs (of_dinode (dinode_of ((inodes zero_fsys 0)\<lparr>i_inum := 20, i_addrs := (\<lambda>i. of_nat i + 100)\<rparr>) (\<lambda>_. 9))
      ((inodes zero_fsys 0)\<lparr>i_inum := 20\<rparr>)) 12 = 112"
proof -
  let ?ip = "(inodes zero_fsys 0)\<lparr>i_inum := 20, i_addrs := (\<lambda>i. of_nat i + 100)\<rparr>"
  let ?q = "of_dinode (dinode_of ?ip (\<lambda>_. 9)) ((inodes zero_fsys 0)\<lparr>i_inum := 20\<rparr>)"
  have "on_disk ?q = on_disk ?ip"
    using dinode_roundtrip [of "(inodes zero_fsys 0)\<lparr>i_inum := 20\<rparr>" ?ip "\<lambda>_. 9"] by simp
  then have "map (i_addrs ?q) [0..<NDIRECT + 1] = map (i_addrs ?ip) [0..<NDIRECT + 1]"
    by (simp only: on_disk_def prod.inject)
  then have "map (i_addrs ?q) [0..<NDIRECT + 1] ! 12 = map (i_addrs ?ip) [0..<NDIRECT + 1] ! 12" by (rule arg_cong)
  then have "i_addrs ?q 12 = i_addrs ?ip 12" by (simp add: NDIRECT_def del: upt_Suc)
  then show ?thesis by simp
qed


section \<open>The free bitmap\<close>

lemma bit_set_iff: "bit_set d bi \<longleftrightarrow> bit (d (bi div 8)) (bi mod 8)"
  by (simp add: bit_set_def and_exp_eq_0_iff_not_bit)

lemma same_bit: "bi div 8 = bj div 8 \<Longrightarrow> bi mod 8 = bj mod 8 \<longleftrightarrow> bi = (bj :: nat)"
  by (metis div_mult_mod_eq)

lemma bit_set_set: "bit_set (set_bit_of bi d) bj \<longleftrightarrow> bj = bi \<or> bit_set d bj"
proof (cases "bj div 8 = bi div 8")
  case True
  have "bit (2 ^ (bi mod 8) :: u8) (bj mod 8) \<longleftrightarrow> bj = bi"
    using same_bit [OF True] by (auto simp: bit_exp_iff)
  with True show ?thesis by (auto simp: bit_set_iff set_bit_of_def bit_or_iff)
next
  case False
  then show ?thesis by (auto simp: bit_set_iff set_bit_of_def)
qed

lemma bit_set_clear: "bit_set (clear_bit_of bi d) bj \<longleftrightarrow> bj \<noteq> bi \<and> bit_set d bj"
proof (cases "bj div 8 = bi div 8")
  case True
  have "bit (2 ^ (bi mod 8) :: u8) (bj mod 8) \<longleftrightarrow> bj = bi"
    using same_bit [OF True] by (auto simp: bit_exp_iff)
  with True show ?thesis by (auto simp: bit_set_iff clear_bit_of_def bit_and_iff bit_not_iff)
next
  case False
  then show ?thesis by (auto simp: bit_set_iff clear_bit_of_def)
qed

lemma in_takeWhile_upt: "j \<in> set (takeWhile P [0..<n]) \<longleftrightarrow> j < n \<and> (\<forall>i\<le>j. P i)"
proof (induction n)
  case (Suc n)
  show ?case
  proof (cases "\<forall>i<n. P i")
    case True
    then have "takeWhile P [0..<n] = [0..<n]" by (simp add: takeWhile_eq_all_conv)
    with True show ?thesis by (auto simp: less_Suc_eq_le takeWhile_append le_less)
  next
    case False
    then have "takeWhile P [0..<Suc n] = takeWhile P [0..<n]" by (auto simp: takeWhile_append)
    with False Suc.IH show ?thesis by (auto simp: less_Suc_eq)
  qed
qed simp

lemma find_upt_least:
  assumes "List.find P (takeWhile Q [0..<n]) = Some i"
  shows "i < n" "P i" "\<forall>j\<le>i. Q j" "\<forall>j<i. \<not> P j"
proof -
  have i: "i \<in> set (takeWhile Q [0..<n])" and "P i" using assms by (auto simp: find_Some_iff)
  then show "i < n" "\<forall>j\<le>i. Q j" "P i" by (simp_all add: in_takeWhile_upt)
  from assms obtain k where k: "k < length (takeWhile Q [0..<n])" "i = takeWhile Q [0..<n] ! k"
    "\<forall>j<k. \<not> P (takeWhile Q [0..<n] ! j)" by (auto simp: find_Some_iff)
  have nth: "takeWhile Q [0..<n] ! j = j" if "j < length (takeWhile Q [0..<n])" for j
  proof -
    have "j < n" using that length_takeWhile_le [of Q "[0..<n]"] by simp
    then show ?thesis using takeWhile_nth [OF that] by simp
  qed
  show "\<forall>j<i. \<not> P j" using k nth by auto
qed

lemma u32_add_less:
  assumes "unat (b :: u32) + j < 2 ^ 32"
  shows "b + of_nat j < n \<longleftrightarrow> unat b + j < unat n"
  using assms by (simp add: word_less_nat_alt unat_word_ariths unat_of_nat)

text \<open>
  C24: the bitmap search of \<^verbatim>\<open>balloc\<close> gives the first block that is free and inside the file system, or
  none only if every such block of this bitmap block is taken; taking it marks exactly that block,
  and \<^verbatim>\<open>bfree\<close> undoes exactly what \<^verbatim>\<open>balloc\<close> did to the bitmap.
\<close>

theorem balloc_first_free:
  assumes "unat b + unat BPB \<le> 2 ^ 32"
  shows "(case balloc_bit b n d of
      Some bi \<Rightarrow> bi < unat BPB \<and> unat b + bi < unat n \<and> \<not> bit_set d bi \<and> (\<forall>j<bi. bit_set d j)
        \<and> (\<forall>j. bit_set (set_bit_of bi d) j \<longleftrightarrow> j = bi \<or> bit_set d j)
        \<and> (\<forall>j. bit_set (clear_bit_of bi (set_bit_of bi d)) j \<longleftrightarrow> bit_set d j)
    | None \<Rightarrow> \<forall>j<unat BPB. unat b + j < unat n \<longrightarrow> bit_set d j)"
proof (cases "balloc_bit b n d")
  case None
  have "bit_set d j" if "j < unat BPB" "unat b + j < unat n" for j
  proof -
    have "b + of_nat i < n" if "i \<le> j" for i
      using that \<open>j < unat BPB\<close> \<open>unat b + j < unat n\<close> assms by (subst u32_add_less) auto
    then have "j \<in> set (takeWhile (\<lambda>bi. b + of_nat bi < n) [0..<unat BPB])"
      using that(1) by (simp add: in_takeWhile_upt)
    with None show ?thesis by (auto simp: balloc_bit_def find_None_iff)
  qed
  with None show ?thesis by simp
next
  case (Some bi)
  note f = find_upt_least [OF Some [unfolded balloc_bit_def]]
  have "unat b + bi < unat n" using f(3) f(1) assms u32_add_less [of b bi n] by auto
  with Some f(1,2,4) show ?thesis by (auto simp: bit_set_set bit_set_clear)
qed

theorem balloc_first_free_witness:
  "balloc_bit 0 100 ((\<lambda>_. 0)(0 := 0xff, 1 := 0x03)) = Some 10"
proof -
  let ?d = "(\<lambda>_. 0)(0 := 0xff, 1 := 0x03) :: block"
  have set: "bit_set ?d j" if "j < 10" for j
  proof -
    have "j \<in> set [0..<10]" using that by simp
    moreover have "\<forall>j\<in>set [0..<10]. bit_set ?d j" by code_simp
    ultimately show ?thesis by blast
  qed
  have free: "\<not> bit_set ?d 10" by code_simp
  have "case balloc_bit 0 100 ?d of
      Some bi \<Rightarrow> bi < unat BPB \<and> unat (0 :: u32) + bi < unat (100 :: u32) \<and> \<not> bit_set ?d bi \<and> (\<forall>j<bi. bit_set ?d j)
        \<and> (\<forall>j. bit_set (set_bit_of bi ?d) j \<longleftrightarrow> j = bi \<or> bit_set ?d j)
        \<and> (\<forall>j. bit_set (clear_bit_of bi (set_bit_of bi ?d)) j \<longleftrightarrow> bit_set ?d j)
    | None \<Rightarrow> \<forall>j<unat BPB. unat (0 :: u32) + j < unat (100 :: u32) \<longrightarrow> bit_set ?d j"
    by (rule balloc_first_free) (simp add: BPB_def)
  then show ?thesis
    using set free by (auto simp: BPB_def split: option.splits) (metis linorder_neqE_nat)
qed

section \<open>Names\<close>

lemma strncmp_arr_zero:
  "strncmp_arr n k p q = 0 \<longleftrightarrow> take n (cstring (drop k p)) = take n (cstring (drop k q))"
proof (induction n arbitrary: k)
  case (Suc n)
  have c: "cstring (drop k xs) = (if arr_get xs k = 0 then [] else arr_get xs k # cstring (drop (Suc k) xs))" for xs
    by (cases "k < length xs") (auto simp: cstring_def arr_get_def Cons_nth_drop_Suc [symmetric])
  show ?case using Suc.IH [of "Suc k"] by (auto simp: c [of p] c [of q] uint_0_iff simp flip: word_uint_eq_iff)
qed simp

text \<open>The C string in a name field of \<open>DIRSIZ\<close> bytes, which need not end in NUL.\<close>

definition name_of :: "u8 list \<Rightarrow> u8 list" where
  "name_of s = take DIRSIZ (cstring s)"

lemma namecmp_zero: "namecmp s t = 0 \<longleftrightarrow> name_of s = name_of t"
  by (simp add: namecmp_def strncmp_arr_zero name_of_def)

lemma cstring_nonzero: "x \<in> set (cstring s) \<Longrightarrow> x \<noteq> 0"
  by (auto simp: cstring_def dest: set_takeWhileD)

lemma cstring_all: "\<forall>x\<in>set s. x \<noteq> 0 \<Longrightarrow> cstring s = s"
  by (simp add: cstring_def takeWhile_eq_all_conv)

lemma cstring_padded: "\<forall>x\<in>set s. x \<noteq> 0 \<Longrightarrow> cstring (s @ replicate k 0) = s"
  by (cases k) (simp_all add: cstring_all cstring_append_NUL)

lemma name_of_strncpy: "name_of (strncpy_arr t DIRSIZ) = name_of t"
proof -
  have nz: "\<forall>x\<in>set (take DIRSIZ (cstring t)). x \<noteq> 0" using cstring_nonzero in_set_takeD by fast
  show ?thesis by (simp add: name_of_def strncpy_arr_def Let_def cstring_padded [OF nz])
qed

lemma length_strncpy_arr [simp]: "length (strncpy_arr t n) = n"
  by (simp add: strncpy_arr_def Let_def)

text \<open>
  C25: what \<^verbatim>\<open>dirlink\<close> stores, \<^verbatim>\<open>dirlookup\<close> finds: the sixteen bytes of a directory entry read back as the entry
  that was written, with the inode number and a name that compares equal to the name it was made
  from; and two names compare equal exactly if they agree up to \<open>DIRSIZ\<close> bytes or their first NUL.
\<close>

theorem dirent_roundtrip:
  "(let de = dirent_of (dirent_bytes \<lparr>de_inum = inum, de_name = strncpy_arr name DIRSIZ\<rparr>)
    in de_inum de = inum \<and> (\<forall>s. namecmp s (de_name de) = 0 \<longleftrightarrow> take DIRSIZ (cstring s) = take DIRSIZ (cstring name)))
   \<and> length (dirent_bytes \<lparr>de_inum = inum, de_name = strncpy_arr name DIRSIZ\<rparr>) = 16"
proof -
  have l: "length (le_bytes 2 inum) = 2" by simp
  have "dirent_of (dirent_bytes \<lparr>de_inum = inum, de_name = strncpy_arr name DIRSIZ\<rparr>) =
      \<lparr>de_inum = inum, de_name = strncpy_arr name DIRSIZ\<rparr>"
    by (simp add: dirent_of_def dirent_bytes_def l of_le_le_bytes_all)
  then show ?thesis
    using name_of_strncpy [of name] by (simp add: namecmp_zero name_of_def dirent_bytes_def l) (simp add: DIRSIZ_def)
qed

section \<open>Path names\<close>

text \<open>The elements of a path: the pieces between slashes that are not empty.\<close>

definition elements :: "u8 list \<Rightarrow> u8 list list" where
  "elements path = filter (\<lambda>e. e \<noteq> []) (split_on slash path)"

lemma split_on_dropWhile: "filter (\<lambda>e. e \<noteq> []) (split_on c (dropWhile (\<lambda>x. x = c) xs)) = filter (\<lambda>e. e \<noteq> []) (split_on c xs)"
  by (induction xs) auto

lemma elements_step:
  assumes "path \<noteq> []" "hd path \<noteq> slash"
  shows "elements path = takeWhile (\<lambda>x. x \<noteq> slash) path
     # elements (dropWhile (\<lambda>c. c = slash) (dropWhile (\<lambda>c. c \<noteq> slash) path))"
proof -
  have ne: "takeWhile (\<lambda>x. x \<noteq> slash) path \<noteq> []" using assms by (cases path) auto
  show ?thesis
  proof (cases "dropWhile (\<lambda>x. x \<noteq> slash) path")
    case Nil
    have "split_on slash path = [takeWhile (\<lambda>x. x \<noteq> slash) path]" using split_on_first [of slash path] unfolding Nil by simp
    with ne show ?thesis unfolding Nil by (simp add: elements_def)
  next
    case (Cons x ys)
    then have x: "x = slash" using hd_dropWhile [of "\<lambda>x. x \<noteq> slash" path] by simp
    have s: "split_on slash path = takeWhile (\<lambda>x. x \<noteq> slash) path # split_on slash ys"
      using split_on_first [of slash path] unfolding Cons by simp
    show ?thesis unfolding elements_def s Cons x using ne by (simp add: split_on_dropWhile)
  qed
qed

lemma elements_dropWhile: "elements (dropWhile (\<lambda>c. c = slash) path) = elements path"
  by (simp add: elements_def split_on_dropWhile)

lemma elements_nil [simp]: "elements [] = []"
  by (simp add: elements_def)

text \<open>The loop of \<open>namex\<close>, as far as the path is concerned: the names \<open>skipelem\<close> yields one after the other.\<close>

lemma skipelem_shorter: "skipelem path name = (Some rest, name') \<Longrightarrow> length rest < length path"
proof -
  assume h: "skipelem path name = (Some rest, name')"
  let ?p = "dropWhile (\<lambda>c. c = slash) path"
  from h have ne: "?p \<noteq> []" and r: "rest = dropWhile (\<lambda>c. c = slash) (dropWhile (\<lambda>c. c \<noteq> slash) ?p)"
    by (auto simp: skipelem_def Let_def split: if_splits)
  have "hd ?p \<noteq> slash" using hd_dropWhile [OF ne] by simp
  with ne have "length (dropWhile (\<lambda>c. c \<noteq> slash) ?p) < length ?p"
    by (cases ?p) (auto simp: le_imp_less_Suc length_dropWhile_le)
  then show "length rest < length path"
    unfolding r using length_dropWhile_le [of "\<lambda>c. c = slash" "dropWhile (\<lambda>c. c \<noteq> slash) ?p"] length_dropWhile_le [of "\<lambda>c. c = slash" path]
    by linarith
qed

function path_names :: "u8 list \<Rightarrow> u8 list \<Rightarrow> u8 list list" where
  "path_names path name = (case skipelem path name of
      (None, _) \<Rightarrow> []
    | (Some rest, name') \<Rightarrow> name_of name' # path_names rest name')"
  by auto
termination
  by (relation "measure (\<lambda>(path, _). length path)") (auto dest: skipelem_shorter [OF sym])

declare path_names.simps [simp del]

text \<open>
  C26: \<^verbatim>\<open>skipelem\<close> takes a path apart correctly: the loop of \<^verbatim>\<open>namex\<close> over a path ends, and the names it looks
  up are, in order, the non-empty pieces between slashes, each cut to \<open>DIRSIZ\<close> bytes, however many
  slashes lead, trail or repeat, and whatever the name buffer held before.
\<close>

theorem skipelem_elements:
  assumes "0 \<notin> set path"
  shows "path_names path name = map (take DIRSIZ) (elements path)"
  using assms
proof (induction path arbitrary: name rule: length_induct)
  case (1 path)
  let ?p = "dropWhile (\<lambda>c. c = slash) path"
  show ?case
  proof (cases "?p = []")
    case True
    then have "skipelem path name = (None, name)" by (simp add: skipelem_def)
    moreover have "elements path = []" using elements_dropWhile [of path] unfolding True by simp
    ultimately show ?thesis by (subst path_names.simps) simp
  next
    case False
    let ?s = "takeWhile (\<lambda>c. c \<noteq> slash) ?p" and ?r = "dropWhile (\<lambda>c. c = slash) (dropWhile (\<lambda>c. c \<noteq> slash) ?p)"
    obtain name' where sk: "skipelem path name = (Some ?r, name')"
      and n: "name' = (if length ?s \<ge> DIRSIZ then take DIRSIZ ?s else ?s @ [0] @ drop (length ?s + 1) name)"
      using False by (simp add: skipelem_def Let_def)
    have sub: "set ?s \<subseteq> set path" "set ?r \<subseteq> set path"
      by (blast dest: set_dropWhileD set_takeWhileD)+
    then have nz: "\<forall>x\<in>set ?s. x \<noteq> 0" "0 \<notin> set ?r" using "1.prems" by auto
    have "name_of name' = take DIRSIZ ?s"
    proof (cases "length ?s \<ge> DIRSIZ")
      case True
      have "cstring (take DIRSIZ ?s) = take DIRSIZ ?s"
        by (rule cstring_all) (use nz(1) in_set_takeD in fast)
      with True show ?thesis by (simp add: n name_of_def)
    next
      case False
      then show ?thesis using cstring_append_NUL [OF nz(1)] by (simp add: n name_of_def)
    qed
    moreover have "path_names ?r name' = map (take DIRSIZ) (elements ?r)"
      using "1.IH" skipelem_shorter [OF sk] nz(2) by blast
    moreover have "hd ?p \<noteq> slash" using hd_dropWhile [OF False] by simp
    then have "elements path = ?s # elements ?r"
      using elements_step [OF False] unfolding elements_dropWhile by simp
    ultimately show ?thesis by (subst path_names.simps) (simp add: sk)
  qed
qed

theorem skipelem_elements_witness:
  "path_names [47, 47, 97, 47, 98, 99, 47, 47] (replicate 14 0) = [[97], [98, 99]]"
  using skipelem_elements [of "[47, 47, 97, 47, 98, 99, 47, 47]" "replicate 14 0"]
  by (simp add: elements_def slash_def DIRSIZ_def)

end
