(* ===== verification/Xv6_User.thy ===== *)
theory Xv6_User
  imports Xv6_Syscall
begin

text \<open>
  User programs: the system call interface of \<^verbatim>\<open>user/user.h\<close>, the library \<^verbatim>\<open>user/ulib.c\<close> and \<^verbatim>\<open>user/printf.c\<close>.
  A program runs on an arbitrary kernel state \<open>'k\<close> with an arbitrary implementation of the system
  calls, \<open>'k sys\<close>: the stubs are generated at build time. A string is the list of its bytes before the
  NUL; the names of functions that exist in the kernel too get the suffix \<open>_u\<close>.
\<close>

section \<open>Running a program\<close>

text \<open>A call returns, or the process has exited, or it has been replaced by another program.\<close>

datatype 'a uval = Val 'a | Exited int | Replaced "u8 list" "u8 list list"

type_synonym ('a, 'k) user = "'k \<Rightarrow> ('a uval \<times> 'k) res"

definition uret :: "'a \<Rightarrow> ('a, 'k) user" where
  "uret a k = Ok (Val a, k)"

definition uexit :: "int \<Rightarrow> ('a, 'k) user" where
  "uexit c k = Ok (Exited c, k)"

fun ubind :: "('a uval \<times> 'k) \<Rightarrow> ('a \<Rightarrow> ('b, 'k) user) \<Rightarrow> ('b uval \<times> 'k) res" where
  "ubind (Val a, k) f = f a k"
| "ubind (Exited c, k) f = Ok (Exited c, k)"
| "ubind (Replaced p a, k) f = Ok (Replaced p a, k)"

definition ubnd :: "('a, 'k) user \<Rightarrow> ('a \<Rightarrow> ('b, 'k) user) \<Rightarrow> ('b, 'k) user" where
  "ubnd m f k = bnd (m k) (\<lambda>r. ubind r f)"

fun uctl :: "('r, 's) ctl uval \<times> 'k \<Rightarrow> ('r uval \<times> 'k, 's \<times> 'k) ctl" where
  "uctl (Val (Done r), k) = Done (Val r, k)"
| "uctl (Val (Next s), k) = Next (s, k)"
| "uctl (Exited c, k) = Done (Exited c, k)"
| "uctl (Replaced p a, k) = Done (Replaced p a, k)"

definition uloop :: "('s \<Rightarrow> (('r, 's) ctl, 'k) user) \<Rightarrow> 's \<Rightarrow> ('r, 'k) user" where
  "uloop b s k = loop_res (\<lambda>(s, k). bnd (b s k) (\<lambda>r. Ok (uctl r))) (s, k)"

fun ueach :: "('i \<Rightarrow> (unit, 'k) user) \<Rightarrow> 'i list \<Rightarrow> (unit, 'k) user" where
  "ueach f [] = uret ()"
| "ueach f (i # is) = ubnd (f i) (\<lambda>_. ueach f is)"

lemma ubnd_uret [simp]: "ubnd (uret a) f = f a"
  by (rule ext) (simp add: ubnd_def uret_def)

lemma ubnd_uexit [simp]: "ubnd (uexit c) f = uexit c"
  by (rule ext) (simp add: ubnd_def uexit_def)

lemma ubnd_assoc [simp]: "ubnd (ubnd m f) g = ubnd m (\<lambda>x. ubnd (f x) g)"
proof (rule ext)
  fix k
  have "bnd (ubind r f) (\<lambda>r. ubind r g) = ubind r (\<lambda>x. ubnd (f x) g)" for r
    by (cases "(r, f)" rule: ubind.cases) (auto simp: ubnd_def)
  then show "ubnd (ubnd m f) g k = ubnd m (\<lambda>x. ubnd (f x) g) k" by (simp add: ubnd_def)
qed

lemma uloop_unfold:
  "uloop b s = ubnd (b s) (\<lambda>c. case c of Done r \<Rightarrow> uret r | Next s \<Rightarrow> uloop b s)"
proof (rule ext)
  fix k
  have "(case uctl r of Done x \<Rightarrow> Ok x | Next y \<Rightarrow> loop_res (\<lambda>(s, k). bnd (b s k) (\<lambda>r. Ok (uctl r))) y) =
      ubind r (\<lambda>c. case c of Done r \<Rightarrow> uret r | Next s \<Rightarrow> uloop b s)" for r
    by (cases r rule: uctl.cases) (auto simp: uret_def uloop_def)
  then show "uloop b s k = ubnd (b s) (\<lambda>c. case c of Done r \<Rightarrow> uret r | Next s \<Rightarrow> uloop b s) k"
    unfolding uloop_def ubnd_def by (subst loop_res_unfold) simp
qed

text \<open>The first \<open>n\<close> rounds of a loop: its result when it has ended in them, else the state for the next round.\<close>

primrec rounds :: "('s \<Rightarrow> (('r, 's) ctl, 'k) user) \<Rightarrow> nat \<Rightarrow> 's \<Rightarrow> (('r, 's) ctl, 'k) user" where
  "rounds b 0 s = uret (Next s)"
| "rounds b (Suc n) s = ubnd (b s) (\<lambda>c. case c of Done r \<Rightarrow> uret (Done r) | Next s \<Rightarrow> rounds b n s)"

lemma uloop_rounds: "uloop b s = ubnd (rounds b n s) (\<lambda>c. case c of Done r \<Rightarrow> uret r | Next s \<Rightarrow> uloop b s)"
proof (induction n arbitrary: s)
  case (Suc n)
  have "ubnd (case c of Done r \<Rightarrow> uret (Done r) | Next s \<Rightarrow> rounds b n s) (\<lambda>c. case c of Done r \<Rightarrow> uret r | Next s \<Rightarrow> uloop b s) =
      (case c of Done r \<Rightarrow> uret r | Next s \<Rightarrow> uloop b s)" for c
    using Suc by (cases c) simp_all
  then show ?case unfolding rounds.simps ubnd_assoc by (simp only:) (rule uloop_unfold)
qed simp

lemma ueach_append: "ueach f (xs @ ys) = ubnd (ueach f xs) (\<lambda>_. ueach f ys)"
  by (induction xs) simp_all

section \<open>System calls\<close>

text \<open>
  The calls of \<^verbatim>\<open>user.h\<close>. A buffer or variable that is filled in is part of the result, \<^verbatim>\<open>wait\<close> gives the process and
  its status.
\<close>

record 'k sys =
  s_fork :: "(int, 'k) user"
  s_wait :: "(int \<times> int, 'k) user"
  s_pipe :: "(int \<times> int \<times> int, 'k) user"
  s_write :: "int \<Rightarrow> u8 list \<Rightarrow> (int, 'k) user"
  s_read :: "int \<Rightarrow> int \<Rightarrow> (int \<times> u8 list, 'k) user"
  s_close :: "int \<Rightarrow> (int, 'k) user"
  s_kill :: "int \<Rightarrow> (int, 'k) user"
  s_exec :: "u8 list \<Rightarrow> u8 list list \<Rightarrow> (int, 'k) user"
  s_open :: "u8 list \<Rightarrow> u32 \<Rightarrow> (int, 'k) user"
  s_mknod :: "u8 list \<Rightarrow> u16 \<Rightarrow> u16 \<Rightarrow> (int, 'k) user"
  s_unlink :: "u8 list \<Rightarrow> (int, 'k) user"
  s_fstat :: "int \<Rightarrow> (int \<times> stat, 'k) user"
  s_link :: "u8 list \<Rightarrow> u8 list \<Rightarrow> (int, 'k) user"
  s_mkdir :: "u8 list \<Rightarrow> (int, 'k) user"
  s_chdir :: "u8 list \<Rightarrow> (int, 'k) user"
  s_dup :: "int \<Rightarrow> (int, 'k) user"
  s_getpid :: "(int, 'k) user"
  s_sbrk :: "int \<Rightarrow> int \<Rightarrow> (u64, 'k) user"
  s_pause :: "int \<Rightarrow> (int, 'k) user"
  s_uptime :: "(int, 'k) user"
  s_kqueue_wait :: "(int \<times> event, 'k) user"
  s_kqueue_post :: "int \<Rightarrow> u8 list \<Rightarrow> (int, 'k) user"

section \<open>\<^verbatim>\<open>ulib.c\<close>\<close>

definition start_u :: "(u8 list list \<Rightarrow> (int, 'k) user) \<Rightarrow> u8 list list \<Rightarrow> (unit, 'k) user" where
  "start_u main argv = ubnd (main argv) uexit"

text \<open>The routines on memory. \<^verbatim>\<open>strcpy\<close>, \<^verbatim>\<open>strcmp\<close> and \<^verbatim>\<open>strlen\<close> do not return where no NUL stops them.\<close>

definition strcpy_step :: "u64 \<times> u64 \<times> memory \<Rightarrow> (memory, u64 \<times> u64 \<times> memory) ctl res" where
  "strcpy_step = (\<lambda>(s, t, m).
     let c = m t; m = m(s := c) in Ok (if c \<noteq> 0 then Next (s + 1, t + 1, m) else Done m))"

definition strcpy_u :: "u64 \<Rightarrow> u64 \<Rightarrow> memory \<Rightarrow> memory res" where
  "strcpy_u s t m = loop_res strcpy_step (s, t, m)"

definition strcmp_step :: "memory \<Rightarrow> u64 \<times> u64 \<Rightarrow> (int, u64 \<times> u64) ctl res" where
  "strcmp_step m = (\<lambda>(p, q).
     Ok (if m p \<noteq> 0 \<and> m p = m q then Next (p + 1, q + 1) else Done (uint (m p) - uint (m q))))"

definition strcmp_u :: "u64 \<Rightarrow> u64 \<Rightarrow> memory \<Rightarrow> int res" where
  "strcmp_u p q m = loop_res (strcmp_step m) (p, q)"

definition strlen_u :: "u64 \<Rightarrow> memory \<Rightarrow> nat res" where
  "strlen_u s m = while_res (\<lambda>n. m (s + of_nat n) \<noteq> 0) (\<lambda>n. Ok (Suc n)) 0"

definition memset_u :: "u64 \<Rightarrow> int \<Rightarrow> u32 \<Rightarrow> memory \<Rightarrow> memory" where
  "memset_u dst c n m = memset_loop (unat n) dst (word_of_int c) m"

definition memmove_u :: "u64 \<Rightarrow> u64 \<Rightarrow> int \<Rightarrow> memory \<Rightarrow> memory" where
  "memmove_u dst src n m =
     (if src > dst then copy_up (nat n) dst src m
      else copy_down (nat n) (dst + word_of_int n) (src + word_of_int n) m)"

primrec memcmp_u_loop :: "nat \<Rightarrow> u64 \<Rightarrow> u64 \<Rightarrow> memory \<Rightarrow> int" where
  "memcmp_u_loop 0 p1 p2 m = 0"
| "memcmp_u_loop (Suc k) p1 p2 m =
     (if m p1 \<noteq> m p2 then uint (m p1) - uint (m p2) else memcmp_u_loop k (p1 + 1) (p2 + 1) m)"

definition memcmp_u :: "u64 \<Rightarrow> u64 \<Rightarrow> u32 \<Rightarrow> memory \<Rightarrow> int" where
  "memcmp_u s1 s2 n m = memcmp_u_loop (unat n) s1 s2 m"

definition memcpy_u :: "u64 \<Rightarrow> u64 \<Rightarrow> u32 \<Rightarrow> memory \<Rightarrow> memory" where
  "memcpy_u dst src n m = memmove_u dst src (sint n) m"

text \<open>The routines on strings: the position of a character, the number at the front.\<close>

fun strchr_u :: "u8 list \<Rightarrow> u8 \<Rightarrow> nat option" where
  "strchr_u [] c = None"
| "strchr_u (x # s) c = (if x = 0 then None else if x = c then Some 0 else map_option Suc (strchr_u s c))"

fun atoi_loop :: "u8 list \<Rightarrow> u32 \<Rightarrow> u32" where
  "atoi_loop [] n = n"
| "atoi_loop (c # s) n = (if 48 \<le> c \<and> c \<le> 57 then atoi_loop s (n * 10 + ucast c - 48) else n)"

definition atoi_u :: "u8 list \<Rightarrow> int" where
  "atoi_u s = sint (atoi_loop s 0)"

text \<open>\<^verbatim>\<open>gets\<close>: the string read into the buffer.\<close>

definition gets_step :: "'k sys \<Rightarrow> int \<Rightarrow> u8 list \<Rightarrow> ((u8 list, u8 list) ctl, 'k) user" where
  "gets_step S mx buf =
     (if \<not> int (length buf) + 1 < mx then uret (Done buf)
      else ubnd (s_read S 0 1) (\<lambda>(cc, bs).
           if cc < 1 then uret (Done buf)
           else let c = arr_get bs 0; buf = buf @ [c]
                in uret (if c = 10 \<or> c = 13 then Done buf else Next buf)))"

definition gets_u :: "'k sys \<Rightarrow> int \<Rightarrow> (u8 list, 'k) user" where
  "gets_u S mx = ubnd (uloop (gets_step S mx) []) (\<lambda>buf. uret (cstring buf))"

definition stat_u :: "'k sys \<Rightarrow> u8 list \<Rightarrow> (int \<times> stat option, 'k) user" where
  "stat_u S n =
     ubnd (s_open S n (word_of_int O_RDONLY)) (\<lambda>fd.
     if fd < 0 then uret (-1, None)
     else ubnd (s_fstat S fd) (\<lambda>(r, st).
          ubnd (s_close S fd) (\<lambda>_. uret (r, Some st))))"

definition SBRK_LAZY :: int where "SBRK_LAZY = 2"

definition sbrk_u :: "'k sys \<Rightarrow> int \<Rightarrow> (u64, 'k) user" where
  "sbrk_u S n = s_sbrk S n SBRK_EAGER"

definition sbrklazy_u :: "'k sys \<Rightarrow> int \<Rightarrow> (u64, 'k) user" where
  "sbrklazy_u S n = s_sbrk S n SBRK_LAZY"

section \<open>\<^verbatim>\<open>printf.c\<close>\<close>

definition udigits :: "u8 list" where
  "udigits = map of_char ''0123456789ABCDEF''"

definition putc_u :: "'k sys \<Rightarrow> int \<Rightarrow> u8 \<Rightarrow> (unit, 'k) user" where
  "putc_u S fd c = ubnd (s_write S fd [c]) (\<lambda>_. uret ())"

text \<open>The digits of a number, least significant first.\<close>

definition uprintint_step :: "u64 \<Rightarrow> u8 list \<times> u64 \<Rightarrow> (u8 list, u8 list \<times> u64) ctl res" where
  "uprintint_step base = (\<lambda>(buf, x).
     let buf = buf @ [udigits ! unat (x mod base)]; x = x div base
     in Ok (if x \<noteq> 0 then Next (buf, x) else Done buf))"

definition uprintint_buf :: "u64 \<Rightarrow> u64 \<Rightarrow> bool \<Rightarrow> u8 list res" where
  "uprintint_buf xx base sign =
     (let neg = (sign \<and> sint xx < 0)
      in bnd (loop_res (uprintint_step base) ([], if neg then - xx else xx)) (\<lambda>buf.
         Ok (if neg then buf @ [45] else buf)))"

definition printint_u :: "'k sys \<Rightarrow> int \<Rightarrow> u64 \<Rightarrow> u64 \<Rightarrow> bool \<Rightarrow> (unit, 'k) user" where
  "printint_u S fd xx base sign k =
     bnd (uprintint_buf xx base sign) (\<lambda>buf. ueach (putc_u S fd) (rev buf) k)"

definition printptr_u :: "'k sys \<Rightarrow> int \<Rightarrow> u64 \<Rightarrow> (unit, 'k) user" where
  "printptr_u S fd x =
     ubnd (putc_u S fd 48) (\<lambda>_. ubnd (putc_u S fd 120) (\<lambda>_.
     ueach (\<lambda>i. putc_u S fd (udigits ! unat (drop_bit 60 (push_bit (4 * i) x)))) [0..<16]))"

definition va_get :: "('a \<times> va_list) res \<Rightarrow> ('a \<times> va_list, 'k) user" where
  "va_get r k = bnd r (\<lambda>x. Ok (Val x, k))"

text \<open>
  One conversion, \<open>rest\<close> the format after the percent sign; the result is the number of further
  characters used. (A format that ends in a percent sign prints nothing for it.)
\<close>

definition vprintf_conv :: "'k sys \<Rightarrow> int \<Rightarrow> string \<Rightarrow> va_list \<Rightarrow> (nat \<times> va_list, 'k) user" where
  "vprintf_conv S fd rest ap =
     (let c0 = (case rest of c # _ \<Rightarrow> c | [] \<Rightarrow> CHR 0x00);
          c1 = (case rest of _ # c # _ \<Rightarrow> c | _ \<Rightarrow> CHR 0x00);
          c2 = (case rest of _ # _ # c # _ \<Rightarrow> c | _ \<Rightarrow> CHR 0x00);
          num = (\<lambda>used conv base sign. ubnd (va_get (va_word ap)) (\<lambda>(x, ap).
                   ubnd (printint_u S fd (conv x) base sign) (\<lambda>_. uret (used, ap))))
      in if c0 = CHR ''d'' then num 1 va_int 10 True
         else if c0 = CHR ''l'' \<and> c1 = CHR ''d'' then num 2 id 10 True
         else if c0 = CHR ''l'' \<and> c1 = CHR ''l'' \<and> c2 = CHR ''d'' then num 3 id 10 True
         else if c0 = CHR ''u'' then num 1 va_uint 10 False
         else if c0 = CHR ''l'' \<and> c1 = CHR ''u'' then num 2 id 10 False
         else if c0 = CHR ''l'' \<and> c1 = CHR ''l'' \<and> c2 = CHR ''u'' then num 3 id 10 False
         else if c0 = CHR ''x'' then num 1 va_uint 16 False
         else if c0 = CHR ''l'' \<and> c1 = CHR ''x'' then num 2 id 16 False
         else if c0 = CHR ''l'' \<and> c1 = CHR ''l'' \<and> c2 = CHR ''x'' then num 3 id 16 False
         else if c0 = CHR ''p'' then
           ubnd (va_get (va_word ap)) (\<lambda>(x, ap). ubnd (printptr_u S fd x) (\<lambda>_. uret (1, ap)))
         else if c0 = CHR ''c'' then
           ubnd (va_get (va_word ap)) (\<lambda>(x, ap). ubnd (putc_u S fd (ucast x)) (\<lambda>_. uret (1, ap)))
         else if c0 = CHR ''s'' then
           ubnd (va_get (va_str ap)) (\<lambda>(s, ap).
           let s = (case s of None \<Rightarrow> map of_char ''(null)'' | Some s \<Rightarrow> cstring s)
           in ubnd (ueach (putc_u S fd) s) (\<lambda>_. uret (1, ap)))
         else if c0 = CHR ''%'' then ubnd (putc_u S fd 37) (\<lambda>_. uret (1, ap))
         else if c0 = CHR 0x00 then uret (1, ap)
         else ubnd (putc_u S fd 37) (\<lambda>_. ubnd (putc_u S fd (of_char c0)) (\<lambda>_. uret (1, ap))))"

definition vprintf_step :: "'k sys \<Rightarrow> int \<Rightarrow> string \<times> va_list \<Rightarrow> ((unit, string \<times> va_list) ctl, 'k) user" where
  "vprintf_step S fd = (\<lambda>(fmt, ap).
     case fmt of
       [] \<Rightarrow> uret (Done ())
     | c # rest \<Rightarrow>
         if c \<noteq> CHR ''%'' then ubnd (putc_u S fd (of_char c)) (\<lambda>_. uret (Next (rest, ap)))
         else ubnd (vprintf_conv S fd rest ap) (\<lambda>(used, ap). uret (Next (drop used rest, ap))))"

definition vprintf_u :: "'k sys \<Rightarrow> int \<Rightarrow> string \<Rightarrow> va_list \<Rightarrow> (unit, 'k) user" where
  "vprintf_u S fd fmt ap = uloop (vprintf_step S fd) (fmt, ap)"

definition fprintf_u :: "'k sys \<Rightarrow> int \<Rightarrow> string \<Rightarrow> va_list \<Rightarrow> (unit, 'k) user" where
  "fprintf_u S fd fmt ap = vprintf_u S fd fmt ap"

definition printf_u :: "'k sys \<Rightarrow> string \<Rightarrow> va_list \<Rightarrow> (unit, 'k) user" where
  "printf_u S fmt ap = vprintf_u S 1 fmt ap"

end
