(* ===== verification/Xv6_Watcher.thy ===== *)
theory Xv6_Watcher
  imports Xv6_User
begin

text \<open>
  \<^verbatim>\<open>user/watcher.c\<close>: the program that reads the kernel event queue and prints the events.
\<close>

section \<open>Printing an event\<close>

text \<open>The digits that the loop of \<^verbatim>\<open>write_int\<close> stores, least significant first.\<close>

function wdigits :: "int \<Rightarrow> u8 list" where
  "wdigits n = (if n > 0 then (48 + word_of_int (n mod 10)) # wdigits (n div 10) else [])"
  by auto
termination
  by (relation "measure nat") auto

declare wdigits.simps [simp del]

definition write_int :: "'k sys \<Rightarrow> int \<Rightarrow> int \<Rightarrow> (unit, 'k) user" where
  "write_int S fd val =
     (if val = 0 then ubnd (s_write S fd [48]) (\<lambda>_. uret ())
      else ubnd (if val < 0 then ubnd (s_write S fd [45]) (\<lambda>_. uret (sint (word_of_int (- val) :: u32)))
                 else uret val) (\<lambda>n.
           ueach (\<lambda>c. ubnd (s_write S fd [c]) (\<lambda>_. uret ())) (rev (wdigits n))))"

definition to_int :: "u64 \<Rightarrow> int" where
  "to_int x = sint (ucast x :: u32)"

definition write_event :: "'k sys \<Rightarrow> int \<Rightarrow> u64 \<Rightarrow> int \<Rightarrow> u8 list \<Rightarrow> (unit, 'k) user" where
  "write_event S fd delta_ms pid name =
     ubnd (s_write S fd (map of_char ''['')) (\<lambda>_.
     ubnd (write_int S fd (to_int delta_ms)) (\<lambda>_.
     ubnd (s_write S fd (map of_char ''] ['')) (\<lambda>_.
     ubnd (write_int S fd pid) (\<lambda>_.
     ubnd (s_write S fd (map of_char ''] '')) (\<lambda>_.
     ubnd (s_write S fd (cstring name)) (\<lambda>_.
     ubnd (s_write S fd [10]) (\<lambda>_. uret ())))))))"

section \<open>Arguments\<close>

record wopts =
  w_mode :: int
  w_fd :: int
  w_window :: int

definition watcher_arg :: "'k sys \<Rightarrow> u8 list list \<Rightarrow> nat \<times> wopts \<Rightarrow> ((wopts, nat \<times> wopts) ctl, 'k) user" where
  "watcher_arg S argv = (\<lambda>(i, w).
     if \<not> i < length argv then uret (Done w)
     else let a = argv ! i
          in if arr_get a 0 \<noteq> of_char CHR ''-'' then uret (Next (i + 1, w))
             else if arr_get a 1 \<in> {of_char CHR ''i'', of_char CHR ''I''} then uret (Next (i + 1, w\<lparr>w_mode := 1\<rparr>))
             else if arr_get a 1 \<in> {of_char CHR ''c'', of_char CHR ''C''}
             then let w = w\<lparr>w_mode := 2\<rparr>
                  in if i + 1 < length argv \<and> arr_get (argv ! (i + 1)) 0 \<noteq> of_char CHR ''-''
                     then uret (Next (i + 2, w\<lparr>w_window := sint (word_of_int (atoi_u (argv ! (i + 1)) * 1000) :: u32)\<rparr>))
                     else uret (Next (i + 1, w))
             else if arr_get a 1 \<in> {of_char CHR ''o'', of_char CHR ''O''}
             then if i + 1 < length argv
                  then ubnd (s_open S (argv ! (i + 1)) (O_CREATE OR O_WRONLY)) (\<lambda>fd.
                       if fd < 0
                       then ubnd (printf_u S (''watcher: could not open %s'' @ [CHR 0x0A]) [VStr (Some (argv ! (i + 1)))])
                              (\<lambda>_. uexit 1)
                       else uret (Next (i + 2, w\<lparr>w_fd := fd\<rparr>)))
                  else uret (Next (i + 1, w))
             else uret (Next (i + 1, w)))"

definition watcher_banner :: "'k sys \<Rightarrow> wopts \<Rightarrow> (unit, 'k) user" where
  "watcher_banner S w =
     ubnd (s_getpid S) (\<lambda>pid.
     ubnd (printf_u S (''Event Watcher Started (PID: %d)'' @ [CHR 0x0A]) [VWord (word_of_int pid)]) (\<lambda>_.
     ubnd (printf_u S (''Listening for kernel events...'' @ [CHR 0x0A]) []) (\<lambda>_.
     ubnd (if w_mode w = 0 then printf_u S (''Mode: Fork events only'' @ [CHR 0x0A]) []
           else if w_mode w = 1 then printf_u S (''Mode: Important events (fork, sleep)'' @ [CHR 0x0A]) []
           else printf_u S (''Mode: Contextual (forks with related events within %d seconds)'' @ [CHR 0x0A])
                  [VWord (word_of_int (sgn (w_window w) * (\<bar>w_window w\<bar> div 1000)))]) (\<lambda>_.
     ubnd (printf_u S (''===================================='' @ [CHR 0x0A]) []) (\<lambda>_.
     ubnd (printf_u S (''Format: [Delta(ms)] [PID] [Event]'' @ [CHR 0x0A]) []) (\<lambda>_.
     printf_u S (''===================================='' @ [CHR 0x0A]) []))))))"

section \<open>Streaming\<close>

definition ev_char :: "event \<Rightarrow> u8" where
  "ev_char ev = arr_get (ev_name ev) 0"

definition wait_failed :: "'k sys \<Rightarrow> int \<Rightarrow> (unit, 'k) user" where
  "wait_failed S fd =
     (if fd = 1 then printf_u S (''Error waiting for event'' @ [CHR 0x0A]) [] else uret ())"

definition stream_step :: "'k sys \<Rightarrow> wopts \<Rightarrow> int \<Rightarrow> u64 \<Rightarrow> ((unit, u64) ctl, 'k) user" where
  "stream_step S w watcher_pid first_timestamp =
     ubnd (s_kqueue_wait S) (\<lambda>(r, ev).
     if r < 0 then ubnd (wait_failed S (w_fd w)) (\<lambda>_. uret (Done ()))
     else if ev_pid ev = watcher_pid then uret (Next first_timestamp)
     else let first_timestamp = (if first_timestamp = 0 then ev_timestamp ev else first_timestamp);
              delta_ms = (ev_timestamp ev - first_timestamp) div 1000
          in ubnd (if w_mode w = 0
                   then if ev_char ev = of_char CHR ''f''
                        then write_event S (w_fd w) delta_ms (ev_pid ev) (ev_name ev) else uret ()
                   else if w_mode w = 1
                   then if ev_char ev = of_char CHR ''f'' \<or> ev_char ev = of_char CHR ''s''
                        then write_event S (w_fd w) delta_ms (ev_pid ev) (ev_name ev) else uret ()
                   else uret ()) (\<lambda>_.
             uret (Next first_timestamp)))"

section \<open>Contextual mode\<close>

definition MAX_EVENTS :: nat where "MAX_EVENTS = 1000"

text \<open>The events before the fork at \<open>idx\<close>, latest first, at most fifty back.\<close>

definition context_event :: "'k sys \<Rightarrow> wopts \<Rightarrow> (event \<times> u64) list \<Rightarrow> u64 \<Rightarrow> nat \<Rightarrow> (unit, 'k) user" where
  "context_event S w buf fork_time i =
     (let (ev, d) = buf ! i
      in if fork_time - d \<le> word_of_int (w_window w) \<and> (ev_char ev = of_char CHR ''s'' \<or> ev_char ev = of_char CHR ''w'')
         then write_event S (w_fd w) d (ev_pid ev) (ev_name ev) else uret ())"

definition context_fork :: "'k sys \<Rightarrow> wopts \<Rightarrow> (event \<times> u64) list \<Rightarrow> (unit, 'k) user" where
  "context_fork S w buf =
     (let idx = length buf - 1; (ev, fork_time) = buf ! idx
      in ubnd (ueach (context_event S w buf fork_time) (rev [idx - 50..<idx])) (\<lambda>_.
         ubnd (write_event S (w_fd w) fork_time (ev_pid ev) (ev_name ev)) (\<lambda>_.
         ubnd (s_write S (w_fd w) (map of_char ''  ---'' @ [10])) (\<lambda>_. uret ()))))"

definition context_step ::
  "'k sys \<Rightarrow> wopts \<Rightarrow> int \<Rightarrow> u64 \<times> (event \<times> u64) list \<Rightarrow> ((unit, u64 \<times> (event \<times> u64) list) ctl, 'k) user" where
  "context_step S w watcher_pid = (\<lambda>(first_timestamp, buf).
     ubnd (s_kqueue_wait S) (\<lambda>(r, ev).
     if r < 0 then ubnd (wait_failed S (w_fd w)) (\<lambda>_. uret (Done ()))
     else if ev_pid ev = watcher_pid then uret (Next (first_timestamp, buf))
     else let first_timestamp = (if first_timestamp = 0 then ev_timestamp ev else first_timestamp)
          in if length buf < MAX_EVENTS
             then let buf = buf @ [(ev, (ev_timestamp ev - first_timestamp) div 1000)]
                  in ubnd (if ev_char ev = of_char CHR ''f'' then context_fork S w buf else uret ()) (\<lambda>_.
                     uret (Next (first_timestamp, buf)))
             else uret (Next (first_timestamp, buf))))"

definition watcher_main :: "'k sys \<Rightarrow> u8 list list \<Rightarrow> (int, 'k) user" where
  "watcher_main S argv =
     ubnd (s_getpid S) (\<lambda>watcher_pid.
     ubnd (uloop (watcher_arg S argv) (1, \<lparr>w_mode = 0, w_fd = 1, w_window = 10000\<rparr>)) (\<lambda>w.
     ubnd (if w_fd w = 1 then watcher_banner S w else uret ()) (\<lambda>_.
     ubnd (if w_mode w \<noteq> 2 then uloop (stream_step S w watcher_pid) 0
           else uloop (context_step S w watcher_pid) (0, [])) (\<lambda>_.
     uexit 0))))"

section \<open>Decimal numbers\<close>

lemma decimal_digits: "\<forall>d\<in>set [0..<10]. digit_char d = 48 + of_nat d"
  by code_simp

lemma decimal_digit: "0 \<le> d \<Longrightarrow> d < 10 \<Longrightarrow> 48 + word_of_int d = digit_char (nat d)"
  using bspec [OF decimal_digits, of "nat d"] by simp

lemma wdigits_text: "0 < n \<Longrightarrow> rev (wdigits n) = nat_text 10 (nat n)"
proof (induction "nat n" arbitrary: n rule: less_induct)
  case less
  have w: "wdigits n = (48 + word_of_int (n mod 10)) # wdigits (n div 10)"
    using less.prems by (subst wdigits.simps) simp
  have d: "48 + word_of_int (n mod 10) = digit_char (nat n mod 10)"
    using decimal_digit [of "n mod 10"] less.prems by (simp add: nat_mod_distrib)
  show ?case
  proof (cases "n < 10")
    case True
    then have "wdigits (n div 10) = []" using less.prems by (subst wdigits.simps) simp
    moreover have "nat_text 10 (nat n) = [digit_char (nat n)]" using True less.prems by (subst nat_text.simps) (simp add: nat_less_iff)
    ultimately show ?thesis using True less.prems w d by simp
  next
    case False
    then have "nat (n div 10) < nat n" "0 < n div 10" using less.prems by auto
    from less.hyps [OF this] have "rev (wdigits (n div 10)) = nat_text 10 (nat n div 10)" using less.prems by (simp add: nat_div_distrib)
    moreover have "nat_text 10 (nat n) = nat_text 10 (nat n div 10) @ [digit_char (nat n mod 10)]"
      using False by (subst nat_text.simps) (simp add: nat_less_iff)
    ultimately show ?thesis using w d by simp
  qed
qed

text \<open>What \<^verbatim>\<open>write_int\<close> makes of a number.\<close>

definition int_text :: "int \<Rightarrow> u8 list" where
  "int_text n = (if n = - (2 ^ 31) then [45] else number_text 10 n)"

lemma zero_text: "number_text 10 0 = [48]"
  by code_simp

section \<open>What a watcher shows\<close>

definition event_line :: "int \<Rightarrow> int \<Rightarrow> u8 list \<Rightarrow> u8 list" where
  "event_line d p name = map of_char ''['' @ int_text d @ map of_char ''] ['' @ int_text p @ map of_char ''] '' @ cstring name @ [10]"

text \<open>
  The events that are not the watcher's own; those a mode shows; the thousands of timer ticks between \<open>t0\<close> and an event;
  the lines for the events; the time of the first of them.
\<close>

definition foreign :: "int \<Rightarrow> event list \<Rightarrow> event list" where
  "foreign pid es = filter (\<lambda>e. ev_pid e \<noteq> pid) es"

definition wanted :: "int \<Rightarrow> event \<Rightarrow> bool" where
  "wanted mode e \<longleftrightarrow> mode = 0 \<and> ev_char e = of_char CHR ''f''
     \<or> mode = 1 \<and> (ev_char e = of_char CHR ''f'' \<or> ev_char e = of_char CHR ''s'')"

definition delta :: "u64 \<Rightarrow> event \<Rightarrow> int" where
  "delta t0 e = to_int ((ev_timestamp e - t0) div 1000)"

definition stream_lines :: "int \<Rightarrow> u64 \<Rightarrow> event list \<Rightarrow> u8 list" where
  "stream_lines mode t0 es = concat (map (\<lambda>e. event_line (delta t0 e) (ev_pid e) (ev_name e)) (filter (wanted mode) es))"

definition base_time :: "u64 \<Rightarrow> event list \<Rightarrow> u64" where
  "base_time first es = (if first = 0 \<and> es \<noteq> [] then ev_timestamp (hd es) else first)"

text \<open>An event of another process: its number is an \<^verbatim>\<open>int\<close>, and the timer has started.\<close>

definition event_valid :: "event \<Rightarrow> bool" where
  "event_valid e \<longleftrightarrow> ev_timestamp e \<noteq> 0 \<and> - (2 ^ 31) \<le> ev_pid e \<and> ev_pid e < 2 ^ 31"

text \<open>
  What the watcher needs of the system calls: waiting gives an event, which \<open>got\<close> records, and a write appends its bytes
  to the output \<open>out\<close>.
\<close>

locale event_feed =
  fixes S :: "'k sys" and good :: "'k \<Rightarrow> bool" and got :: "'k \<Rightarrow> event list" and out :: "'k \<Rightarrow> u8 list"
    and fd :: int and pid :: int
  assumes wait_event: "good k \<Longrightarrow> \<exists>e k'. s_kqueue_wait S k = Ok (Val (0, e), k') \<and> good k' \<and> got k' = got k @ [e]
      \<and> out k' = out k \<and> (ev_pid e \<noteq> pid \<longrightarrow> event_valid e)"
    and write_out: "good k \<Longrightarrow> \<exists>r k'. s_write S fd bs k = Ok (Val r, k') \<and> good k' \<and> out k' = out k @ bs \<and> got k' = got k"
begin

abbreviation emits :: "(unit, 'k) user \<Rightarrow> u8 list \<Rightarrow> bool" where
  "emits m bs \<equiv> \<forall>k. good k \<longrightarrow> (\<exists>k'. m k = Ok (Val (), k') \<and> good k' \<and> out k' = out k @ bs \<and> got k' = got k)"

lemma emits_ret: "emits (uret ()) []"
  by (simp add: uret_def)

lemma emits_seq:
  assumes "emits m bs" "emits m' bs'"
  shows "emits (ubnd m (\<lambda>_. m')) (bs @ bs')"
proof (intro allI impI)
  fix k assume "good k"
  then obtain k1 where 1: "m k = Ok (Val (), k1)" "good k1" "out k1 = out k @ bs" "got k1 = got k" using assms(1) by blast
  then obtain k2 where "m' k1 = Ok (Val (), k2)" "good k2" "out k2 = out k1 @ bs'" "got k2 = got k1" using assms(2) by blast
  with 1 show "\<exists>k'. ubnd m (\<lambda>_. m') k = Ok (Val (), k') \<and> good k' \<and> out k' = out k @ bs @ bs' \<and> got k' = got k"
    by (intro exI [of _ k2]) (simp add: ubnd_def)
qed

lemma emits_write: "emits (ubnd (s_write S fd bs) (\<lambda>_. uret ())) bs"
proof (intro allI impI)
  fix k assume "good k"
  from write_out [OF this, of bs] show "\<exists>k'. ubnd (s_write S fd bs) (\<lambda>_. uret ()) k = Ok (Val (), k') \<and> good k'
      \<and> out k' = out k @ bs \<and> got k' = got k" by (auto simp: ubnd_def uret_def)
qed

lemma emits_write_then:
  assumes "emits m bs'"
  shows "emits (ubnd (s_write S fd bs) (\<lambda>_. m)) (bs @ bs')"
  using emits_seq [OF emits_write assms, of bs] by simp

lemma emits_each: "emits (ueach (\<lambda>c. ubnd (s_write S fd [c]) (\<lambda>_. uret ())) cs) cs"
proof (induction cs)
  case (Cons c cs)
  from emits_seq [OF emits_write Cons, of "[c]"] show ?case by simp
qed (simp add: uret_def)

lemma emits_int:
  assumes "- (2 ^ 31) \<le> n" "n < 2 ^ 31"
  shows "emits (write_int S fd n) (int_text n)"
proof -
  consider "n = 0" | "n = - (2 ^ 31)" | "- (2 ^ 31) < n" "n < 0" | "0 < n" using assms by linarith
  then show ?thesis
  proof cases
    case 1
    then have "write_int S fd n = ubnd (s_write S fd [48]) (\<lambda>_. uret ())" "int_text n = [48]"
      by (simp_all add: write_int_def int_text_def zero_text)
    then show ?thesis using emits_write [of "[48]"] by (simp only:)
  next
    case 2
    then have "write_int S fd n = ubnd (s_write S fd [45]) (\<lambda>_. uret ())" "int_text n = [45]"
      by (simp_all add: write_int_def int_text_def wdigits.simps)
    then show ?thesis using emits_write [of "[45]"] by (simp only:)
  next
    case 3
    then have "sint (word_of_int (- n) :: u32) = - n" by (intro sint_word_of_int32) (simp add: fits32_def)
    then have "write_int S fd n = ubnd (s_write S fd [45]) (\<lambda>_. ueach (\<lambda>c. ubnd (s_write S fd [c]) (\<lambda>_. uret ())) (rev (wdigits (- n))))"
      using 3 by (simp add: write_int_def)
    moreover have "int_text n = [45] @ rev (wdigits (- n))" using 3 wdigits_text [of "- n"] by (simp add: int_text_def number_text_def)
    ultimately show ?thesis using emits_write_then [OF emits_each, of "[45]" "rev (wdigits (- n))"] by (simp only:)
  next
    case 4
    then have "write_int S fd n = ueach (\<lambda>c. ubnd (s_write S fd [c]) (\<lambda>_. uret ())) (rev (wdigits n))" "int_text n = rev (wdigits n)"
      using wdigits_text [of n] by (simp_all add: write_int_def int_text_def number_text_def)
    then show ?thesis using emits_each [of "rev (wdigits n)"] by (simp only:)
  qed
qed

lemma emits_event:
  assumes "- (2 ^ 31) \<le> p" "p < 2 ^ 31"
  shows "emits (write_event S fd d p name) (event_line (to_int d) p name)"
proof -
  have "- (2 ^ 31) \<le> to_int d" "to_int d < 2 ^ 31"
    using sint_lt [of "ucast d :: u32"] sint_ge [of "ucast d :: u32"] by (simp_all add: to_int_def)
  note i = emits_int [OF this] emits_int [OF assms]
  show ?thesis unfolding write_event_def event_line_def
    by (rule emits_write_then emits_seq [OF i(1)] emits_seq [OF i(2)] emits_write)+
qed

text \<open>One round of the streaming loop, and \<open>n\<close> of them.\<close>

lemma stream_round:
  assumes "good k" "w_fd w = fd"
  shows "\<exists>e k'. stream_step S w pid first k = Ok (Val (Next (base_time first (foreign pid [e]))), k') \<and> good k' \<and> got k' = got k @ [e]
    \<and> (ev_pid e \<noteq> pid \<longrightarrow> event_valid e)
    \<and> out k' = out k @ stream_lines (w_mode w) (base_time first (foreign pid [e])) (foreign pid [e])"
proof -
  obtain e k1 where k1: "s_kqueue_wait S k = Ok (Val (0, e), k1)" "good k1" "got k1 = got k @ [e]" "out k1 = out k"
    "ev_pid e \<noteq> pid \<longrightarrow> event_valid e" using wait_event [OF assms(1)] by blast
  show ?thesis
  proof (cases "ev_pid e = pid")
    case True
    then show ?thesis using k1
      by (intro exI [of _ e] exI [of _ k1]) (simp add: stream_step_def ubnd_def uret_def foreign_def base_time_def stream_lines_def)
  next
    case False
    let ?t = "base_time first [e]"
    let ?m = "if wanted (w_mode w) e then write_event S fd ((ev_timestamp e - ?t) div 1000) (ev_pid e) (ev_name e) else uret ()"
    have f: "foreign pid [e] = [e]" using False by (simp add: foreign_def)
    have "emits ?m (stream_lines (w_mode w) ?t [e])"
      using emits_event [of "ev_pid e" "(ev_timestamp e - ?t) div 1000" "ev_name e"] emits_ret k1(5) False
      by (simp add: stream_lines_def delta_def event_valid_def)
    then obtain k2 where k2: "?m k1 = Ok (Val (), k2)" "good k2" "out k2 = out k1 @ stream_lines (w_mode w) ?t [e]" "got k2 = got k1"
      using k1(2) by blast
    have "stream_step S w pid first k = ubnd ?m (\<lambda>_. uret (Next ?t)) k1"
      using False assms(2) by (auto simp: stream_step_def ubnd_def k1(1) Let_def wanted_def base_time_def)
    also have "\<dots> = Ok (Val (Next ?t), k2)" by (simp add: ubnd_def uret_def k2(1))
    finally show ?thesis using k1 k2 f by (intro exI [of _ e] exI [of _ k2]) simp
  qed
qed

lemma stream_rounds:
  assumes "good k" "w_fd w = fd"
  shows "\<exists>es k'. rounds (stream_step S w pid) n first k = Ok (Val (Next (base_time first (foreign pid es))), k') \<and> good k'
    \<and> got k' = got k @ es \<and> length es = n
    \<and> out k' = out k @ stream_lines (w_mode w) (base_time first (foreign pid es)) (foreign pid es)"
  using assms(1)
proof (induction n arbitrary: k first)
  case 0
  then show ?case by (intro exI [of _ "[]"] exI [of _ k]) (simp add: uret_def base_time_def foreign_def stream_lines_def)
next
  case (Suc n)
  let ?t = "\<lambda>es. base_time first (foreign pid es)"
  obtain e k1 where k1: "stream_step S w pid first k = Ok (Val (Next (?t [e])), k1)" "good k1" "got k1 = got k @ [e]"
    "ev_pid e \<noteq> pid \<longrightarrow> event_valid e" "out k1 = out k @ stream_lines (w_mode w) (?t [e]) (foreign pid [e])"
    using stream_round [OF Suc.prems assms(2)] by blast
  obtain es k2 where k2: "rounds (stream_step S w pid) n (?t [e]) k1 = Ok (Val (Next (base_time (?t [e]) (foreign pid es))), k2)" "good k2"
    "got k2 = got k1 @ es" "length es = n"
    "out k2 = out k1 @ stream_lines (w_mode w) (base_time (?t [e]) (foreign pid es)) (foreign pid es)"
    using Suc.IH [OF k1(2), of "?t [e]"] by blast
  have b: "base_time (?t [e]) (foreign pid es) = ?t (e # es)"
    using k1(4) by (auto simp: base_time_def foreign_def event_valid_def)
  have "foreign pid (e # es) = foreign pid [e] @ foreign pid es" by (simp add: foreign_def)
  moreover have "stream_lines (w_mode w) (?t [e]) (foreign pid [e]) = stream_lines (w_mode w) (?t (e # es)) (foreign pid [e])"
    by (auto simp: base_time_def foreign_def stream_lines_def)
  ultimately have "stream_lines (w_mode w) (?t [e]) (foreign pid [e]) @ stream_lines (w_mode w) (?t (e # es)) (foreign pid es) =
      stream_lines (w_mode w) (?t (e # es)) (foreign pid (e # es))" by (simp add: stream_lines_def)
  then show ?case using k1 k2 by (intro exI [of _ "e # es"] exI [of _ k2]) (simp add: ubnd_def b)
qed

lemma context_rounds:
  assumes "good k" "length buf = MAX_EVENTS"
  shows "\<exists>es k' t'. rounds (context_step S w pid) n (t, buf) k = Ok (Val (Next (t', buf)), k') \<and> good k'
    \<and> got k' = got k @ es \<and> length es = n \<and> out k' = out k"
  using assms(1)
proof (induction n arbitrary: k t)
  case 0
  then show ?case by (simp add: uret_def)
next
  case (Suc n)
  obtain e k1 where k1: "s_kqueue_wait S k = Ok (Val (0, e), k1)" "good k1" "got k1 = got k @ [e]" "out k1 = out k"
    using wait_event [OF Suc.prems] by blast
  have "context_step S w pid (t, buf) k = Ok (Val (Next (if ev_pid e = pid then t else if t = 0 then ev_timestamp e else t, buf)), k1)"
    using assms(2) k1(1) by (simp add: context_step_def ubnd_def uret_def Let_def)
  then obtain t1 where "context_step S w pid (t, buf) k = Ok (Val (Next (t1, buf)), k1)" by blast
  moreover obtain es k2 t2 where "rounds (context_step S w pid) n (t1, buf) k1 = Ok (Val (Next (t2, buf)), k2)" "good k2"
    "got k2 = got k1 @ es" "length es = n" "out k2 = out k1" using Suc.IH [OF k1(2)] by blast
  ultimately show ?case using k1 by (intro exI [of _ "e # es"] exI [of _ k2] exI [of _ t2]) (simp add: ubnd_def)
qed

end

section \<open>The watcher on the kernel's event queue\<close>

text \<open>
  The two calls on the functions of the kernel: waiting is \<open>kqueue_wait_internal\<close>, and writing posts a \<^verbatim>\<open>write\<close> event as
  \<open>sys_write\<close> does, by \<open>kqueue_post\<close>, while the bytes themselves go to the output. The state records the events
  received and the output.
\<close>

definition kernel_sys :: "int \<Rightarrow> (world \<times> event list \<times> u8 list) sys" where
  "kernel_sys pid = \<lparr>
     s_fork = uret (-1), s_wait = uret (-1, 0), s_pipe = uret (-1, 0, 0),
     s_write = (\<lambda>fd bs (w, es, ob). bnd (if bs \<noteq> [] then kqueue_post (cstr ''write'') pid w else Ok w)
        (\<lambda>w. Ok (Val (int (length bs)), w, es, ob @ bs))),
     s_read = (\<lambda>_ _. uret (0, [])), s_close = (\<lambda>_. uret 0), s_kill = (\<lambda>_. uret (-1)),
     s_exec = (\<lambda>_ _. uret (-1)), s_open = (\<lambda>_ _. uret (-1)), s_mknod = (\<lambda>_ _ _. uret (-1)),
     s_unlink = (\<lambda>_. uret (-1)), s_fstat = (\<lambda>_. uret (-1, \<lparr>st_dev = 0, st_ino = 0, st_type = 0, st_nlink = 0, st_size = 0\<rparr>)),
     s_link = (\<lambda>_ _. uret (-1)), s_mkdir = (\<lambda>_. uret (-1)), s_chdir = (\<lambda>_. uret (-1)), s_dup = (\<lambda>_. uret (-1)),
     s_getpid = uret pid, s_sbrk = (\<lambda>_ _. uret (-1)), s_pause = (\<lambda>_. uret 0), s_uptime = uret 0,
     s_kqueue_wait = (\<lambda>(w, es, ob). bnd (kqueue_wait_internal w) (\<lambda>(e, w). Ok (Val (0, e), w, es @ [e], ob))),
     s_kqueue_post = (\<lambda>_ _. uret 0)\<rparr>"

text \<open>
  What the watcher, process \<open>p\<close>, finds: the locks are free when it makes a call, the queue is well formed, and whenever it
  sleeps on the queue the rest of the system, which may do anything to the kernel meanwhile, resumes it with an event queued.
\<close>

definition queue_ok :: "int \<Rightarrow> kqueue \<Rightarrow> bool" where
  "queue_ok pid q \<longleftrightarrow> kq_ok q \<and> (\<forall>e\<in>set (kq_abs q). ev_pid e \<noteq> pid \<longrightarrow> event_valid e)"

definition env_feeds :: "nat \<Rightarrow> int \<Rightarrow> (nat \<Rightarrow> kernel \<Rightarrow> kernel option) \<Rightarrow> bool" where
  "env_feeds p pid E \<longleftrightarrow> (\<forall>n k. resumed p Kq_lock (sync k) \<and> p_state (procs k p) = SLEEPING \<and> p_chan (procs k p) = Some Ch_kq
       \<and> queue_ok pid (kq k) \<longrightarrow>
     (\<exists>k'. E n k = Some k' \<and> resumed p Kq_lock (sync k') \<and> queue_ok pid (kq k') \<and> kq_count (kq k') \<noteq> 0))"

definition kernel_ok :: "nat \<Rightarrow> int \<Rightarrow> world \<Rightarrow> bool" where
  "kernel_ok p pid w \<longleftrightarrow> cur (sync w) = Some p \<and> cpu_ok (sync w) \<and> cpu_noff (mycpu (sync w)) = 0 \<and> lock_free Kq_lock (sync w)
     \<and> lock_free (Proc_lock p) (sync w) \<and> others_free (sync w) \<and> queue_ok pid (kq w) \<and> env_feeds p pid (env w)"

lemma asleep_resumed:
  assumes "cur s = Some p" "cpu_ok s" "cpu_noff (mycpu s) = 0" "lock_free Kq_lock s" "lock_free (Proc_lock p) s" "others_free s"
  shows "resumed p Kq_lock (rel Kq_lock (acq (Proc_lock p) (acq Kq_lock s)))"
  using assms by (auto simp: resumed_def sync_defs others_free_def Let_def)

lemma set_tl_subset: "set (tl xs) \<subseteq> set xs"
  by (cases xs) auto

lemma queue_ok_get:
  assumes "queue_ok pid q" "kq_count q \<noteq> 0"
  shows "\<exists>e q'. kq_get q = (e, q') \<and> queue_ok pid q' \<and> (ev_pid e \<noteq> pid \<longrightarrow> event_valid e)"
proof -
  have i: "kq_inv q" using assms(1) by (simp add: queue_ok_def kq_ok_def)
  then have ne: "kq_abs q \<noteq> []" using assms(2) by (auto simp: kq_inv_def kq_abs_def)
  obtain e q' where g: "kq_get q = (e, q')" by (cases "kq_get q")
  with kq_take_front [OF i ne] have t: "e = hd (kq_abs q)" "kq_inv q'" "kq_abs q' = tl (kq_abs q)" by auto
  have "kq_events q' = kq_events q" using g by (auto simp: kq_get_def)
  moreover have "set (kq_abs q') \<subseteq> set (kq_abs q)" "e \<in> set (kq_abs q)" using t ne by (auto dest: list.set_sel(2))
  ultimately show ?thesis using assms(1) t(2) g by (auto simp: queue_ok_def kq_ok_def)
qed

lemma queue_ok_put:
  assumes "queue_ok pid q" "event_ok e" "ev_pid e \<noteq> pid \<longrightarrow> event_valid e"
  shows "queue_ok pid (kq_put e q)" "kq_count (kq_put e q) \<noteq> 0"
proof -
  have i: "kq_inv q" "kq_ok q" using assms(1) by (auto simp: queue_ok_def kq_ok_def)
  from kqr.put_any [OF i(1), of e] have "set (kq_abs (kq_put e q)) \<subseteq> insert e (set (kq_abs q))"
    using set_tl_subset [of "kq_abs q"] by (auto split: if_splits)
  with assms kq_put_ok [OF i(2) assms(2)] show "queue_ok pid (kq_put e q)" by (auto simp: queue_ok_def)
  show "kq_count (kq_put e q) \<noteq> 0" using i(1) NEVENT_pos by (auto simp: kq_put_def kq_inv_def Let_def)
qed

lemma kernel_wait:
  assumes ok: "kernel_ok p pid w"
  shows "\<exists>e w'. kqueue_wait_internal w = Ok (e, w') \<and> kernel_ok p pid w' \<and> (ev_pid e \<noteq> pid \<longrightarrow> event_valid e)"
proof -
  let ?w = "w\<lparr>sync := acq Kq_lock (sync w)\<rparr>"
  have k: "cur (sync w) = Some p" "cpu_ok (sync w)" "cpu_noff (mycpu (sync w)) = 0" "lock_free Kq_lock (sync w)"
    "lock_free (Proc_lock p) (sync w)" "others_free (sync w)" "queue_ok pid (kq w)" "env_feeds p pid (env w)"
    using ok by (auto simp: kernel_ok_def)
  have "\<exists>w1 s. while_res (\<lambda>w. kq_count (kq w) = 0) (sleep Ch_kq Kq_lock) ?w = Ok w1 \<and> sync w1 = acq Kq_lock s
      \<and> kq_count (kq w1) \<noteq> 0 \<and> kernel_ok p pid (w1\<lparr>sync := s\<rparr>)"
  proof (cases "kq_count (kq w) = 0")
    case False
    then show ?thesis using ok by (intro exI [of _ ?w] exI [of _ "sync w"]) (simp add: while_res_skip kernel_ok_def)
  next
    case True
    have crit: "in_crit p Kq_lock (sync ?w)" using in_crit_acq [OF k(1-3,5), of Kq_lock] by simp
    let ?a = "asleep Ch_kq p Kq_lock ?w"
    have "resumed p Kq_lock (sync (kernel.truncate ?a))" "p_state (procs (kernel.truncate ?a) p) = SLEEPING"
      "p_chan (procs (kernel.truncate ?a) p) = Some Ch_kq" "queue_ok pid (kq (kernel.truncate ?a))"
      using asleep_resumed [OF k(1-6)] k(7) by (simp_all add: asleep_def upd_proc_def kernel.truncate_def)
    then obtain k' where k': "env w (nsw w) (kernel.truncate ?a) = Some k'" "resumed p Kq_lock (sync k')" "queue_ok pid (kq k')"
      "kq_count (kq k') \<noteq> 0" using k(8) unfolding env_feeds_def by blast
    let ?w1 = "after_sleep Ch_kq p Kq_lock ?w k'"
    let ?s = "awake p (cpu_intena (mycpu (rel Kq_lock (acq (Proc_lock p) (sync ?w))))) (sync k')"
    have w1: "sync ?w1 = acq Kq_lock ?s" "kq ?w1 = kq k'" "env ?w1 = env w"
      by (simp_all add: after_sleep_def Let_def slept_def upd_proc_def)
    have "sleep Ch_kq Kq_lock ?w = Ok ?w1" using sleep_resumes(1) [OF crit _ _ k'(2), of Ch_kq] k'(1) by simp
    then have "while_res (\<lambda>w. kq_count (kq w) = 0) (sleep Ch_kq Kq_lock) ?w = Ok ?w1"
      using True w1(2) k'(4) by (subst while_res_unfold) (simp add: while_res_skip)
    moreover have "kernel_ok p pid (?w1\<lparr>sync := ?s\<rparr>)"
      using resumed_awake [OF k'(2), where b = "cpu_intena (mycpu (rel Kq_lock (acq (Proc_lock p) (sync ?w))))"] k'(2,3) k(8) w1
      by (auto simp: kernel_ok_def resumed_def)
    ultimately show ?thesis using w1(1,2) k'(4) by (intro exI [of _ ?w1] exI [of _ ?s] conjI) simp_all
  qed
  then obtain w1 s where w1: "while_res (\<lambda>w. kq_count (kq w) = 0) (sleep Ch_kq Kq_lock) ?w = Ok w1" "sync w1 = acq Kq_lock s"
    "kq_count (kq w1) \<noteq> 0" "kernel_ok p pid (w1\<lparr>sync := s\<rparr>)" by blast
  then have q: "queue_ok pid (kq w1)" "lock_free Kq_lock s" "cpu_ok s" by (auto simp: kernel_ok_def)
  from queue_ok_get [OF q(1) w1(3)] obtain e q' where g: "kq_get (kq w1) = (e, q')" "queue_ok pid q'" "ev_pid e \<noteq> pid \<longrightarrow> event_valid e" by blast
  have "kqueue_wait_internal w = Ok (e, w1\<lparr>kq := q', sync := settle s\<rparr>)"
    using w1 g(1) q k by (simp add: kqueue_wait_internal_def lock_simps)
  moreover have "kernel_ok p pid (w1\<lparr>kq := q', sync := settle s\<rparr>)"
    using w1(4) g(2) by (simp add: kernel_ok_def lock_simps)
  ultimately show ?thesis using g(3) by blast
qed

lemma kernel_post:
  assumes ok: "kernel_ok p pid w"
  shows "\<exists>w'. kqueue_post nm pid w = Ok w' \<and> kernel_ok p pid w'"
proof -
  have k: "cpu_ok (sync w)" "lock_free Kq_lock (sync w)" "others_free (sync w)" "queue_ok pid (kq w)"
    using ok by (auto simp: kernel_ok_def)
  let ?e = "new_event nm pid (mtime w) (kq_events (kq w) (kq_tail (kq w)))"
  have "event_ok (kq_events (kq w) (kq_tail (kq w)))" using k(4) by (simp add: queue_ok_def kq_ok_def)
  from new_event_ok [OF this, of nm pid "mtime w"] have "queue_ok pid (kq_put ?e (kq w))" by (intro queue_ok_put [OF k(4)]) auto
  then show ?thesis using ok kqueue_post_eq [OF k(1-3), of nm pid] by (simp add: kernel_ok_def posted_def lock_simps)
qed

interpretation kernel_feed: event_feed "kernel_sys pid" "\<lambda>k. kernel_ok p pid (fst k)" "\<lambda>k. fst (snd k)" "\<lambda>k. snd (snd k)" fd pid
  for p pid fd
proof (unfold_locales, goal_cases)
  case (1 k)
  obtain w es ob where k: "k = (w, es, ob)" by (cases k)
  from kernel_wait [of p pid w] 1 k obtain e w' where
    "kqueue_wait_internal w = Ok (e, w')" "kernel_ok p pid w'" "ev_pid e \<noteq> pid \<longrightarrow> event_valid e" by auto
  then show ?case by (simp add: k kernel_sys_def)
next
  case (2 k bs)
  obtain w es ob where k: "k = (w, es, ob)" by (cases k)
  from kernel_post [of p pid w "cstr ''write''"] 2 k obtain w' where "kqueue_post (cstr ''write'') pid w = Ok w'" "kernel_ok p pid w'" by auto
  then show ?case using 2 by (simp add: k kernel_sys_def)
qed

text \<open>
  C27: the watcher shows what it should. Its streaming loop goes on for as many rounds as events are delivered: after
  \<open>n\<close> rounds it has received \<open>n\<close> events \<open>es\<close> and printed, in the order received, exactly those of other processes that the
  mode selects, one line each with the process, the name and the time since the first event of another process, in units
  of 1000 timer ticks; it prints none of the events that its own output causes, and is ready for the next round.
\<close>

theorem watcher_streams:
  assumes "event_feed S good got out (w_fd w) pid" and "good k"
  shows "\<exists>es k' t0 first. rounds (stream_step S w pid) n 0 k = Ok (Val (Next first), k') \<and> good k'
    \<and> got k' = got k @ es \<and> length es = n
    \<and> t0 = (if foreign pid es = [] then 0 else ev_timestamp (hd (foreign pid es)))
    \<and> out k' = out k @ concat (map (\<lambda>e. event_line (delta t0 e) (ev_pid e) (ev_name e)) (filter (wanted (w_mode w)) (foreign pid es)))"
proof -
  obtain es k' where r: "rounds (stream_step S w pid) n 0 k = Ok (Val (Next (base_time 0 (foreign pid es))), k')" "good k'"
    "got k' = got k @ es" "length es = n"
    "out k' = out k @ stream_lines (w_mode w) (base_time 0 (foreign pid es)) (foreign pid es)"
    using event_feed.stream_rounds [OF assms refl] by blast
  have "base_time 0 (foreign pid es) = (if foreign pid es = [] then 0 else ev_timestamp (hd (foreign pid es)))" by (simp add: base_time_def)
  with r show ?thesis unfolding stream_lines_def by blast
qed

text \<open>While the watcher sleeps, process 6 forks.\<close>

definition forker :: "nat \<Rightarrow> kernel \<Rightarrow> kernel option" where
  "forker n k = Some (k\<lparr>kq := kq_put (new_event (cstr ''fork'') 6 5000 zero_event) (kq k)\<rparr>)"

lemma forker_feeds: "kernel_ok 0 3 (run_world forker)"
proof -
  have z: "event_ok zero_event" by (simp add: event_ok_def zero_event_def)
  have "event_ok (new_event (cstr ''fork'') 6 5000 zero_event)" "event_valid (new_event (cstr ''fork'') 6 5000 zero_event)"
    using new_event_ok [OF z, of "cstr ''fork''" 6 5000] by (simp_all add: event_valid_def)
  then have "env_feeds 0 3 forker" using queue_ok_put [of 3] by (simp add: env_feeds_def forker_def)
  moreover have "queue_ok 3 (kq (run_world forker))" using run_world_kq_ok [of forker] by (simp add: queue_ok_def kq_abs_def)
  ultimately show ?thesis by (simp add: kernel_ok_def)
qed

theorem watcher_streams_witness:
  "\<exists>es k' t0 first. rounds (stream_step (kernel_sys 3) \<lparr>w_mode = 0, w_fd = 5, w_window = 0\<rparr> 3) 7 0 (run_world forker, [], []) = Ok (Val (Next first), k')
     \<and> fst (snd k') = es \<and> length es = 7
     \<and> snd (snd k') = concat (map (\<lambda>e. event_line (delta t0 e) (ev_pid e) (ev_name e)) (filter (wanted 0) (foreign 3 es)))"
proof -
  have f: "event_feed (kernel_sys 3) (\<lambda>k. kernel_ok 0 3 (fst k)) (\<lambda>k. fst (snd k)) (\<lambda>k. snd (snd k)) (w_fd \<lparr>w_mode = 0, w_fd = 5, w_window = 0\<rparr>) 3"
    by (rule kernel_feed.event_feed_axioms)
  show ?thesis using watcher_streams [OF f, of "(run_world forker, [], [])" 7] forker_feeds by (simp only: fst_conv snd_conv wopts.simps append_Nil) blast
qed

text \<open>
  C28: \<^verbatim>\<open>write_int\<close> writes the decimal notation of its argument, sign included, for every \<^verbatim>\<open>int\<close> but the
  smallest, of which it writes only the sign.
\<close>

theorem write_int_prints:
  assumes "event_feed S good got out fd pid" and "good k" and "- (2 ^ 31) \<le> n" and "n < 2 ^ 31"
  shows "\<exists>k'. write_int S fd n k = Ok (Val (), k') \<and> good k' \<and> got k' = got k
    \<and> out k' = out k @ (if n = - (2 ^ 31) then [45] else number_text 10 n)"
  using event_feed.emits_int [OF assms(1,3,4)] assms(2) by (auto simp: int_text_def)

theorem write_int_prints_witness:
  "\<exists>k'. write_int (kernel_sys 3) 1 (-120) (run_world forker, [], []) = Ok (Val (), k') \<and> snd (snd k') = map of_char ''-120''"
proof -
  have t: "number_text 10 (-120) = map of_char ''-120''" by code_simp
  show ?thesis
    using write_int_prints [OF kernel_feed.event_feed_axioms [of 3 0 1], of "(run_world forker, [], [])" "-120"] forker_feeds t by auto
qed

text \<open>
  C29: contextual mode goes silent: once \<open>MAX_EVENTS\<close> events have been recorded, no later event, fork or
  not, is printed or recorded, however many arrive: after \<open>n\<close> more rounds the program has received \<open>n\<close> more events, its
  buffer and its output are what they were, and it is ready for the next round.
\<close>

theorem watcher_context_full:
  assumes "event_feed S good got out (w_fd w) pid" and "good k" and "length buf = MAX_EVENTS"
  shows "\<exists>es k' t'. rounds (context_step S w pid) n (t, buf) k = Ok (Val (Next (t', buf)), k') \<and> good k'
    \<and> got k' = got k @ es \<and> length es = n \<and> out k' = out k"
  by (rule event_feed.context_rounds [OF assms])

theorem watcher_context_full_witness:
  "\<exists>es k' t'. rounds (context_step (kernel_sys 3) \<lparr>w_mode = 2, w_fd = 5, w_window = 10000\<rparr> 3) 2000
     (5000, replicate MAX_EVENTS (zero_event, 0)) (run_world forker, [], []) = Ok (Val (Next (t', replicate MAX_EVENTS (zero_event, 0))), k')
     \<and> fst (snd k') = es \<and> length es = 2000 \<and> snd (snd k') = []"
proof -
  have f: "event_feed (kernel_sys 3) (\<lambda>k. kernel_ok 0 3 (fst k)) (\<lambda>k. fst (snd k)) (\<lambda>k. snd (snd k)) (w_fd \<lparr>w_mode = 2, w_fd = 5, w_window = 10000\<rparr>) 3"
    by (rule kernel_feed.event_feed_axioms)
  show ?thesis
    using watcher_context_full [OF f, of "(run_world forker, [], [])" "replicate MAX_EVENTS (zero_event, 0)" 2000 5000] forker_feeds
    by (simp only: fst_conv snd_conv length_replicate append_Nil) blast
qed

end
