(* ===== verification/Xv6_Filters.thy ===== *)
theory Xv6_Filters
  imports Xv6_User
begin

text \<open>
  The programs that read their input through to the end: \<^verbatim>\<open>user/cat.c\<close>, \<^verbatim>\<open>user/wc.c\<close> and \<^verbatim>\<open>user/grep.c\<close> with its
  pattern matcher.
\<close>

section \<open>\<^verbatim>\<open>cat.c\<close>\<close>

definition cat_step :: "'k sys \<Rightarrow> int \<Rightarrow> unit \<Rightarrow> ((unit, unit) ctl, 'k) user" where
  "cat_step S fd _ =
     ubnd (s_read S fd 512) (\<lambda>(n, bs).
     if n > 0
     then ubnd (s_write S 1 (take (nat n) bs)) (\<lambda>r.
          if r \<noteq> n then ubnd (fprintf_u S 2 (''cat: write error'' @ [CHR 0x0A]) []) (\<lambda>_. uexit 1)
          else uret (Next ()))
     else if n < 0 then ubnd (fprintf_u S 2 (''cat: read error'' @ [CHR 0x0A]) []) (\<lambda>_. uexit 1)
     else uret (Done ()))"

definition cat :: "'k sys \<Rightarrow> int \<Rightarrow> (unit, 'k) user" where
  "cat S fd = uloop (cat_step S fd) ()"

definition cat_main :: "'k sys \<Rightarrow> u8 list list \<Rightarrow> (int, 'k) user" where
  "cat_main S argv =
     (if length argv \<le> 1 then ubnd (cat S 0) (\<lambda>_. uexit 0)
      else ubnd (ueach (\<lambda>a.
             ubnd (s_open S a (word_of_int O_RDONLY)) (\<lambda>fd.
             if fd < 0
             then ubnd (fprintf_u S 2 (''cat: cannot open %s'' @ [CHR 0x0A]) [VStr (Some a)]) (\<lambda>_. uexit 1)
             else ubnd (cat S fd) (\<lambda>_. ubnd (s_close S fd) (\<lambda>_. uret ())))) (drop 1 argv)) (\<lambda>_.
           uexit 0))"

section \<open>\<^verbatim>\<open>wc.c\<close>\<close>

record wcount =
  wc_l :: int
  wc_w :: int
  wc_c :: int
  wc_inword :: bool

definition blank_chars :: "u8 list" where
  "blank_chars = [32, 13, 9, 10, 11]"

definition wc_byte :: "u8 \<Rightarrow> wcount \<Rightarrow> wcount" where
  "wc_byte b s =
     (let s = s\<lparr>wc_c := wc_c s + 1\<rparr>;
          s = (if b = 10 then s\<lparr>wc_l := wc_l s + 1\<rparr> else s)
      in if strchr_u blank_chars b \<noteq> None then s\<lparr>wc_inword := False\<rparr>
         else if \<not> wc_inword s then s\<lparr>wc_w := wc_w s + 1, wc_inword := True\<rparr>
         else s)"

definition wc_step :: "'k sys \<Rightarrow> int \<Rightarrow> wcount \<Rightarrow> ((int \<times> wcount, wcount) ctl, 'k) user" where
  "wc_step S fd s =
     ubnd (s_read S fd 512) (\<lambda>(n, bs).
     uret (if n > 0 then Next (fold wc_byte (take (nat n) bs) s) else Done (n, s)))"

definition wc :: "'k sys \<Rightarrow> int \<Rightarrow> u8 list \<Rightarrow> (unit, 'k) user" where
  "wc S fd name =
     ubnd (uloop (wc_step S fd) \<lparr>wc_l = 0, wc_w = 0, wc_c = 0, wc_inword = False\<rparr>) (\<lambda>(n, s).
     if n < 0 then ubnd (printf_u S (''wc: read error'' @ [CHR 0x0A]) []) (\<lambda>_. uexit 1)
     else printf_u S (''%d %d %d %s'' @ [CHR 0x0A])
            [VWord (word_of_int (wc_l s)), VWord (word_of_int (wc_w s)), VWord (word_of_int (wc_c s)), VStr (Some name)])"

definition wc_main :: "'k sys \<Rightarrow> u8 list list \<Rightarrow> (int, 'k) user" where
  "wc_main S argv =
     (if length argv \<le> 1 then ubnd (wc S 0 []) (\<lambda>_. uexit 0)
      else ubnd (ueach (\<lambda>a.
             ubnd (s_open S a (word_of_int O_RDONLY)) (\<lambda>fd.
             if fd < 0
             then ubnd (printf_u S (''wc: cannot open %s'' @ [CHR 0x0A]) [VStr (Some a)]) (\<lambda>_. uexit 1)
             else ubnd (wc S fd a) (\<lambda>_. ubnd (s_close S fd) (\<lambda>_. uret ())))) (drop 1 argv)) (\<lambda>_.
           uexit 0))"

section \<open>\<^verbatim>\<open>grep.c\<close>\<close>

text \<open>The matcher: \<open>re\<close> and \<open>text\<close> are the bytes before the NUL, so that a test for NUL is one for the empty list.\<close>

function matchhere :: "u8 list \<Rightarrow> u8 list \<Rightarrow> bool"
  and matchstar :: "u8 \<Rightarrow> u8 list \<Rightarrow> u8 list \<Rightarrow> bool" where
  "matchhere re text =
     (case re of
        [] \<Rightarrow> True
      | r # re' \<Rightarrow>
          if arr_get re 1 = of_char CHR ''*'' then matchstar r (drop 1 re') text
          else if r = of_char CHR ''$'' \<and> re' = [] then text = []
          else (case text of
                  [] \<Rightarrow> False
                | t # text' \<Rightarrow> if r = of_char CHR ''.'' \<or> r = t then matchhere re' text' else False))"
| "matchstar c re text =
     (if matchhere re text then True
      else (case text of
              [] \<Rightarrow> False
            | t # text' \<Rightarrow> if t = c \<or> c = of_char CHR ''.'' then matchstar c re text' else False))"
  by pat_completeness auto
termination
  by (relation "measures [\<lambda>x. case x of Inl (re, text) \<Rightarrow> length re | Inr (c, re, text) \<Rightarrow> length re,
      \<lambda>x. case x of Inl (re, text) \<Rightarrow> length text | Inr (c, re, text) \<Rightarrow> length text,
      \<lambda>x. case x of Inl _ \<Rightarrow> 0 | Inr _ \<Rightarrow> 1]") auto

declare matchhere.simps [simp del] matchstar.simps [simp del]

fun match_from :: "u8 list \<Rightarrow> u8 list \<Rightarrow> bool" where
  "match_from re text =
     (if matchhere re text then True else case text of [] \<Rightarrow> False | _ # text' \<Rightarrow> match_from re text')"

declare match_from.simps [simp del]

definition match :: "u8 list \<Rightarrow> u8 list \<Rightarrow> bool" where
  "match re text = (if arr_get re 0 = of_char CHR ''^'' then matchhere (drop 1 re) text else match_from re text)"

text \<open>The lines in the buffer from \<open>p\<close> on; the result is what is left behind the last newline.\<close>

definition grep_line :: "'k sys \<Rightarrow> u8 list \<Rightarrow> u8 list \<Rightarrow> ((u8 list, u8 list) ctl, 'k) user" where
  "grep_line S pattern p =
     (case strchr_u p 10 of
        None \<Rightarrow> uret (Done p)
      | Some q \<Rightarrow>
          ubnd (if match pattern (take q p) then ubnd (s_write S 1 (take (q + 1) p)) (\<lambda>_. uret ()) else uret ()) (\<lambda>_.
          uret (Next (drop (q + 1) p))))"

definition grep_step :: "'k sys \<Rightarrow> u8 list \<Rightarrow> int \<Rightarrow> u8 list \<Rightarrow> ((unit, u8 list) ctl, 'k) user" where
  "grep_step S pattern fd buf =
     ubnd (s_read S fd (1024 - int (length buf) - 1)) (\<lambda>(n, bs).
     if n > 0
     then ubnd (uloop (grep_line S pattern) (buf @ take (nat n) bs)) (\<lambda>p. uret (Next p))
     else uret (Done ()))"

definition grep :: "'k sys \<Rightarrow> u8 list \<Rightarrow> int \<Rightarrow> (unit, 'k) user" where
  "grep S pattern fd = uloop (grep_step S pattern fd) []"

definition grep_main :: "'k sys \<Rightarrow> u8 list list \<Rightarrow> (int, 'k) user" where
  "grep_main S argv =
     (if length argv \<le> 1
      then ubnd (fprintf_u S 2 (''usage: grep pattern [file ...]'' @ [CHR 0x0A]) []) (\<lambda>_. uexit 1)
      else let pattern = argv ! 1
           in if length argv \<le> 2 then ubnd (grep S pattern 0) (\<lambda>_. uexit 0)
              else ubnd (ueach (\<lambda>a.
                     ubnd (s_open S a (word_of_int O_RDONLY)) (\<lambda>fd.
                     if fd < 0
                     then ubnd (printf_u S (''grep: cannot open %s'' @ [CHR 0x0A]) [VStr (Some a)]) (\<lambda>_. uexit 1)
                     else ubnd (grep S pattern fd) (\<lambda>_. ubnd (s_close S fd) (\<lambda>_. uret ())))) (drop 2 argv)) (\<lambda>_.
                   uexit 0))"

section \<open>What a pattern means\<close>

text \<open>A pattern is a list of items: one character, any number of a character, the end of the line.\<close>

datatype item = One u8 | Many u8 | End_of_line

fun items :: "u8 list \<Rightarrow> item list" where
  "items [] = []"
| "items [c] = (if c = of_char CHR ''$'' then [End_of_line] else [One c])"
| "items (c # d # re) = (if d = of_char CHR ''*'' then Many c # items re else One c # items (d # re))"

definition stands_for :: "u8 \<Rightarrow> u8 \<Rightarrow> bool" where
  "stands_for c x \<longleftrightarrow> c = of_char CHR ''.'' \<or> x = c"

fun piece :: "item \<Rightarrow> u8 list \<Rightarrow> u8 list \<Rightarrow> bool" where
  "piece (One c) w rest \<longleftrightarrow> (\<exists>x. w = [x] \<and> stands_for c x)"
| "piece (Many c) w rest \<longleftrightarrow> (\<forall>x\<in>set w. stands_for c x)"
| "piece End_of_line w rest \<longleftrightarrow> w = [] \<and> rest = []"

inductive begins :: "item list \<Rightarrow> u8 list \<Rightarrow> bool" where
  begins_nil: "begins [] text"
| begins_cons: "piece i w text \<Longrightarrow> begins is text \<Longrightarrow> begins (i # is) (w @ text)"

inductive_simps begins_simps: "begins [] text" "begins (i # is) text"

lemma begins_one: "begins (One c # is) s \<longleftrightarrow> (\<exists>x xs. s = x # xs \<and> stands_for c x \<and> begins is xs)"
  by (auto simp: begins_simps) (metis append_Cons append_Nil)

lemma begins_end: "begins (End_of_line # is) s \<longleftrightarrow> s = [] \<and> begins is []"
  by (auto simp: begins_simps)

lemma begins_many:
  "begins (Many c # is) s \<longleftrightarrow>
     begins is s \<or> (\<exists>x xs. s = x # xs \<and> stands_for c x \<and> begins (Many c # is) xs)"
proof
  assume "begins (Many c # is) s"
  then obtain w rest where w: "s = w @ rest" "\<forall>x\<in>set w. stands_for c x" "begins is rest"
    by (auto simp: begins_simps)
  show "begins is s \<or> (\<exists>x xs. s = x # xs \<and> stands_for c x \<and> begins (Many c # is) xs)"
  proof (cases w)
    case (Cons x w')
    with w have "begins (Many c # is) (w' @ rest)" by (intro begins_cons) auto
    with w Cons show ?thesis by auto
  qed (use w in auto)
next
  assume "begins is s \<or> (\<exists>x xs. s = x # xs \<and> stands_for c x \<and> begins (Many c # is) xs)"
  then show "begins (Many c # is) s"
  proof (elim disjE exE conjE)
    assume "begins is s"
    with begins_cons [of "Many c" "[]" s "is"] show ?thesis by simp
  next
    fix x xs assume x: "s = x # xs" "stands_for c x" and "begins (Many c # is) xs"
    then obtain w rest where w: "xs = w @ rest" "\<forall>x\<in>set w. stands_for c x" "begins is rest"
      by (auto simp: begins_simps)
    with x begins_cons [of "Many c" "x # w" rest "is"] show ?thesis by simp
  qed
qed

lemma matchhere_begins:
  "matchhere re s \<longleftrightarrow> begins (items re) s"
  "matchstar c re s \<longleftrightarrow> begins (Many c # items re) s"
proof (induction re s and c re s rule: matchhere_matchstar.induct)
  case (1 re s)
  show ?case
  proof (cases re rule: items.cases)
    case 1
    then show ?thesis by (simp add: matchhere.simps begins_simps)
  next
    case (2 c)
    then show ?thesis using "1.IH"
      by (cases s) (auto simp: matchhere.simps [of "[c]"] arr_get_def begins_one begins_end begins_simps(1) stands_for_def)
  next
    case (3 c d re')
    show ?thesis
    proof (cases "d = of_char CHR ''*''")
      case True
      with 3 "1.IH"(1) [OF 3] show ?thesis by (subst matchhere.simps) (simp add: arr_get_def)
    next
      case False
      with 3 "1.IH"(2) [OF 3] show ?thesis
        by (cases s) (auto simp: matchhere.simps [of "c # d # re'"] arr_get_def begins_one stands_for_def)
    qed
  qed
next
  case (2 c re s)
  show ?case
  proof (cases s)
    case Nil
    with "2.IH"(1) show ?thesis by (subst matchstar.simps, subst begins_many) simp
  next
    case (Cons x xs)
    with 2 show ?thesis by (subst matchstar.simps, subst begins_many) (auto simp: stands_for_def)
  qed
qed

text \<open>
  C33: the matcher of \<^verbatim>\<open>grep\<close> decides exactly the meaning of a pattern: a pattern that starts with a caret
  matches a line whose beginning splits into pieces for its items, any other pattern a line with a
  suffix whose beginning does, where a dot stands for any character, a star for any number of the
  character before it and a final dollar for the end of the line.
\<close>

theorem match_meaning:
  "match re s \<longleftrightarrow>
     (case re of
        c # re' \<Rightarrow> if c = of_char CHR ''^'' then begins (items re') s
                  else (\<exists>before rest. s = before @ rest \<and> begins (items re) rest)
      | [] \<Rightarrow> True)"
proof -
  have from_eq: "match_from re s \<longleftrightarrow> (\<exists>before rest. s = before @ rest \<and> begins (items re) rest)" for re s
  proof (induction s)
    case Nil
    then show ?case by (simp add: match_from.simps matchhere_begins)
  next
    case (Cons x xs)
    have "(\<exists>before rest. x # xs = before @ rest \<and> begins (items re) rest) \<longleftrightarrow>
        begins (items re) (x # xs) \<or> (\<exists>before rest. xs = before @ rest \<and> begins (items re) rest)"
      by (auto simp: Cons_eq_append_conv)
    with Cons show ?case by (simp add: match_from.simps [of re "x # xs"] matchhere_begins)
  qed
  show ?thesis
    by (cases re) (auto simp: match_def arr_get_def matchhere_begins from_eq begins_simps)
qed

section \<open>Reading to the end\<close>

text \<open>
  What the filters rely on: a read returns some of the next bytes of the input, at least one
  before its end, and a write appends to the output.
\<close>

locale byte_feed =
  fixes S :: "'k sys" and good :: "'k \<Rightarrow> bool" and inp :: "'k \<Rightarrow> u8 list" and out :: "'k \<Rightarrow> u8 list" and fd :: int
  assumes read_some: "good k \<Longrightarrow> 0 < n \<Longrightarrow> \<exists>m k'. s_read S fd n k = Ok (Val (int m, take m (inp k)), k') \<and> good k'
      \<and> m \<le> length (inp k) \<and> int m \<le> n \<and> (m = 0 \<longleftrightarrow> inp k = []) \<and> inp k' = drop m (inp k) \<and> out k' = out k"
    and write_all: "good k \<Longrightarrow> \<exists>k'. s_write S 1 bs k = Ok (Val (int (length bs)), k') \<and> good k'
      \<and> inp k' = inp k \<and> out k' = out k @ bs"
begin

abbreviation writes :: "u8 list \<Rightarrow> (unit, 'k) user \<Rightarrow> bool" where
  "writes bs m \<equiv> \<forall>k. good k \<longrightarrow> (\<exists>k'. m k = Ok (Val (), k') \<and> good k' \<and> inp k' = inp k \<and> out k' = out k @ bs)"

lemma writes_ret: "writes [] (uret ())"
  by (simp add: uret_def)

lemma writes_bnd:
  assumes "writes bs m" "writes cs m'"
  shows "writes (bs @ cs) (ubnd m (\<lambda>_. m'))"
proof (intro allI impI)
  fix k assume "good k"
  with assms(1) obtain k1 where k1: "m k = Ok (Val (), k1)" "good k1" "inp k1 = inp k" "out k1 = out k @ bs" by blast
  with assms(2) obtain k2 where "m' k1 = Ok (Val (), k2)" "good k2" "inp k2 = inp k1" "out k2 = out k1 @ cs" by blast
  with k1 show "\<exists>k'. ubnd m (\<lambda>_. m') k = Ok (Val (), k') \<and> good k' \<and> inp k' = inp k \<and> out k' = out k @ bs @ cs"
    by (simp add: ubnd_def)
qed

lemma writes_write: "writes bs (ubnd (s_write S 1 bs) (\<lambda>_. uret ()))"
proof (intro allI impI)
  fix k assume "good k"
  from write_all [OF this, of bs] obtain k1 where
    "s_write S 1 bs k = Ok (Val (int (length bs)), k1)" "good k1" "inp k1 = inp k" "out k1 = out k @ bs" by blast
  then show "\<exists>k'. ubnd (s_write S 1 bs) (\<lambda>_. uret ()) k = Ok (Val (), k') \<and> good k' \<and> inp k' = inp k \<and> out k' = out k @ bs"
    by (simp add: ubnd_def uret_def)
qed

lemma writes_each: "(\<And>x. x \<in> set xs \<Longrightarrow> writes (g x) (f x)) \<Longrightarrow> writes (concat (map g xs)) (ueach f xs)"
proof (induction xs)
  case (Cons x xs)
  have "writes (g x) (f x)" "writes (concat (map g xs)) (ueach f xs)" using Cons by auto
  from writes_bnd [OF this] show ?case by simp
qed (simp add: uret_def)

lemma cat_copies: "good k \<Longrightarrow> \<exists>k'. cat S fd k = Ok (Val (), k') \<and> good k' \<and> inp k' = [] \<and> out k' = out k @ inp k"
  unfolding cat_def
proof (induction "length (inp k)" arbitrary: k rule: less_induct)
  case less
  from read_some [OF less.prems, of 512] obtain m k1 where
    k1: "s_read S fd 512 k = Ok (Val (int m, take m (inp k)), k1)" "good k1" "m \<le> length (inp k)" "m = 0 \<longleftrightarrow> inp k = []"
      "inp k1 = drop m (inp k)" "out k1 = out k" by auto
  show ?case
  proof (cases "m = 0")
    case True
    then show ?thesis using k1 by (subst uloop_unfold) (simp add: cat_step_def ubnd_def uret_def)
  next
    case False
    obtain k2 where k2: "s_write S 1 (take m (inp k)) k1 = Ok (Val (int m), k2)" "good k2" "inp k2 = inp k1"
      "out k2 = out k1 @ take m (inp k)" using write_all [OF k1(2), of "take m (inp k)"] k1(3) by auto
    have "length (inp k2) < length (inp k)" using False k1(3-5) k2(3) by auto
    from less.hyps [OF this k2(2)] obtain k3 where k3: "uloop (cat_step S fd) () k2 = Ok (Val (), k3)" "good k3" "inp k3 = []"
      "out k3 = out k2 @ inp k2" by blast
    have "cat_step S fd () k = Ok (Val (Next ()), k2)" using False k1(1) k2(1) by (simp add: cat_step_def ubnd_def uret_def)
    then have "uloop (cat_step S fd) () k = uloop (cat_step S fd) () k2" by (subst uloop_unfold) (simp add: ubnd_def)
    with k1 k2 k3 show ?thesis by simp
  qed
qed

lemma wc_reads:
  "good k \<Longrightarrow> \<exists>k'. uloop (wc_step S fd) c k = Ok (Val (0, fold wc_byte (inp k) c), k') \<and> good k' \<and> inp k' = [] \<and> out k' = out k"
proof (induction "length (inp k)" arbitrary: k c rule: less_induct)
  case less
  from read_some [OF less.prems, of 512] obtain m k1 where
    k1: "s_read S fd 512 k = Ok (Val (int m, take m (inp k)), k1)" "good k1" "m \<le> length (inp k)" "m = 0 \<longleftrightarrow> inp k = []"
      "inp k1 = drop m (inp k)" "out k1 = out k" by auto
  show ?case
  proof (cases "m = 0")
    case True
    then show ?thesis using k1 by (subst uloop_unfold) (simp add: wc_step_def ubnd_def uret_def)
  next
    case False
    let ?c = "fold wc_byte (take m (inp k)) c"
    have "length (inp k1) < length (inp k)" using False k1(3-5) by auto
    from less.hyps [OF this k1(2), of ?c] obtain k3 where k3:
      "uloop (wc_step S fd) ?c k1 = Ok (Val (0, fold wc_byte (inp k1) ?c), k3)" "good k3" "inp k3 = []" "out k3 = out k1" by blast
    have "wc_step S fd c k = Ok (Val (Next ?c), k1)" using False k1(1,3) by (simp add: wc_step_def ubnd_def uret_def)
    then have "uloop (wc_step S fd) c k = uloop (wc_step S fd) ?c k1" by (subst uloop_unfold) (simp add: ubnd_def)
    moreover have "fold wc_byte (inp k1) ?c = fold wc_byte (inp k) c"
      unfolding k1(5) by (simp flip: fold_append [THEN fun_cong, unfolded comp_def])
    ultimately show ?thesis using k1(6) k3 by simp
  qed
qed

end

section \<open>Formatted output\<close>

text \<open>What a format and its arguments may be printed as: \<^verbatim>\<open>%d\<close> as the decimal notation of the number.\<close>

inductive formats :: "string \<Rightarrow> va_list \<Rightarrow> u8 list \<Rightarrow> bool" where
  formats_nil: "formats [] ap []"
| formats_char: "c \<noteq> CHR ''%'' \<Longrightarrow> formats fmt ap bs \<Longrightarrow> formats (c # fmt) ap (of_char c # bs)"
| formats_int: "formats fmt ap bs \<Longrightarrow>
    formats (CHR ''%'' # CHR ''d'' # fmt) (VWord x # ap) (number_text 10 (sint (va_int x)) @ bs)"
| formats_str: "formats fmt ap bs \<Longrightarrow>
    formats (CHR ''%'' # CHR ''s'' # fmt) (VStr (Some s) # ap) (cstring s @ bs)"

inductive_simps formats_simps: "formats [] ap bs" "formats (c # fmt) ap bs"

text \<open>A format with the arguments it needs.\<close>

fun fmt_ok :: "string \<Rightarrow> va_list \<Rightarrow> bool" where
  "fmt_ok [] ap = True"
| "fmt_ok (c # fmt) ap =
     (if c \<noteq> CHR ''%'' then fmt_ok fmt ap
      else case fmt of
        [] \<Rightarrow> False
      | d # fmt \<Rightarrow> (case ap of
            VWord x # ap \<Rightarrow> d = CHR ''d'' \<and> fmt_ok fmt ap
          | VStr (Some s) # ap \<Rightarrow> d = CHR ''s'' \<and> fmt_ok fmt ap
          | _ \<Rightarrow> False))"

lemma udigits_decimal: "list_all (\<lambda>d. udigits ! d = digits ! d) [0..<10]"
  by code_simp

lemma uprintint_step_decimal: "uprintint_step 10 = printint_step 10"
proof -
  have "udigits ! unat (x mod 10) = digits ! unat (x mod 10)" for x :: u64
    using udigits_decimal by (simp add: list_all_iff unat_mod_distrib)
  then show ?thesis by (simp add: uprintint_step_def printint_step_def)
qed

lemma uprintint_buf_decimal: "uprintint_buf x 10 True = printint_buf x 10 True"
  by (simp add: uprintint_buf_def printint_buf_def uprintint_step_decimal Let_def)

context byte_feed
begin

lemma writes_chars: "writes bs (ueach (putc_u S 1) bs)"
proof -
  have "writes (concat (map (\<lambda>x. [x]) bs)) (ueach (putc_u S 1) bs)"
    by (rule writes_each) (use writes_write in \<open>simp add: putc_u_def\<close>)
  then show ?thesis by simp
qed

lemma writes_int: "writes (number_text 10 (sint x)) (printint_u S 1 x 10 True)"
proof -
  have "printint_buf x 10 True = Ok (rev (number_text 10 (sint x)))" using printint_buf_spec(1) [of 10 "sint x" True x] by simp
  then have "printint_u S 1 x 10 True = ueach (putc_u S 1) (number_text 10 (sint x))"
    by (intro ext) (simp add: printint_u_def uprintint_buf_decimal)
  with writes_chars [of "number_text 10 (sint x)"] show ?thesis by simp
qed

lemma vprintf_int:
  assumes "formats fmt ap bs" "writes bs (vprintf_u S 1 fmt ap)"
  shows "\<exists>cs. formats (CHR ''%'' # CHR ''d'' # fmt) (VWord x # ap) cs
    \<and> writes cs (vprintf_u S 1 (CHR ''%'' # CHR ''d'' # fmt) (VWord x # ap))"
proof -
  let ?ds = "number_text 10 (sint (va_int x))"
  have v: "va_get (va_word (VWord x # ap)) = uret (x, ap)" by (rule ext) (simp add: va_get_def uret_def)
  have "vprintf_u S 1 (CHR ''%'' # CHR ''d'' # fmt) (VWord x # ap) =
      ubnd (printint_u S 1 (va_int x) 10 True) (\<lambda>_. vprintf_u S 1 fmt ap)"
    unfolding vprintf_u_def by (subst uloop_unfold) (simp add: vprintf_step_def vprintf_conv_def v del: va_word.simps)
  then have "writes (?ds @ bs) (vprintf_u S 1 (CHR ''%'' # CHR ''d'' # fmt) (VWord x # ap))"
    using writes_bnd [OF writes_int assms(2)] by (simp only:)
  then show ?thesis using formats_int [OF assms(1)] by blast
qed

lemma vprintf_str:
  assumes "formats fmt ap bs" "writes bs (vprintf_u S 1 fmt ap)"
  shows "\<exists>cs. formats (CHR ''%'' # CHR ''s'' # fmt) (VStr (Some s) # ap) cs
    \<and> writes cs (vprintf_u S 1 (CHR ''%'' # CHR ''s'' # fmt) (VStr (Some s) # ap))"
proof -
  have v: "va_get (va_str (VStr (Some s) # ap)) = uret (Some s, ap)" by (rule ext) (simp add: va_get_def uret_def)
  have "vprintf_u S 1 (CHR ''%'' # CHR ''s'' # fmt) (VStr (Some s) # ap) =
      ubnd (ueach (putc_u S 1) (cstring s)) (\<lambda>_. vprintf_u S 1 fmt ap)"
    unfolding vprintf_u_def
    by (subst uloop_unfold) (simp add: vprintf_step_def vprintf_conv_def v del: va_str.simps)
  then have "writes (cstring s @ bs) (vprintf_u S 1 (CHR ''%'' # CHR ''s'' # fmt) (VStr (Some s) # ap))"
    using writes_bnd [OF writes_chars assms(2)] by (simp only:)
  then show ?thesis using formats_str [OF assms(1)] by blast
qed

lemma vprintf_char:
  assumes "formats fmt ap bs" "writes bs (vprintf_u S 1 fmt ap)" "c \<noteq> CHR ''%''"
  shows "\<exists>cs. formats (c # fmt) ap cs \<and> writes cs (vprintf_u S 1 (c # fmt) ap)"
proof -
  have "vprintf_u S 1 (c # fmt) ap = ubnd (putc_u S 1 (of_char c)) (\<lambda>_. vprintf_u S 1 fmt ap)"
    unfolding vprintf_u_def by (subst uloop_unfold) (use assms(3) in \<open>simp add: vprintf_step_def\<close>)
  moreover have "writes [of_char c] (putc_u S 1 (of_char c))" using writes_write by (simp only: putc_u_def)
  ultimately have "writes ([of_char c] @ bs) (vprintf_u S 1 (c # fmt) ap)"
    using writes_bnd [OF _ assms(2)] by (simp only:)
  then show ?thesis using formats_char [OF assms(3,1)] by auto
qed

lemma vprintf_writes: "fmt_ok fmt ap \<Longrightarrow> \<exists>bs. formats fmt ap bs \<and> writes bs (vprintf_u S 1 fmt ap)"
proof (induction "length fmt" arbitrary: fmt ap rule: less_induct)
  case less
  show ?case
  proof (cases fmt)
    case Nil
    have "vprintf_u S 1 [] ap = uret ()"
      unfolding vprintf_u_def by (subst uloop_unfold) (simp add: vprintf_step_def)
    then have "writes [] (vprintf_u S 1 [] ap)" using writes_ret by (simp only:)
    with Nil show ?thesis using formats_nil by blast
  next
    case (Cons c fmt1)
    show ?thesis
    proof (cases "c = CHR ''%''")
      case False
      then obtain bs where "formats fmt1 ap bs" "writes bs (vprintf_u S 1 fmt1 ap)"
        using less.hyps [of fmt1 ap] less.prems Cons by auto
      from vprintf_char [OF this False] show ?thesis unfolding Cons .
    next
      case True
      with less.prems Cons consider
        (int) x ap' fmt2 where "fmt1 = CHR ''d'' # fmt2" "ap = VWord x # ap'" "fmt_ok fmt2 ap'"
        | (str) s ap' fmt2 where "fmt1 = CHR ''s'' # fmt2" "ap = VStr (Some s) # ap'" "fmt_ok fmt2 ap'"
        by (auto split: list.splits va.splits option.splits)
      then show ?thesis
      proof cases
        case int
        then obtain bs where "formats fmt2 ap' bs" "writes bs (vprintf_u S 1 fmt2 ap')"
          using less.hyps [of fmt2 ap'] Cons by auto
        from vprintf_int [OF this] show ?thesis unfolding Cons True int(1,2) .
      next
        case str
        then obtain bs where "formats fmt2 ap' bs" "writes bs (vprintf_u S 1 fmt2 ap')"
          using less.hyps [of fmt2 ap'] Cons by auto
        from vprintf_str [OF this] show ?thesis unfolding Cons True str(1,2) .
      qed
    qed
  qed
qed

end

section \<open>Counting\<close>

definition is_blank :: "u8 \<Rightarrow> bool" where
  "is_blank b \<longleftrightarrow> b \<in> set blank_chars"

text \<open>A word starts where a character that is not blank follows a blank or nothing.\<close>

definition word_starts :: "u8 list \<Rightarrow> nat list" where
  "word_starts s = filter (\<lambda>i. \<not> is_blank (s ! i) \<and> (i = 0 \<or> is_blank (s ! (i - 1)))) [0..<length s]"

lemma strchr_blank: "strchr_u blank_chars b \<noteq> None \<longleftrightarrow> is_blank b"
  by (simp add: is_blank_def blank_chars_def)

lemma word_starts_snoc:
  "word_starts (s @ [b]) = word_starts s @ (if \<not> is_blank b \<and> (s = [] \<or> is_blank (last s)) then [length s] else [])"
proof -
  have "filter (\<lambda>i. \<not> is_blank ((s @ [b]) ! i) \<and> (i = 0 \<or> is_blank ((s @ [b]) ! (i - 1)))) [0..<length s] = word_starts s"
    unfolding word_starts_def by (rule filter_cong) (auto simp: nth_append)
  then have "word_starts (s @ [b]) = word_starts s @ filter (\<lambda>i. \<not> is_blank ((s @ [b]) ! i) \<and>
      (i = 0 \<or> is_blank ((s @ [b]) ! (i - 1)))) [length s]"
    by (simp add: word_starts_def [of "s @ [b]"])
  then show ?thesis by (cases "s = []") (simp_all add: nth_append last_conv_nth)
qed

lemma wc_bytes:
  "fold wc_byte s \<lparr>wc_l = 0, wc_w = 0, wc_c = 0, wc_inword = False\<rparr> =
     \<lparr>wc_l = int (count_list s 10), wc_w = int (length (word_starts s)), wc_c = int (length s),
      wc_inword = (s \<noteq> [] \<and> \<not> is_blank (last s))\<rparr>"
proof (induction s rule: rev_induct)
  case Nil
  then show ?case by (simp add: word_starts_def)
next
  case (snoc b s)
  have "is_blank 10" by (simp add: is_blank_def blank_chars_def)
  with snoc show ?case by (auto simp: wc_byte_def Let_def strchr_blank word_starts_snoc simp del: not_None_eq)
qed

section \<open>Lines\<close>

text \<open>The lines of a text that end in a newline, those among them that match, and the rest.\<close>

definition hits :: "u8 list \<Rightarrow> u8 list \<Rightarrow> u8 list" where
  "hits pattern s = concat (map (\<lambda>l. l @ [10]) (filter (match pattern) (butlast (split_on 10 s))))"

definition unfinished :: "u8 list \<Rightarrow> u8 list" where
  "unfinished s = last (split_on 10 s)"

lemma hits_append: "hits pattern (s @ t) = hits pattern s @ hits pattern (unfinished s @ t)"
  using split_on_nonempty [of 10 "unfinished s @ t"]
  by (simp add: hits_def unfinished_def split_on_append [of 10 s t] butlast_append)

lemma hits_line:
  assumes "10 \<notin> set l"
  shows "hits pattern (l @ 10 # s) = (if match pattern l then l @ [10] else []) @ hits pattern s"
    "unfinished (l @ 10 # s) = unfinished s"
proof -
  have "split_on 10 (l @ 10 # s) = l # split_on 10 s"
    using assms by (induction l) auto
  then show "hits pattern (l @ 10 # s) = (if match pattern l then l @ [10] else []) @ hits pattern s"
    "unfinished (l @ 10 # s) = unfinished s"
    using split_on_nonempty [of 10 s] by (simp_all add: hits_def unfinished_def)
qed

lemma strchr_newline:
  assumes "0 \<notin> set p"
  shows "case strchr_u p 10 of None \<Rightarrow> 10 \<notin> set p
    | Some q \<Rightarrow> p = take q p @ 10 # drop (q + 1) p \<and> 10 \<notin> set (take q p)"
  using assms by (induction p) (auto split: option.splits)

context byte_feed
begin

lemma grep_lines:
  assumes "0 \<notin> set p"
  shows "good k \<Longrightarrow> \<exists>k'. uloop (grep_line S pattern) p k = Ok (Val (unfinished p), k') \<and> good k' \<and> inp k' = inp k
    \<and> out k' = out k @ hits pattern p"
  using assms
proof (induction "length p" arbitrary: p k rule: less_induct)
  case less
  show ?case
  proof (cases "strchr_u p 10")
    case None
    then have "split_on 10 p = [p]" using strchr_newline [OF less.prems(2)] by (simp add: split_on_single)
    then show ?thesis using None less.prems(1)
      by (subst uloop_unfold) (simp add: grep_line_def unfinished_def hits_def uret_def)
  next
    case (Some q)
    define l r where lr: "l = take q p" "r = drop (q + 1) p"
    have p: "p = l @ 10 # r" "10 \<notin> set l" using strchr_newline [OF less.prems(2)] Some lr by auto
    have "length p = length l + 1 + length r" using p(1) by simp
    then have "length l = q" using lr by simp
    then have q: "take (q + 1) p = l @ [10]" by (subst p(1)) simp
    let ?m = "if match pattern l then ubnd (s_write S 1 (l @ [10])) (\<lambda>_. uret ()) else uret ()"
    have "writes (if match pattern l then l @ [10] else []) ?m" using writes_write writes_ret by auto
    with less.prems(1) obtain k1 where k1: "?m k = Ok (Val (), k1)" "good k1" "inp k1 = inp k"
      "out k1 = out k @ (if match pattern l then l @ [10] else [])" by blast
    have "0 \<notin> set r" "length r < length p" using less.prems(2) p(1) by auto
    from less.hyps [OF this(2) k1(2) this(1)] obtain k2 where k2: "uloop (grep_line S pattern) r k1 = Ok (Val (unfinished r), k2)"
      "good k2" "inp k2 = inp k1" "out k2 = out k1 @ hits pattern r" by blast
    have "grep_line S pattern p = ubnd ?m (\<lambda>_. uret (Next r))" by (simp only: grep_line_def Some option.case q lr)
    then have "grep_line S pattern p k = Ok (Val (Next r), k1)" using k1(1) by (simp only: ubnd_def) (simp add: uret_def)
    then have "uloop (grep_line S pattern) p k = uloop (grep_line S pattern) r k1"
      by (subst uloop_unfold) (simp add: ubnd_def)
    with k1 k2 hits_line(1) [OF p(2), of pattern r] hits_line(2) [OF p(2), of r] p(1) show ?thesis by simp
  qed
qed

lemma grep_reads:
  assumes "good k" "0 \<notin> set (buf @ inp k)" "10 \<notin> set buf" "\<forall>l\<in>set (split_on 10 (buf @ inp k)). length l < 1023"
  shows "\<exists>k'. uloop (grep_step S pattern fd) buf k = Ok (Val (), k') \<and> good k' \<and> inp k' = [] \<and> out k' = out k @ hits pattern (buf @ inp k)"
  using assms
proof (induction "length (inp k)" arbitrary: buf k rule: less_induct)
  case less
  have sp: "split_on 10 buf = [buf]" using less.prems(3) by (rule split_on_single)
  then have "hits pattern buf = []" by (simp add: hits_def)
  have "length buf < 1023"
  proof -
    have "length buf \<le> length (hd (split_on 10 (buf @ inp k)))"
      using less.prems(3) by (subst split_on_first) (simp add: takeWhile_append)
    moreover have "hd (split_on 10 (buf @ inp k)) \<in> set (split_on 10 (buf @ inp k))" using split_on_nonempty by (rule hd_in_set)
    ultimately show ?thesis using less.prems(4) by (meson le_less_trans)
  qed
  then obtain m k1 where k1: "s_read S fd (1024 - int (length buf) - 1) k = Ok (Val (int m, take m (inp k)), k1)" "good k1"
    "m \<le> length (inp k)" "m = 0 \<longleftrightarrow> inp k = []" "inp k1 = drop m (inp k)" "out k1 = out k"
    using read_some [OF less.prems(1), of "1024 - int (length buf) - 1"] by auto
  show ?case
  proof (cases "m = 0")
    case True
    then show ?thesis using k1 \<open>hits pattern buf = []\<close>
      by (subst uloop_unfold) (simp add: grep_step_def ubnd_def uret_def)
  next
    case False
    let ?b = "buf @ take m (inp k)"
    have whole: "buf @ inp k = ?b @ inp k1" using k1(5) by simp
    have "0 \<notin> set ?b" using less.prems(2) set_take_subset [of m "inp k"] by auto
    from grep_lines [OF this k1(2)] obtain k2 where k2: "uloop (grep_line S pattern) ?b k1 = Ok (Val (unfinished ?b), k2)"
      "good k2" "inp k2 = inp k1" "out k2 = out k1 @ hits pattern ?b" by blast
    have "grep_step S pattern fd buf k = Ok (Val (Next (unfinished ?b)), k2)"
      using False k1(1,3) k2(1) by (simp add: grep_step_def ubnd_def uret_def)
    then have run: "uloop (grep_step S pattern fd) buf k = uloop (grep_step S pattern fd) (unfinished ?b) k2"
      by (subst uloop_unfold) (simp add: ubnd_def)
    have last: "unfinished ?b \<in> set (split_on 10 ?b)" unfolding unfinished_def using split_on_nonempty by (rule last_in_set)
    have nul: "0 \<notin> set (unfinished ?b @ inp k2)"
      using set_split_on [OF last] less.prems(2) set_take_subset [of m "inp k"] set_drop_subset [of m "inp k"] k1(5) k2(3) by auto
    have lines: "split_on 10 (buf @ inp k) = butlast (split_on 10 ?b) @ split_on 10 (unfinished ?b @ inp k2)"
      unfolding whole k2(3) unfinished_def by (rule split_on_append)
    have short: "\<forall>l\<in>set (split_on 10 (unfinished ?b @ inp k2)). length l < 1023"
      using less.prems(4) unfolding lines by simp
    have "length (inp k2) < length (inp k)" using False k1(3-5) k2(3) by auto
    from less.hyps [OF this k2(2) nul notin_split_on [OF last]] short obtain k3 where k3:
      "uloop (grep_step S pattern fd) (unfinished ?b) k2 = Ok (Val (), k3)" "good k3" "inp k3 = []"
      "out k3 = out k2 @ hits pattern (unfinished ?b @ inp k2)" by blast
    have "hits pattern (buf @ inp k) = hits pattern ?b @ hits pattern (unfinished ?b @ inp k2)"
      unfolding whole k2(3) by (rule hits_append)
    with run k1(6) k2(4) k3 show ?thesis by simp
  qed
qed

end

lemma sint_va_int: "- (2 ^ 31) \<le> n \<Longrightarrow> n < 2 ^ 31 \<Longrightarrow> sint (va_int (word_of_int n)) = n"
proof -
  assume n: "- (2 ^ 31) \<le> n" "n < 2 ^ 31"
  have "ucast (word_of_int n :: u64) = (word_of_int n :: u32)" by transfer simp
  then have "sint (va_int (word_of_int n)) = sint (scast (word_of_int n :: u32) :: u64)" by (simp add: va_int_def)
  also have "\<dots> = sint (word_of_int n :: u32)" by (rule sint_up_scast) (simp add: is_up_def source_size_def target_size_def word_size)
  also have "\<dots> = n" using n by (intro sint_word_of_int32) (simp add: fits32_def)
  finally show ?thesis .
qed

section \<open>Filters behind a pipe\<close>

text \<open>
  A filter that reads from a pipe of the kernel: a read of the empty pipe lets the writer put in what
  fits of the bytes it still has, then takes what is there.
\<close>

fun pipe_fill :: "u8 list \<Rightarrow> pipe \<Rightarrow> u8 list \<times> pipe" where
  "pipe_fill [] p = ([], p)"
| "pipe_fill (b # bs) p = (if pipe_full p then (b # bs, p) else pipe_fill bs (pipe_put b p))"

primrec pipe_drain :: "nat \<Rightarrow> pipe \<Rightarrow> u8 list \<times> pipe" where
  "pipe_drain 0 p = ([], p)"
| "pipe_drain (Suc n) p =
     (if pi_nread p = pi_nwrite p then ([], p)
      else let (bs, p') = pipe_drain n (pipe_pop p) in (pipe_next p # bs, p'))"

definition pipe_sys :: "(pipe \<times> u8 list \<times> u8 list) sys" where
  "pipe_sys = \<lparr>
     s_fork = uret (-1), s_wait = uret (-1, 0), s_pipe = uret (-1, 0, 0),
     s_write = (\<lambda>fd bs (p, pend, ob). Ok (Val (int (length bs)), p, pend, ob @ bs)),
     s_read = (\<lambda>fd n (p, pend, ob).
        let (pend, p) = (if pi_nread p = pi_nwrite p then pipe_fill pend p else (pend, p));
            (bs, p) = pipe_drain (nat n) p
        in Ok (Val (int (length bs), bs), p, pend, ob)),
     s_close = (\<lambda>_. uret 0), s_kill = (\<lambda>_. uret (-1)),
     s_exec = (\<lambda>_ _. uret (-1)), s_open = (\<lambda>_ _. uret (-1)), s_mknod = (\<lambda>_ _ _. uret (-1)),
     s_unlink = (\<lambda>_. uret (-1)), s_fstat = (\<lambda>_. uret (-1, \<lparr>st_dev = 0, st_ino = 0, st_type = 0, st_nlink = 0, st_size = 0\<rparr>)),
     s_link = (\<lambda>_ _. uret (-1)), s_mkdir = (\<lambda>_. uret (-1)), s_chdir = (\<lambda>_. uret (-1)), s_dup = (\<lambda>_. uret (-1)),
     s_getpid = uret 3, s_sbrk = (\<lambda>_ _. uret (-1)), s_pause = (\<lambda>_. uret 0), s_uptime = uret 0,
     s_kqueue_wait = uret (-1, zero_event), s_kqueue_post = (\<lambda>_ _. uret 0)\<rparr>"

definition pipe_good :: "pipe \<times> u8 list \<times> u8 list \<Rightarrow> bool" where
  "pipe_good = (\<lambda>(p, pend, ob). pipe_inv p)"

definition pipe_inp :: "pipe \<times> u8 list \<times> u8 list \<Rightarrow> u8 list" where
  "pipe_inp = (\<lambda>(p, pend, ob). pipe_abs p @ pend)"

definition pipe_out :: "pipe \<times> u8 list \<times> u8 list \<Rightarrow> u8 list" where
  "pipe_out = (\<lambda>(p, pend, ob). ob)"

lemma pipe_fill_view:
  "pipe_inv p \<Longrightarrow> pipe_fill pend p = (pend', p') \<Longrightarrow>
     pipe_inv p' \<and> pipe_abs p' @ pend' = pipe_abs p @ pend \<and> length (pipe_abs p) \<le> length (pipe_abs p')
     \<and> (length (pipe_abs p) < 512 \<longrightarrow> pend \<noteq> [] \<longrightarrow> pipe_abs p' \<noteq> [])"
proof (induction pend arbitrary: p)
  case (Cons b pend)
  show ?case
  proof (cases "pipe_full p")
    case True
    then show ?thesis using Cons.prems pipe_full_iff [OF Cons.prems(1)] by auto
  next
    case False
    then have "length (pipe_abs p) < 512" using pq.bounded [OF Cons.prems(1)] pipe_full_iff [OF Cons.prems(1)] by simp
    from pq.put_room [OF Cons.prems(1) this] False Cons.prems(2) Cons.IH [of "pipe_put b p"] show ?thesis by auto
  qed
qed auto

lemma pipe_drain_view:
  "pipe_inv p \<Longrightarrow> pipe_drain n p = (bs, p') \<Longrightarrow>
     pipe_inv p' \<and> bs = take n (pipe_abs p) \<and> pipe_abs p' = drop n (pipe_abs p)"
proof (induction n arbitrary: p bs)
  case (Suc n)
  show ?case
  proof (cases "pipe_abs p")
    case Nil
    then show ?thesis using Suc.prems by (simp add: pipe_empty_iff)
  next
    case (Cons b s)
    with pq.take_front [OF Suc.prems(1)] Suc.prems(2) Suc.IH [of "pipe_pop p"] show ?thesis
      by (auto simp: pipe_empty_iff split: prod.splits)
  qed
qed auto

interpretation pipe_feed: byte_feed pipe_sys pipe_good pipe_inp pipe_out fd for fd
proof (unfold_locales, goal_cases)
  case (1 k n)
  obtain p pend ob where k: "k = (p, pend, ob)" by (cases k)
  have p: "pipe_inv p" using 1 by (simp add: k pipe_good_def)
  obtain pend1 p1 where f: "(if pi_nread p = pi_nwrite p then pipe_fill pend p else (pend, p)) = (pend1, p1)" by fastforce
  then have p1: "pipe_inv p1" "pipe_abs p1 @ pend1 = pipe_abs p @ pend" "pipe_abs p1 = [] \<longrightarrow> pend1 = []"
    using pipe_fill_view [OF p, of pend pend1 p1] p by (auto simp: pipe_empty_iff split: if_splits)
  obtain bs p2 where d: "pipe_drain (nat n) p1 = (bs, p2)" by fastforce
  have p2: "pipe_inv p2" "bs = take (nat n) (pipe_abs p1)" "pipe_abs p2 = drop (nat n) (pipe_abs p1)"
    using pipe_drain_view [OF p1(1) d] by auto
  have rd: "s_read pipe_sys fd n k = Ok (Val (int (length bs), bs), p2, pend1, ob)"
    by (simp add: pipe_sys_def k f d)
  have bs: "length bs \<le> length (pipe_abs p1)" "int (length bs) \<le> n" "length bs = 0 \<longleftrightarrow> pipe_abs p1 @ pend1 = []"
    "bs = take (length bs) (pipe_abs p1 @ pend1)" "pipe_abs p2 @ pend1 = drop (length bs) (pipe_abs p1 @ pend1)"
    using 1(2) p2(2,3) p1(3) by (auto simp: min_def)
  have "length (pipe_abs p1 @ pend1) = length (pipe_abs p @ pend)" using p1(2) by simp
  then have "length bs \<le> length (pipe_abs p) + length pend" using bs(1) by simp
  then show ?case
    using rd bs p1(2) p2(1) by (intro exI [of _ "length bs"] exI [of _ "(p2, pend1, ob)"])
      (simp add: k pipe_good_def pipe_inp_def pipe_out_def)
next
  case (2 k bs)
  then show ?case by (cases k) (simp add: pipe_sys_def pipe_good_def pipe_inp_def pipe_out_def)
qed

text \<open>
  C34: \<^verbatim>\<open>grep\<close> prints exactly the matching lines, each complete with its newline and in order, however the
  reads cut the input into pieces and wherever a line straddles two of them, for an input without
  NUL bytes whose lines fit the buffer, shorter than 1023 bytes. What follows the last newline is
  not printed.
\<close>

theorem grep_prints_matching:
  assumes "byte_feed S good inp out fd" and "good k" and "0 \<notin> set (inp k)" and "\<forall>l\<in>set (split_on 10 (inp k)). length l < 1023"
  shows "\<exists>k'. grep S pattern fd k = Ok (Val (), k') \<and> inp k' = []
    \<and> out k' = out k @ concat (map (\<lambda>l. l @ [10]) (filter (match pattern) (butlast (split_on 10 (inp k)))))"
proof -
  have "\<exists>k'. uloop (grep_step S pattern fd) [] k = Ok (Val (), k') \<and> good k' \<and> inp k' = [] \<and> out k' = out k @ hits pattern ([] @ inp k)"
    by (rule byte_feed.grep_reads [OF assms(1,2)]) (use assms(3,4) in auto)
  then show ?thesis by (auto simp: grep_def hits_def)
qed

text \<open>
  C35: \<^verbatim>\<open>wc\<close> counts the newlines, the words and the bytes of its whole input, whatever the pieces in which
  it is read, and prints the three numbers in decimal notation and the name; a word starts at each character that is
  not blank and follows a blank or the beginning. The input has fewer than \<open>2 ^ 31\<close> bytes, so that the counters do not
  overflow.
\<close>

theorem wc_counts:
  assumes "byte_feed S good inp out fd" and "good k" and "length (inp k) < 2 ^ 31"
  shows "\<exists>k'. wc S fd name k = Ok (Val (), k') \<and> inp k' = []
    \<and> out k' = out k @ number_text 10 (int (count_list (inp k) 10)) @ [32] @ number_text 10 (int (length (word_starts (inp k)))) @ [32]
        @ number_text 10 (int (length (inp k))) @ [32] @ cstring name @ [10]"
proof -
  have small: "sint (va_int (word_of_int (int n))) = int n" if "n \<le> length (inp k)" for n
    using that assms(3) by (intro sint_va_int) auto
  let ?c = "fold wc_byte (inp k) \<lparr>wc_l = 0, wc_w = 0, wc_c = 0, wc_inword = False\<rparr>"
  let ?fmt = "''%d %d %d %s'' @ [CHR 0x0A]"
  let ?ap = "[VWord (word_of_int (wc_l ?c)), VWord (word_of_int (wc_w ?c)), VWord (word_of_int (wc_c ?c)), VStr (Some name)]"
  obtain k1 where k1: "uloop (wc_step S fd) \<lparr>wc_l = 0, wc_w = 0, wc_c = 0, wc_inword = False\<rparr> k = Ok (Val (0, ?c), k1)"
    "good k1" "inp k1 = []" "out k1 = out k"
    using byte_feed.wc_reads [OF assms(1,2)] by blast
  have "fmt_ok ?fmt ?ap" by simp
  from byte_feed.vprintf_writes [OF assms(1) this] k1(2) obtain bs k2 where
    bs: "formats ?fmt ?ap bs" and k2: "vprintf_u S 1 ?fmt ?ap k1 = Ok (Val (), k2)" "inp k2 = inp k1" "out k2 = out k1 @ bs" by blast
  let ?n = "\<lambda>x. number_text 10 (sint (va_int (word_of_int x)))"
  have b: "bs = ?n (wc_l ?c) @ [32] @ ?n (wc_w ?c) @ [32] @ ?n (wc_c ?c) @ [32] @ cstring name @ [10]"
    using bs by (auto simp: formats_simps)
  have "wc S fd name k = vprintf_u S 1 ?fmt ?ap k1" using k1(1) by (simp add: wc_def ubnd_def printf_u_def)
  moreover have "length (word_starts (inp k)) \<le> length (inp k)"
    using length_filter_le [of _ "[0..<length (inp k)]"] by (simp add: word_starts_def)
  ultimately show ?thesis
    using k1(3,4) k2 b small [OF count_le_length [of "inp k" 10]] small [of "length (inp k)"] small [of "length (word_starts (inp k))"]
    by (intro exI [of _ k2]) (simp add: wc_bytes)
qed

text \<open>
  C36: \<^verbatim>\<open>cat\<close> writes its input to its output unchanged, up to the end and whatever the pieces.
\<close>

theorem cat_copies_input:
  assumes "byte_feed S good inp out fd" and "good k"
  shows "\<exists>k'. cat S fd k = Ok (Val (), k') \<and> inp k' = [] \<and> out k' = out k @ inp k"
  using byte_feed.cat_copies [OF assms] by blast

lemma pipe_feed_ready: "pipe_good (old_pipe, s, ob)" "pipe_inp (old_pipe, s, ob) = s" "pipe_out (old_pipe, s, ob) = ob"
  by (simp_all add: pipe_good_def pipe_inp_def pipe_out_def old_pipe_simps)

definition sample_text :: "u8 list" where
  "sample_text = map of_char ''no foo'' @ [10] @ map of_char ''bar'' @ [10] @ map of_char ''f'' @ [10] @ map of_char ''foo''"

theorem grep_prints_matching_witness:
  "\<exists>k'. grep pipe_sys (map of_char ''fo*$'') 0 (old_pipe, sample_text, []) = Ok (Val (), k')
     \<and> pipe_out k' = map of_char ''no foo'' @ [10] @ map of_char ''f'' @ [10]"
proof -
  have l: "split_on 10 sample_text = [map of_char ''no foo'', map of_char ''bar'', map of_char ''f'', map of_char ''foo'']"
    by (simp add: sample_text_def)
  have m: "match (map of_char ''fo*$'') (map of_char ''no foo'')" "\<not> match (map of_char ''fo*$'') (map of_char ''bar'')"
    "match (map of_char ''fo*$'') (map of_char ''f'')" by code_simp+
  show ?thesis
    using grep_prints_matching [OF pipe_feed.byte_feed_axioms, of "(old_pipe, sample_text, [])" "map of_char ''fo*$''" 0] l m
    by (auto simp: pipe_feed_ready sample_text_def)
qed

theorem wc_counts_witness:
  "\<exists>k'. wc pipe_sys 0 (map of_char ''x'') (old_pipe, sample_text, []) = Ok (Val (), k')
     \<and> pipe_out k' = map of_char ''3 5 16 x'' @ [10]"
proof -
  have n: "length sample_text = 16" "count_list sample_text 10 = 3" "length (word_starts sample_text) = 5"
    "cstring (map of_char ''x'') = map of_char ''x''" by code_simp+
  have t: "number_text 10 3 = [51]" "number_text 10 5 = [53]" "number_text 10 16 = [49, 54]" by code_simp+
  show ?thesis
    using wc_counts [OF pipe_feed.byte_feed_axioms, of "(old_pipe, sample_text, [])" 0 "map of_char ''x''"] n t
    by (simp add: pipe_feed_ready) blast
qed

theorem cat_copies_input_witness:
  "\<exists>k'. cat pipe_sys 0 (old_pipe, replicate 1000 7, []) = Ok (Val (), k') \<and> pipe_out k' = replicate 1000 7"
  using cat_copies_input [OF pipe_feed.byte_feed_axioms, of "(old_pipe, replicate 1000 7, [])" 0]
  by (simp add: pipe_feed_ready) blast

end
