(* ===== verification/Xv6_Shell.thy ===== *)
theory Xv6_Shell
  imports Xv6_Filters
begin

text \<open>
  \<^verbatim>\<open>user/sh.c\<close>: the shell. The parser works on the line \<open>b\<close>, the bytes before the NUL; a pointer into the line is
  its offset, and \<^verbatim>\<open>es\<close> is \<open>length b\<close>. A call of \<^verbatim>\<open>panic\<close> while parsing is the result \<open>Panic\<close>, printed by
  \<^verbatim>\<open>parsecmd\<close>; nodes are values, so that an allocation always succeeds.
\<close>

section \<open>Commands\<close>

text \<open>A token is the pair of the offsets of its first byte and of the byte after its last.\<close>

type_synonym token = "nat \<times> nat"

datatype cmd =
    EXEC "token list"
  | REDIR cmd token u32 int
  | PIPE cmd cmd
  | LIST cmd cmd
  | BACK cmd

definition MAXARGS :: nat where "MAXARGS = 10"

text \<open>
  An argument that \<^verbatim>\<open>parseexec\<close> stores through its pointer to the node, which may be inside redirections by
  then.
\<close>

fun push_arg :: "token \<Rightarrow> cmd \<Rightarrow> cmd" where
  "push_arg a (EXEC av) = EXEC (av @ [a])"
| "push_arg a (REDIR c f m fd) = REDIR (push_arg a c) f m fd"
| "push_arg a c = c"

section \<open>Tokens\<close>

definition whitespace :: "u8 list" where
  "whitespace = [32, 9, 13, 10, 11]"

definition symbols :: "u8 list" where
  "symbols = map of_char ''<|>&;()''"

definition is_white :: "u8 \<Rightarrow> bool" where
  "is_white c \<longleftrightarrow> strchr_u whitespace c \<noteq> None"

definition is_symbol :: "u8 \<Rightarrow> bool" where
  "is_symbol c \<longleftrightarrow> strchr_u symbols c \<noteq> None"

function skip_white :: "u8 list \<Rightarrow> nat \<Rightarrow> nat" where
  "skip_white b s = (if s < length b \<and> is_white (arr_get b s) then skip_white b (s + 1) else s)"
  by auto
termination
  by (relation "measure (\<lambda>(b, s). length b - s)") auto

function skip_word :: "u8 list \<Rightarrow> nat \<Rightarrow> nat" where
  "skip_word b s =
     (if s < length b \<and> \<not> is_white (arr_get b s) \<and> \<not> is_symbol (arr_get b s) then skip_word b (s + 1) else s)"
  by auto
termination
  by (relation "measure (\<lambda>(b, s). length b - s)") auto

declare skip_white.simps [simp del] skip_word.simps [simp del]

text \<open>The kind of the token, the token and the offset behind it and the white space that follows.\<close>

definition gettoken :: "u8 list \<Rightarrow> nat \<Rightarrow> u8 \<times> token \<times> nat" where
  "gettoken b s =
     (let q = skip_white b s; c = arr_get b q;
          (ret, eq) =
            (if c = 0 then (0, q)
             else if c \<in> of_char ` {CHR ''|'', CHR ''('', CHR '')'', CHR '';'', CHR ''&'', CHR ''<''} then (c, q + 1)
             else if c = of_char CHR ''>'' then
               if arr_get b (q + 1) = of_char CHR ''>'' then (of_char CHR ''+'', q + 2) else (c, q + 1)
             else (of_char CHR ''a'', skip_word b q))
      in (ret, (q, eq), skip_white b eq))"

definition peek :: "u8 list \<Rightarrow> nat \<Rightarrow> string \<Rightarrow> bool \<times> nat" where
  "peek b s toks =
     (let s = skip_white b s; c = arr_get b s
      in (c \<noteq> 0 \<and> strchr_u (map of_char toks) c \<noteq> None, s))"

section \<open>The parser\<close>

definition parseredirs_step :: "u8 list \<Rightarrow> cmd \<times> nat \<Rightarrow> (cmd \<times> nat, cmd \<times> nat) ctl res" where
  "parseredirs_step b = (\<lambda>(cmd, s).
     let (p, s) = peek b s ''<>''
     in if \<not> p then Ok (Done (cmd, s))
        else let (tok, _, s) = gettoken b s; (t, f, s) = gettoken b s
             in if t \<noteq> of_char CHR ''a'' then Panic ''missing file for redirection''
                else Ok (Next
                  (if tok = of_char CHR ''<'' then REDIR cmd f (word_of_int O_RDONLY) 0
                   else if tok = of_char CHR ''>'' then REDIR cmd f (O_WRONLY OR O_CREATE OR O_TRUNC) 1
                   else if tok = of_char CHR ''+'' then REDIR cmd f (O_WRONLY OR O_CREATE) 1
                   else cmd, s)))"

definition parseredirs :: "u8 list \<Rightarrow> cmd \<times> nat \<Rightarrow> (cmd \<times> nat) res" where
  "parseredirs b = loop_res (parseredirs_step b)"

text \<open>\<^verbatim>\<open>parseblock\<close> and \<^verbatim>\<open>parseexec\<close> call \<^verbatim>\<open>parseline\<close>, the argument \<open>line\<close>.\<close>

definition parseblock :: "(nat \<Rightarrow> (cmd \<times> nat) res) \<Rightarrow> u8 list \<Rightarrow> nat \<Rightarrow> (cmd \<times> nat) res" where
  "parseblock line b s =
     (let (p, s) = peek b s ''(''
      in if \<not> p then Panic ''parseblock''
         else let (_, _, s) = gettoken b s
              in bnd (line s) (\<lambda>(cmd, s).
                 let (p, s) = peek b s '')''
                 in if \<not> p then Panic ''syntax - missing )''
                    else let (_, _, s) = gettoken b s in parseredirs b (cmd, s)))"

definition parseexec_step :: "u8 list \<Rightarrow> cmd \<times> nat \<times> nat \<Rightarrow> (cmd \<times> nat, cmd \<times> nat \<times> nat) ctl res" where
  "parseexec_step b = (\<lambda>(cmd, argc, s).
     let (p, s) = peek b s ''|)&;''
     in if p then Ok (Done (cmd, s))
        else let (tok, a, s) = gettoken b s
             in if tok = 0 then Ok (Done (cmd, s))
                else if tok \<noteq> of_char CHR ''a'' then Panic ''syntax''
                else if argc + 1 \<ge> MAXARGS then Panic ''too many args''
                else bnd (parseredirs b (push_arg a cmd, s)) (\<lambda>(cmd, s). Ok (Next (cmd, argc + 1, s))))"

definition parseexec :: "(nat \<Rightarrow> (cmd \<times> nat) res) \<Rightarrow> u8 list \<Rightarrow> nat \<Rightarrow> (cmd \<times> nat) res" where
  "parseexec line b s =
     (let (p, s) = peek b s ''(''
      in if p then parseblock line b s
         else bnd (parseredirs b (EXEC [], s)) (\<lambda>(cmd, s). loop_res (parseexec_step b) (cmd, 0, s)))"

text \<open>
  The recursion goes as deep as its fuel; \<^verbatim>\<open>parsecmd\<close> starts with more than the line can need (every
  recursive call is behind a symbol of the line).
\<close>

primrec parsepipe :: "nat \<Rightarrow> (nat \<Rightarrow> (cmd \<times> nat) res) \<Rightarrow> u8 list \<Rightarrow> nat \<Rightarrow> (cmd \<times> nat) res" where
  "parsepipe 0 line b s = Diverge"
| "parsepipe (Suc n) line b s =
     bnd (parseexec line b s) (\<lambda>(cmd, s).
     let (p, s) = peek b s ''|''
     in if p then let (_, _, s) = gettoken b s
                  in bnd (parsepipe n line b s) (\<lambda>(r, s). Ok (PIPE cmd r, s))
        else Ok (cmd, s))"

definition parseback_step :: "u8 list \<Rightarrow> cmd \<times> nat \<Rightarrow> (cmd \<times> nat, cmd \<times> nat) ctl res" where
  "parseback_step b = (\<lambda>(cmd, s).
     let (p, s) = peek b s ''&''
     in if p then let (_, _, s) = gettoken b s in Ok (Next (BACK cmd, s)) else Ok (Done (cmd, s)))"

primrec parseline :: "nat \<Rightarrow> u8 list \<Rightarrow> nat \<Rightarrow> (cmd \<times> nat) res" where
  "parseline 0 b s = Diverge"
| "parseline (Suc n) b s =
     bnd (parsepipe n (parseline n b) b s) (\<lambda>cs.
     bnd (loop_res (parseback_step b) cs) (\<lambda>(cmd, s).
     let (p, s) = peek b s '';''
     in if p then let (_, _, s) = gettoken b s
                  in bnd (parseline n b s) (\<lambda>(r, s). Ok (LIST cmd r, s))
        else Ok (cmd, s)))"

text \<open>The strings of the tokens get their NULs in the buffer.\<close>

primrec nulterminate :: "cmd \<Rightarrow> u8 list \<Rightarrow> u8 list" where
  "nulterminate (EXEC av) buf = fold (\<lambda>a buf. buf[snd a := 0]) av buf"
| "nulterminate (REDIR c f m fd) buf = (nulterminate c buf)[snd f := 0]"
| "nulterminate (PIPE l r) buf = nulterminate r (nulterminate l buf)"
| "nulterminate (LIST l r) buf = nulterminate r (nulterminate l buf)"
| "nulterminate (BACK c) buf = nulterminate c buf"

definition panic_u :: "'k sys \<Rightarrow> string \<Rightarrow> ('a, 'k) user" where
  "panic_u S s = ubnd (fprintf_u S 2 (''%s'' @ [CHR 0x0A]) [VStr (Some (map of_char s))]) (\<lambda>_. uexit 1)"

definition parsecmd :: "'k sys \<Rightarrow> u8 list \<Rightarrow> (cmd \<times> u8 list, 'k) user" where
  "parsecmd S b k =
     (case parseline (length b + 2) b 0 of
        Ok (cmd, s) \<Rightarrow>
          (let (_, s) = peek b s ''''
           in if s \<noteq> length b
              then ubnd (fprintf_u S 2 (''leftovers: %s'' @ [CHR 0x0A]) [VStr (Some (drop s b))]) (\<lambda>_. panic_u S ''syntax'') k
              else uret (cmd, nulterminate cmd (b @ [0])) k)
      | Panic m \<Rightarrow> panic_u S m k
      | Diverge \<Rightarrow> Diverge)"

section \<open>Running commands\<close>

definition fork1 :: "'k sys \<Rightarrow> (int, 'k) user" where
  "fork1 S = ubnd (s_fork S) (\<lambda>pid. if pid = -1 then panic_u S ''fork'' else uret pid)"

text \<open>The string a token points to.\<close>

definition str_at :: "u8 list \<Rightarrow> token \<Rightarrow> u8 list" where
  "str_at buf t = cstring (drop (fst t) buf)"

primrec runcmd :: "'k sys \<Rightarrow> u8 list \<Rightarrow> cmd \<Rightarrow> (unit, 'k) user" where
  "runcmd S buf (EXEC av) =
     (if av = [] then uexit 1
      else ubnd (s_exec S (str_at buf (hd av)) (map (str_at buf) av)) (\<lambda>_.
           ubnd (fprintf_u S 2 (''exec %s failed'' @ [CHR 0x0A]) [VStr (Some (str_at buf (hd av)))]) (\<lambda>_.
           uexit 0)))"
| "runcmd S buf (REDIR c f mode fd) =
     ubnd (s_close S fd) (\<lambda>_.
     ubnd (s_open S (str_at buf f) mode) (\<lambda>r.
     if r < 0 then ubnd (fprintf_u S 2 (''open %s failed'' @ [CHR 0x0A]) [VStr (Some (str_at buf f))]) (\<lambda>_. uexit 1)
     else ubnd (runcmd S buf c) (\<lambda>_. uexit 0)))"
| "runcmd S buf (LIST l r) =
     ubnd (fork1 S) (\<lambda>pid.
     ubnd (if pid = 0 then runcmd S buf l else uret ()) (\<lambda>_.
     ubnd (s_wait S) (\<lambda>_.
     ubnd (runcmd S buf r) (\<lambda>_. uexit 0))))"
| "runcmd S buf (PIPE l r) =
     ubnd (s_pipe S) (\<lambda>(x, p0, p1).
     ubnd (if x < 0 then panic_u S ''pipe'' else uret ()) (\<lambda>_.
     ubnd (fork1 S) (\<lambda>pid.
     ubnd (if pid = 0
           then ubnd (s_close S 1) (\<lambda>_. ubnd (s_dup S p1) (\<lambda>_. ubnd (s_close S p0) (\<lambda>_. ubnd (s_close S p1) (\<lambda>_. runcmd S buf l))))
           else uret ()) (\<lambda>_.
     ubnd (fork1 S) (\<lambda>pid.
     ubnd (if pid = 0
           then ubnd (s_close S 0) (\<lambda>_. ubnd (s_dup S p0) (\<lambda>_. ubnd (s_close S p0) (\<lambda>_. ubnd (s_close S p1) (\<lambda>_. runcmd S buf r))))
           else uret ()) (\<lambda>_.
     ubnd (s_close S p0) (\<lambda>_.
     ubnd (s_close S p1) (\<lambda>_.
     ubnd (s_wait S) (\<lambda>_.
     ubnd (s_wait S) (\<lambda>_. uexit 0))))))))))"
| "runcmd S buf (BACK c) =
     ubnd (fork1 S) (\<lambda>pid.
     ubnd (if pid = 0 then runcmd S buf c else uret ()) (\<lambda>_. uexit 0))"

section \<open>The command loop\<close>

definition getcmd :: "'k sys \<Rightarrow> (u8 list option, 'k) user" where
  "getcmd S =
     ubnd (s_write S 2 (map of_char ''$ '')) (\<lambda>_.
     ubnd (gets_u S 100) (\<lambda>buf. uret (if buf = [] then None else Some buf)))"

definition sh_line :: "'k sys \<Rightarrow> u8 list \<Rightarrow> (unit, 'k) user" where
  "sh_line S buf =
     (let cmd = dropWhile (\<lambda>c. c = 32 \<or> c = 9) buf
      in if arr_get cmd 0 = 10 then uret ()
         else if arr_get cmd 0 = of_char CHR ''c'' \<and> arr_get cmd 1 = of_char CHR ''d'' \<and> arr_get cmd 2 = 32
         then let dir = drop 3 (butlast cmd)
              in ubnd (s_chdir S dir) (\<lambda>r.
                 if r < 0 then fprintf_u S 2 (''cannot cd %s'' @ [CHR 0x0A]) [VStr (Some dir)] else uret ())
         else ubnd (fork1 S) (\<lambda>pid.
              ubnd (if pid = 0 then ubnd (parsecmd S cmd) (\<lambda>(c, buf). runcmd S buf c) else uret ()) (\<lambda>_.
              ubnd (s_wait S) (\<lambda>_. uret ()))))"

definition sh_open :: "'k sys \<Rightarrow> unit \<Rightarrow> ((unit, unit) ctl, 'k) user" where
  "sh_open S _ =
     ubnd (s_open S (map of_char ''console'') O_RDWR) (\<lambda>fd.
     if fd < 0 then uret (Done ())
     else if fd \<ge> 3 then ubnd (s_close S fd) (\<lambda>_. uret (Done ()))
     else uret (Next ()))"

definition sh_step :: "'k sys \<Rightarrow> unit \<Rightarrow> ((unit, unit) ctl, 'k) user" where
  "sh_step S _ =
     ubnd (getcmd S) (\<lambda>line.
     case line of None \<Rightarrow> uret (Done ()) | Some buf \<Rightarrow> ubnd (sh_line S buf) (\<lambda>_. uret (Next ())))"

definition sh_main :: "'k sys \<Rightarrow> (int, 'k) user" where
  "sh_main S = ubnd (uloop (sh_open S) ()) (\<lambda>_. ubnd (uloop (sh_step S) ()) (\<lambda>_. uexit 0))"

section \<open>Tokens lie in the line\<close>

definition plain :: "u8 \<Rightarrow> bool" where
  "plain c \<longleftrightarrow> c \<noteq> 0 \<and> \<not> is_white c \<and> \<not> is_symbol c"

definition token_ok :: "u8 list \<Rightarrow> token \<Rightarrow> bool" where
  "token_ok b t \<longleftrightarrow> fst t < snd t \<and> snd t \<le> length b \<and> (\<forall>i. fst t \<le> i \<longrightarrow> i < snd t \<longrightarrow> plain (b ! i))
     \<and> (snd t < length b \<longrightarrow> \<not> plain (b ! snd t))"

primrec cmd_ok :: "u8 list \<Rightarrow> cmd \<Rightarrow> bool" where
  "cmd_ok b (EXEC av) \<longleftrightarrow> length av < MAXARGS \<and> (\<forall>a\<in>set av. token_ok b a)"
| "cmd_ok b (REDIR c f m fd) \<longleftrightarrow> cmd_ok b c \<and> token_ok b f"
| "cmd_ok b (PIPE l r) \<longleftrightarrow> cmd_ok b l \<and> cmd_ok b r"
| "cmd_ok b (LIST l r) \<longleftrightarrow> cmd_ok b l \<and> cmd_ok b r"
| "cmd_ok b (BACK c) \<longleftrightarrow> cmd_ok b c"

lemma skip_white_spec:
  "s \<le> length b \<Longrightarrow> s \<le> skip_white b s \<and> skip_white b s \<le> length b \<and> (skip_white b s < length b \<longrightarrow> \<not> is_white (b ! skip_white b s))"
proof (induction b s rule: skip_white.induct)
  case (1 b s)
  show ?case
  proof (cases "s < length b \<and> is_white (arr_get b s)")
    case True
    then have "skip_white b s = skip_white b (s + 1)" by (subst skip_white.simps) simp
    with "1.IH" [OF True] True show ?thesis by simp
  next
    case False
    then have "skip_white b s = s" by (subst skip_white.simps) auto
    with False "1.prems" show ?thesis by (auto simp: arr_get_def)
  qed
qed

lemma skip_word_spec:
  "s \<le> length b \<Longrightarrow> s \<le> skip_word b s \<and> skip_word b s \<le> length b
     \<and> (\<forall>i. s \<le> i \<longrightarrow> i < skip_word b s \<longrightarrow> \<not> is_white (b ! i) \<and> \<not> is_symbol (b ! i))
     \<and> (skip_word b s < length b \<longrightarrow> is_white (b ! skip_word b s) \<or> is_symbol (b ! skip_word b s))"
proof (induction b s rule: skip_word.induct)
  case (1 b s)
  show ?case
  proof (cases "s < length b \<and> \<not> is_white (arr_get b s) \<and> \<not> is_symbol (arr_get b s)")
    case True
    then have "skip_word b s = skip_word b (s + 1)" by (subst skip_word.simps) simp
    with "1.IH" [OF True] True show ?thesis
      by (auto simp: arr_get_def) (metis Suc_leI le_neq_implies_less)+
  next
    case False
    then have "skip_word b s = s" by (subst skip_word.simps) auto
    with False "1.prems" show ?thesis by (auto simp: arr_get_def)
  qed
qed

lemma is_symbol_iff:
  "is_symbol c \<longleftrightarrow> c \<in> of_char ` {CHR ''|'', CHR ''('', CHR '')'', CHR '';'', CHR ''&'', CHR ''<''} \<or> c = of_char CHR ''>''"
  by (auto simp: is_symbol_def symbols_def)

lemma is_white_iff: "is_white c \<longleftrightarrow> c \<in> set whitespace"
  by (simp add: is_white_def whitespace_def)

lemma gettoken_spec:
  assumes "gettoken b s = (ret, (q, eq), s')" "s \<le> length b" "0 \<notin> set b"
  shows "q = skip_white b s \<and> s \<le> q \<and> q \<le> eq \<and> eq \<le> s' \<and> s' \<le> length b \<and> (ret = 0 \<longleftrightarrow> q = length b)
    \<and> (ret \<noteq> 0 \<longrightarrow> q < eq) \<and> (ret = of_char CHR ''a'' \<longrightarrow> token_ok b (q, eq))"
proof -
  have q: "q = skip_white b s" using assms(1) by (auto simp: gettoken_def Let_def split: prod.splits)
  have w: "s \<le> q" "q \<le> length b" "q < length b \<longrightarrow> \<not> is_white (b ! q)" using skip_white_spec [OF assms(2)] q by auto
  have s': "s' = skip_white b eq" using assms(1) by (auto simp: gettoken_def Let_def split: prod.splits)
  have ends: "eq \<le> s' \<and> s' \<le> length b" if "eq \<le> length b" using skip_white_spec [OF that] s' by simp
  show ?thesis
  proof (cases "q = length b")
    case True
    then have "ret = 0" "eq = q" using assms(1) q by (auto simp: gettoken_def arr_get_def Let_def)
    with True w q ends show ?thesis by auto
  next
    case False
    then have l: "q < length b" using w by simp
    then have "b ! q \<in> set b" by simp
    then have c: "arr_get b q = b ! q" "b ! q \<noteq> 0" using assms(3) l by (auto simp: arr_get_def simp del: nth_mem)
    show ?thesis
    proof (cases "is_symbol (b ! q)")
      case True
      then have "ret \<noteq> 0 \<and> ret \<noteq> of_char CHR ''a'' \<and> q < eq \<and> eq \<le> length b"
        using assms(1) l c unfolding gettoken_def Let_def q [symmetric]
        by (auto simp: is_symbol_iff arr_get_def split: if_splits)
      with ends w q l show ?thesis by auto
    next
      case plain: False
      then have e: "ret = of_char CHR ''a''" "eq = skip_word b q"
        using assms(1) l c unfolding gettoken_def Let_def q [symmetric] by (auto simp: is_symbol_iff)
      have "skip_word b q = skip_word b (q + 1)" using l c plain w(3) by (subst skip_word.simps) simp
      then have "q < eq" using skip_word_spec [of "q + 1" b] l e(2) by simp
      moreover have "\<And>i. i < length b \<Longrightarrow> b ! i \<noteq> 0" using assms(3) by (metis nth_mem)
      then have "token_ok b (q, eq)"
        using skip_word_spec [of q b] w(2) e(2) \<open>q < eq\<close> by (auto simp: token_ok_def plain_def)
      ultimately show ?thesis using ends skip_word_spec [of q b] w q l e by auto
    qed
  qed
qed

lemma peek_spec:
  assumes "peek b s toks = (p, s')" "s \<le> length b"
  shows "s' = skip_white b s \<and> s \<le> s' \<and> s' \<le> length b \<and> (p \<longrightarrow> s' < length b)"
  using assms skip_white_spec [OF assms(2)] by (auto simp: peek_def Let_def arr_get_def split: if_splits)

lemma peek_le: "peek b s toks = (p, s') \<Longrightarrow> s \<le> length b \<Longrightarrow> s \<le> s' \<and> s' \<le> length b \<and> (p \<longrightarrow> s' < length b)"
  using peek_spec by blast

section \<open>The parser ends\<close>

text \<open>The outcome of parsing from \<open>s\<close>: a command over tokens of the line and an offset behind it, or one of these errors.\<close>

definition syntax_errors :: "string set" where
  "syntax_errors = {''missing file for redirection'', ''parseblock'', ''syntax - missing )'', ''syntax'', ''too many args''}"

definition parsed :: "u8 list \<Rightarrow> nat \<Rightarrow> (cmd \<times> nat) res \<Rightarrow> bool" where
  "parsed b s r \<longleftrightarrow> (case r of Ok (c, s') \<Rightarrow> s \<le> s' \<and> s' \<le> length b \<and> cmd_ok b c | Panic m \<Rightarrow> m \<in> syntax_errors | Diverge \<Rightarrow> False)"

lemma parsed_bnd:
  assumes "parsed b s m" "\<And>c s'. s \<le> s' \<Longrightarrow> s' \<le> length b \<Longrightarrow> cmd_ok b c \<Longrightarrow> parsed b s (f (c, s'))"
  shows "parsed b s (bnd m f)"
  using assms by (cases m) (auto simp: parsed_def)

lemma parsed_later: "parsed b s' r \<Longrightarrow> s \<le> s' \<Longrightarrow> parsed b s r"
  by (auto simp: parsed_def split: res.splits)

primrec nargs :: "cmd \<Rightarrow> nat" where
  "nargs (EXEC av) = length av"
| "nargs (REDIR c f m fd) = nargs c"
| "nargs (PIPE l r) = 0"
| "nargs (LIST l r) = 0"
| "nargs (BACK c) = 0"

lemma push_arg_ok:
  "cmd_ok b c \<Longrightarrow> token_ok b a \<Longrightarrow> nargs c + 1 < MAXARGS \<Longrightarrow> cmd_ok b (push_arg a c) \<and> nargs (push_arg a c) \<le> nargs c + 1"
  by (induction c) auto

lemma parseredirs_ok:
  assumes "0 \<notin> set b" "s \<le> length b" "cmd_ok b c"
  shows "case parseredirs b (c, s) of Ok (c', s') \<Rightarrow> s \<le> s' \<and> s' \<le> length b \<and> cmd_ok b c' \<and> nargs c' = nargs c
    | Panic m \<Rightarrow> m \<in> syntax_errors | Diverge \<Rightarrow> False"
  unfolding parseredirs_def
proof (rule loop_res_outcome [where
      I = "\<lambda>(c', s'). s \<le> s' \<and> s' \<le> length b \<and> cmd_ok b c' \<and> nargs c' = nargs c" and m = "\<lambda>(c', s'). length b - s'"], goal_cases)
  case (2 x)
  obtain c1 s1 where x: "x = (c1, s1)" by (cases x)
  then have 1: "s \<le> s1" "s1 \<le> length b" "cmd_ok b c1" "nargs c1 = nargs c" using 2 by auto
  obtain p s2 where p: "peek b s1 ''<>'' = (p, s2)" by fastforce
  note p' = peek_le [OF p 1(2)]
  obtain t2 q2 e2 s3 where g: "gettoken b s2 = (t2, (q2, e2), s3)" by (cases "gettoken b s2") auto
  obtain t3 q3 e3 s4 where h: "gettoken b s3 = (t3, (q3, e3), s4)" by (cases "gettoken b s3") auto
  have g': "s2 \<le> s3" "s3 \<le> length b" using gettoken_spec [OF g _ assms(1)] p' by auto
  note h' = gettoken_spec [OF h g'(2) assms(1)]
  have "s1 < s4" if "t3 = of_char CHR ''a''" using h' that p' g'(1) by auto
  with h' show ?case using 1 p' g'
    by (auto simp: x parseredirs_step_def p g h syntax_errors_def)
qed (use assms in auto)

lemma parseredirs_parsed: "0 \<notin> set b \<Longrightarrow> s \<le> length b \<Longrightarrow> cmd_ok b c \<Longrightarrow> parsed b s (parseredirs b (c, s))"
  using parseredirs_ok [of b s c] by (auto simp: parsed_def split: res.splits)

lemma parseexec_loop:
  assumes "0 \<notin> set b" "s \<le> length b" "cmd_ok b c" "nargs c = 0"
  shows "parsed b s (loop_res (parseexec_step b) (c, 0, s))"
proof -
  have "case loop_res (parseexec_step b) (c, 0, s) of Ok r \<Rightarrow> s \<le> snd r \<and> snd r \<le> length b \<and> cmd_ok b (fst r)
    | Panic m \<Rightarrow> m \<in> syntax_errors | Diverge \<Rightarrow> False"
  proof (rule loop_res_outcome [where I = "\<lambda>(c', n, s'). s \<le> s' \<and> s' \<le> length b \<and> cmd_ok b c' \<and> nargs c' \<le> n"
        and m = "\<lambda>(c', n, s'). length b - s'"], goal_cases)
    case (2 x)
    obtain c1 n s1 where x: "x = (c1, n, s1)" by (cases x)
    then have 1: "s \<le> s1" "s1 \<le> length b" "cmd_ok b c1" "nargs c1 \<le> n" using 2 by auto
    obtain p s2 where p: "peek b s1 ''|)&;'' = (p, s2)" by fastforce
    note p' = peek_le [OF p 1(2)]
    obtain t q e s3 where g: "gettoken b s2 = (t, (q, e), s3)" by (cases "gettoken b s2") auto
    have g': "s2 \<le> q" "q \<le> e" "e \<le> s3" "s3 \<le> length b" "t \<noteq> 0 \<longrightarrow> q < e" "t = of_char CHR ''a'' \<longrightarrow> token_ok b (q, e)"
      using gettoken_spec [OF g _ assms(1)] p' by auto
    show ?case
    proof (cases "\<not> p \<and> t = of_char CHR ''a'' \<and> n + 1 < MAXARGS")
      case True
      then have a: "cmd_ok b (push_arg (q, e) c1) \<and> nargs (push_arg (q, e) c1) \<le> n + 1"
        using push_arg_ok [of b c1 "(q, e)"] g' 1 by auto
      with True g' show ?thesis using 1 p' parseredirs_ok [OF assms(1) g'(4), of "push_arg (q, e) c1"]
        by (auto simp: x parseexec_step_def p g split: res.splits)
    next
      case False
      then show ?thesis using 1 p' g' by (auto simp: x parseexec_step_def p g syntax_errors_def)
    qed
  qed (use assms in auto)
  then show ?thesis by (auto simp: parsed_def split: res.splits)
qed

lemma gettoken_moves:
  assumes "gettoken b s = (t, tk, s')" "peek b s0 toks = (True, s)" "s0 \<le> length b" "0 \<notin> set b"
  shows "s0 < s' \<and> s' \<le> length b"
proof -
  note p = peek_spec [OF assms(2,3)]
  obtain q e where tk: "tk = (q, e)" by (cases tk)
  have "s \<le> length b" using p by simp
  note g = gettoken_spec [OF assms(1) [unfolded tk] this assms(4)]
  have "skip_white b s < length b"
    using p skip_white_spec [OF assms(3)] by (subst skip_white.simps) (auto simp: arr_get_def)
  then show ?thesis using g p by auto
qed

lemma parseblock_ok:
  assumes "0 \<notin> set b" "s \<le> length b" "\<And>s'. s < s' \<Longrightarrow> s' \<le> length b \<Longrightarrow> parsed b s' (line s')"
  shows "parsed b s (parseblock line b s)"
proof -
  obtain p s1 where p: "peek b s ''('' = (p, s1)" by fastforce
  obtain t tk s2 where g: "gettoken b s1 = (t, tk, s2)" by (cases "gettoken b s1") auto
  show ?thesis
  proof (cases p)
    case True
    have m: "s < s2" "s2 \<le> length b" using gettoken_moves [OF g _ assms(2,1)] p True by auto
    have "parsed b s (bnd (line s2) (\<lambda>(cmd, s). let (p, s) = peek b s '')'' in if \<not> p then Panic ''syntax - missing )''
        else let (_, _, s) = gettoken b s in parseredirs b (cmd, s)))"
    proof (rule parsed_bnd)
      show "parsed b s (line s2)" using assms(3) [OF m] m by (auto intro: parsed_later)
      fix c s' assume 1: "s \<le> s'" "s' \<le> length b" "cmd_ok b c"
      obtain p s3 where p: "peek b s' '')'' = (p, s3)" by fastforce
      obtain t tk s4 where g: "gettoken b s3 = (t, tk, s4)" by (cases "gettoken b s3") auto
      have "s' < s4 \<and> s4 \<le> length b" if p using gettoken_moves [OF g _ 1(2) assms(1)] p that by auto
      then show "parsed b s (case (c, s') of (cmd, s) \<Rightarrow> let (p, s) = peek b s '')'' in if \<not> p then Panic ''syntax - missing )''
        else let (_, _, s) = gettoken b s in parseredirs b (cmd, s))"
        using parseredirs_parsed [OF assms(1), of s4 c] 1 by (auto simp: p g parsed_def syntax_errors_def split: res.splits)
    qed
    with True show ?thesis by (simp add: parseblock_def p g)
  qed (simp add: parseblock_def p parsed_def syntax_errors_def)
qed

lemma parseexec_ok:
  assumes "0 \<notin> set b" "s \<le> length b" "\<And>s'. s < s' \<Longrightarrow> s' \<le> length b \<Longrightarrow> parsed b s' (line s')"
  shows "parsed b s (parseexec line b s)"
proof -
  obtain p s1 where p: "peek b s ''('' = (p, s1)" by fastforce
  note p' = peek_le [OF p assms(2)]
  show ?thesis
  proof (cases p)
    case True
    have "parsed b s1 (parseblock line b s1)" using assms p' by (intro parseblock_ok) auto
    with True p' show ?thesis by (auto simp: parseexec_def p intro: parsed_later)
  next
    case False
    have r: "case parseredirs b (EXEC [], s1) of Ok (c', s') \<Rightarrow> s1 \<le> s' \<and> s' \<le> length b \<and> cmd_ok b c' \<and> nargs c' = nargs (EXEC [])
      | Panic m \<Rightarrow> m \<in> syntax_errors | Diverge \<Rightarrow> False"
      using p' by (intro parseredirs_ok assms(1)) (auto simp: MAXARGS_def)
    show ?thesis
    proof (cases "parseredirs b (EXEC [], s1)")
      case (Ok cs)
      obtain c s2 where cs: "cs = (c, s2)" by (cases cs)
      have "parsed b s2 (loop_res (parseexec_step b) (c, 0, s2))"
        using r Ok cs assms(1) by (intro parseexec_loop) auto
      then show ?thesis using False Ok cs r p' by (auto simp: parseexec_def p intro: parsed_later)
    qed (use False r in \<open>auto simp: parseexec_def p parsed_def\<close>)
  qed
qed

lemma parsepipe_ok:
  assumes "0 \<notin> set b" "s \<le> length b" "length b - s < n" "\<And>s'. s < s' \<Longrightarrow> s' \<le> length b \<Longrightarrow> parsed b s' (line s')"
  shows "parsed b s (parsepipe n line b s)"
  using assms(2-4)
proof (induction n arbitrary: s)
  case (Suc n)
  have "parsed b s (bnd (parseexec line b s) (\<lambda>(cmd, s). let (p, s) = peek b s ''|'' in
      if p then let (_, _, s) = gettoken b s in bnd (parsepipe n line b s) (\<lambda>(r, s). Ok (PIPE cmd r, s)) else Ok (cmd, s)))"
  proof (rule parsed_bnd)
    show "parsed b s (parseexec line b s)" using Suc.prems assms(1) by (intro parseexec_ok) auto
    fix c s' assume 1: "s \<le> s'" "s' \<le> length b" "cmd_ok b c"
    obtain p s1 where p: "peek b s' ''|'' = (p, s1)" by fastforce
    note p' = peek_le [OF p 1(2)]
    obtain t tk s2 where g: "gettoken b s1 = (t, tk, s2)" by (cases "gettoken b s1") auto
    have "parsed b s2 (parsepipe n line b s2) \<and> s' < s2" if p
    proof -
      have "s' < s2" "s2 \<le> length b" using gettoken_moves [OF g _ 1(2) assms(1)] p that by auto
      moreover have "parsed b s2 (parsepipe n line b s2)"
        using calculation Suc.prems 1(1) by (intro Suc.IH) auto
      ultimately show ?thesis by simp
    qed
    then show "parsed b s (case (c, s') of (cmd, s) \<Rightarrow> let (p, s) = peek b s ''|'' in
      if p then let (_, _, s) = gettoken b s in bnd (parsepipe n line b s) (\<lambda>(r, s). Ok (PIPE cmd r, s)) else Ok (cmd, s))"
      using 1 p' by (cases "parsepipe n line b s2") (auto simp: p g parsed_def)
  qed
  then show ?case by simp
qed simp

lemma parseback_ok:
  assumes "0 \<notin> set b" "s \<le> length b" "cmd_ok b c"
  shows "parsed b s (loop_res (parseback_step b) (c, s))"
proof -
  have "case loop_res (parseback_step b) (c, s) of Ok r \<Rightarrow> s \<le> snd r \<and> snd r \<le> length b \<and> cmd_ok b (fst r)
    | Panic m \<Rightarrow> m \<in> syntax_errors | Diverge \<Rightarrow> False"
  proof (rule loop_res_outcome [where I = "\<lambda>(c', s'). s \<le> s' \<and> s' \<le> length b \<and> cmd_ok b c'"
        and m = "\<lambda>(c', s'). length b - s'"], goal_cases)
    case (2 x)
    obtain c1 s1 where x: "x = (c1, s1)" by (cases x)
    then have 1: "s \<le> s1" "s1 \<le> length b" "cmd_ok b c1" using 2 by auto
    obtain p s2 where p: "peek b s1 ''&'' = (p, s2)" by fastforce
    obtain t tk s3 where g: "gettoken b s2 = (t, tk, s3)" by (cases "gettoken b s2") auto
    have "s1 < s3 \<and> s3 \<le> length b" if p using gettoken_moves [OF g _ 1(2) assms(1)] p that by auto
    then show ?case using 1 peek_le [OF p 1(2)] by (auto simp: x parseback_step_def p g)
  qed (use assms in auto)
  then show ?thesis by (auto simp: parsed_def split: res.splits)
qed

lemma parseline_ok:
  assumes "0 \<notin> set b"
  shows "s \<le> length b \<Longrightarrow> length b - s + 1 < n \<Longrightarrow> parsed b s (parseline n b s)"
proof (induction n arbitrary: s)
  case (Suc n)
  let ?k = "\<lambda>(cmd, s). let (p, s) = peek b s '';'' in if p then let (_, _, s) = gettoken b s
      in bnd (parseline n b s) (\<lambda>(r, s). Ok (LIST cmd r, s)) else Ok (cmd, s)"
  have "parsed b s (bnd (parsepipe n (parseline n b) b s) (\<lambda>cs. bnd (loop_res (parseback_step b) cs) ?k))"
  proof (rule parsed_bnd)
    show "parsed b s (parsepipe n (parseline n b) b s)"
      using Suc assms by (intro parsepipe_ok) auto
    fix c s' assume 1: "s \<le> s'" "s' \<le> length b" "cmd_ok b c"
    have "parsed b s' (bnd (loop_res (parseback_step b) (c, s')) ?k)"
    proof (rule parsed_bnd)
      show "parsed b s' (loop_res (parseback_step b) (c, s'))" using 1 assms by (intro parseback_ok)
      fix c2 s2 assume 2: "s' \<le> s2" "s2 \<le> length b" "cmd_ok b c2"
      obtain p s3 where p: "peek b s2 '';'' = (p, s3)" by fastforce
      obtain t tk s4 where g: "gettoken b s3 = (t, tk, s4)" by (cases "gettoken b s3") auto
      have "parsed b s4 (parseline n b s4) \<and> s2 < s4" if p
      proof -
        have "s2 < s4" "s4 \<le> length b" using gettoken_moves [OF g _ 2(2) assms] p that by auto
        moreover have "parsed b s4 (parseline n b s4)" using calculation Suc.prems 1(1) 2(1) by (intro Suc.IH) auto
        ultimately show ?thesis by simp
      qed
      then show "parsed b s' (?k (c2, s2))"
        using 2 peek_le [OF p 2(2)] by (cases "parseline n b s4") (auto simp: p g parsed_def)
    qed
    with 1(1) show "parsed b s (bnd (loop_res (parseback_step b) (c, s')) ?k)" by (rule parsed_later [rotated])
  qed
  then show ?case by simp
qed simp

section \<open>The strings of a command\<close>

primrec tokens :: "cmd \<Rightarrow> token list" where
  "tokens (EXEC av) = av"
| "tokens (REDIR c f m fd) = tokens c @ [f]"
| "tokens (PIPE l r) = tokens l @ tokens r"
| "tokens (LIST l r) = tokens l @ tokens r"
| "tokens (BACK c) = tokens c"

definition text_of :: "u8 list \<Rightarrow> token \<Rightarrow> u8 list" where
  "text_of b t = take (snd t - fst t) (drop (fst t) b)"

lemma cmd_ok_tokens: "cmd_ok b c \<Longrightarrow> t \<in> set (tokens c) \<Longrightarrow> token_ok b t"
  by (induction c) auto

lemma fold_zero:
  "length (fold (\<lambda>a buf. buf[snd a := 0]) av buf) = length buf \<and>
     (i < length buf \<longrightarrow> fold (\<lambda>a buf. buf[snd a := 0]) av buf ! i = (if i \<in> snd ` set av then 0 else buf ! i))"
  by (induction av arbitrary: buf) (auto simp: nth_list_update)

lemma nulterminate_nth:
  "length (nulterminate c buf) = length buf \<and>
     (\<forall>i<length buf. nulterminate c buf ! i = (if i \<in> snd ` set (tokens c) then 0 else buf ! i))"
proof (induction c arbitrary: buf)
  case (EXEC av)
  show ?case by (simp add: fold_zero)
next
  case (REDIR c f m fd)
  from REDIR.IH [of buf] show ?case
    by (cases "snd f < length buf") (auto simp: nth_list_update list_update_beyond)
next
  case (PIPE l r)
  from PIPE.IH(1) [of buf] PIPE.IH(2) [of "nulterminate l buf"] show ?case by auto
next
  case (LIST l r)
  from LIST.IH(1) [of buf] LIST.IH(2) [of "nulterminate l buf"] show ?case by auto
next
  case (BACK c)
  from BACK.IH [of buf] show ?case by simp
qed

lemma nulterminate_str:
  assumes "cmd_ok b c" "t \<in> set (tokens c)"
  shows "str_at (nulterminate c (b @ [0])) t = text_of b t"
proof -
  obtain q e where t: "t = (q, e)" by (cases t)
  let ?buf = "nulterminate c (b @ [0])"
  have ok: "q < e" "e \<le> length b" "\<And>i. q \<le> i \<Longrightarrow> i < e \<Longrightarrow> plain (b ! i)"
    using cmd_ok_tokens [OF assms] by (auto simp: token_ok_def t)
  have keep: "?buf ! i = b ! i" if "q \<le> i" "i < e" for i
  proof -
    have "i \<notin> snd ` set (tokens c)"
    proof
      assume "i \<in> snd ` set (tokens c)"
      then obtain t' where "t' \<in> set (tokens c)" "i = snd t'" by auto
      with cmd_ok_tokens [OF assms(1) this(1)] that ok show False by (auto simp: token_ok_def)
    qed
    with nulterminate_nth [of c "b @ [0]"] that ok(2) show ?thesis by (auto simp: nth_append)
  qed
  have "?buf ! e = 0"
    using nulterminate_nth [of c "b @ [0]"] ok(2) assms(2) t by (force simp: nth_append)
  moreover have len: "length ?buf = length b + 1" using nulterminate_nth [of c "b @ [0]"] by simp
  ultimately have "drop e ?buf = 0 # drop (Suc e) ?buf" using ok(2) by (simp add: Cons_nth_drop_Suc [symmetric])
  moreover have "take (e - q) (drop q ?buf) = text_of b t"
    using keep ok(1,2) len by (auto simp: text_of_def t intro!: nth_equalityI)
  moreover have "drop q ?buf = take (e - q) (drop q ?buf) @ drop e ?buf"
    using ok(1) by (metis append_take_drop_id drop_drop le_add_diff_inverse2 less_imp_le)
  moreover have "\<forall>x\<in>set (text_of b t). x \<noteq> 0"
  proof
    fix x assume "x \<in> set (text_of b t)"
    then obtain j where "x = b ! (q + j)" "j < e - q" using ok(2) by (auto simp: text_of_def t in_set_conv_nth)
    with ok(3) [of "q + j"] show "x \<noteq> 0" by (auto simp: plain_def)
  qed
  ultimately show ?thesis using cstring_append_NUL by (simp add: str_at_def t)
qed

section \<open>Code that does not return\<close>

definition noreturn :: "('a, 'k) user \<Rightarrow> bool" where
  "noreturn m \<longleftrightarrow> (\<forall>k v k'. m k \<noteq> Ok (Val v, k'))"

lemma noreturn_uexit: "noreturn (uexit c)"
  by (simp add: noreturn_def uexit_def)

lemma noreturn_ubnd:
  assumes "\<And>a. noreturn (f a)"
  shows "noreturn (ubnd m f)"
  unfolding noreturn_def
proof (intro allI notI)
  fix k v k' assume "ubnd m f k = Ok (Val v, k')"
  then obtain r where "m k = Ok r" "ubind r f = Ok (Val v, k')" by (auto simp: ubnd_def bnd_eq_Ok_iff)
  then show False using assms by (cases "(r, f)" rule: ubind.cases) (auto simp: noreturn_def)
qed

lemma noreturn_first:
  assumes "noreturn m"
  shows "noreturn (ubnd m f)"
  unfolding noreturn_def
proof (intro allI notI)
  fix k v k' assume "ubnd m f k = Ok (Val v, k')"
  then obtain r where "m k = Ok r" "ubind r f = Ok (Val v, k')" by (auto simp: ubnd_def bnd_eq_Ok_iff)
  then show False using assms by (cases "(r, f)" rule: ubind.cases) (auto simp: noreturn_def)
qed

lemma noreturn_panic: "noreturn (panic_u S m)"
  unfolding panic_u_def by (intro noreturn_ubnd noreturn_uexit)

lemma parsecmd_eq_Ok:
  assumes "parsecmd S b k = Ok (Val (c, buf), k')"
  shows "\<exists>s. parseline (length b + 2) b 0 = Ok (c, s) \<and> snd (peek b s []) = length b \<and> buf = nulterminate c (b @ [0]) \<and> k' = k"
proof -
  have panics: "panic_u S m k \<noteq> Ok (Val (c, buf), k')" for m
    by (rule noreturn_panic [unfolded noreturn_def, rule_format])
  have leftovers: "ubnd m (\<lambda>_. panic_u S e) k \<noteq> Ok (Val (c, buf), k')" for m :: "(unit, 'a) user" and e
    by (rule noreturn_ubnd [OF noreturn_panic, unfolded noreturn_def, rule_format])
  from assms panics leftovers show ?thesis
    by (auto simp: parsecmd_def uret_def Let_def split: res.splits prod.splits if_splits)
qed

lemma noreturn_runcmd: "noreturn (runcmd S buf c)"
proof (induction c)
  case (REDIR c f m fd)
  show ?case by (auto intro!: noreturn_ubnd noreturn_uexit)
next
  case (PIPE l r)
  show ?case by (auto intro!: noreturn_ubnd noreturn_uexit)
qed (auto intro!: noreturn_ubnd noreturn_uexit)

text \<open>
  C38: every line is parsed in the end: whatever the line, \<^verbatim>\<open>parseline\<close> returns a command, all of whose
  words are words of the line with fewer than \<open>MAXARGS\<close> arguments a command, or \<^verbatim>\<open>panic\<close> is called with one of
  five messages. In particular the call \<^verbatim>\<open>panic("parseblock")\<close> aside, no loop of the parser runs forever.
\<close>

theorem parser_ends:
  assumes "0 \<notin> set b"
  shows "(\<exists>c s. parseline (length b + 2) b 0 = Ok (c, s) \<and> s \<le> length b \<and> cmd_ok b c)
    \<or> (\<exists>m\<in>syntax_errors. parseline (length b + 2) b 0 = Panic m)"
  using parseline_ok [OF assms, of 0 "length b + 2"] by (auto simp: parsed_def split: res.splits)

text \<open>
  C39: \<^verbatim>\<open>nulterminate\<close> makes every word of the parsed command the string it was on the line, and its NULs
  overwrite no byte of another word: after \<^verbatim>\<open>parsecmd\<close> each argument and file name, read up to its NUL, is
  exactly the text between the two pointers the parser kept.
\<close>

theorem parsecmd_strings:
  assumes "0 \<notin> set b" and "parsecmd S b k = Ok (Val (c, buf), k')" and "t \<in> set (tokens c)"
  shows "str_at buf t = text_of b t \<and> text_of b t \<noteq> [] \<and> (\<forall>x\<in>set (text_of b t). plain x)"
proof -
  from parsecmd_eq_Ok [OF assms(2)] obtain s where
    p: "parseline (length b + 2) b 0 = Ok (c, s)" and buf: "buf = nulterminate c (b @ [0])" by blast
  with parseline_ok [OF assms(1), of 0 "length b + 2"] have ok: "cmd_ok b c" by (simp add: parsed_def)
  from cmd_ok_tokens [OF this assms(3)] have "token_ok b t" .
  then have "text_of b t \<noteq> [] \<and> (\<forall>x\<in>set (text_of b t). plain x)"
    by (auto simp: token_ok_def text_of_def in_set_conv_nth)
  with nulterminate_str [OF ok assms(3)] buf show ?thesis by simp
qed

end
