(* ===== verification/Xv6_Shell_Roundtrip.thy ===== *)
theory Xv6_Shell_Roundtrip
  imports Xv6_Shell
begin

text \<open>
  The parser of the shell reads back every command that is written as a line.
\<close>

section \<open>Printing a command\<close>

text \<open>Commands over strings, what a parsed command stands for, and a command as a line.\<close>

datatype scmd =
    SExec "u8 list list"
  | SRedir scmd "u8 list" u32 int
  | SPipe scmd scmd
  | SList scmd scmd
  | SBack scmd

primrec stands :: "(token \<Rightarrow> u8 list) \<Rightarrow> cmd \<Rightarrow> scmd" where
  "stands str (EXEC av) = SExec (map str av)"
| "stands str (REDIR c f m fd) = SRedir (stands str c) (str f) m fd"
| "stands str (PIPE l r) = SPipe (stands str l) (stands str r)"
| "stands str (LIST l r) = SList (stands str l) (stands str r)"
| "stands str (BACK c) = SBack (stands str c)"

definition is_word :: "u8 list \<Rightarrow> bool" where
  "is_word w \<longleftrightarrow> w \<noteq> [] \<and> (\<forall>x\<in>set w. plain x)"

definition redir_op :: "u32 \<Rightarrow> string" where
  "redir_op m = (if m = word_of_int O_RDONLY then ''<'' else if m = O_WRONLY OR O_CREATE OR O_TRUNC then ''>'' else ''>>'')"

definition redir_ok :: "u32 \<Rightarrow> int \<Rightarrow> bool" where
  "redir_ok m fd \<longleftrightarrow> (m, fd) \<in> {(word_of_int O_RDONLY, 0), (O_WRONLY OR O_CREATE OR O_TRUNC, 1), (O_WRONLY OR O_CREATE, 1)}"

primrec scmd_ok :: "scmd \<Rightarrow> bool" where
  "scmd_ok (SExec ws) \<longleftrightarrow> length ws < MAXARGS \<and> (\<forall>w\<in>set ws. is_word w)"
| "scmd_ok (SRedir c f m fd) \<longleftrightarrow> scmd_ok c \<and> is_word f \<and> redir_ok m fd"
| "scmd_ok (SPipe l r) \<longleftrightarrow> scmd_ok l \<and> scmd_ok r"
| "scmd_ok (SList l r) \<longleftrightarrow> scmd_ok l \<and> scmd_ok r"
| "scmd_ok (SBack c) \<longleftrightarrow> scmd_ok c"

definition paren :: "bool \<Rightarrow> u8 list \<Rightarrow> u8 list" where
  "paren p t = (if p then map of_char ''('' @ t @ map of_char '')'' else t)"

text \<open>The levels of the grammar: 0 a line, 1 a command with ampersands, 2 a pipeline, 3 a simple command or block.\<close>

primrec show_cmd :: "nat \<Rightarrow> scmd \<Rightarrow> u8 list" where
  "show_cmd p (SExec ws) = concat (map (\<lambda>w. w @ [32]) ws)"
| "show_cmd p (SRedir c f m fd) = show_cmd 3 c @ map of_char (redir_op m) @ f @ [32]"
| "show_cmd p (SPipe l r) = paren (2 < p) (show_cmd 3 l @ map of_char ''|'' @ show_cmd 2 r)"
| "show_cmd p (SBack c) = paren (1 < p) (show_cmd 1 c @ map of_char ''&'')"
| "show_cmd p (SList l r) = paren (0 < p) (show_cmd 1 l @ map of_char '';'' @ show_cmd 0 r)"

section \<open>Reading what was printed\<close>

definition text_at :: "u8 list \<Rightarrow> nat \<Rightarrow> u8 list \<Rightarrow> bool" where
  "text_at b s t \<longleftrightarrow> s + length t \<le> length b \<and> (\<forall>i<length t. b ! (s + i) = t ! i)"

text \<open>No white space at \<open>s\<close>; only white space from \<open>s\<close> on, or one of the symbols at \<open>s\<close>.\<close>

definition solid :: "u8 list \<Rightarrow> nat \<Rightarrow> bool" where
  "solid b s \<longleftrightarrow> (s < length b \<longrightarrow> \<not> is_white (b ! s))"

definition stops :: "string \<Rightarrow> u8 list \<Rightarrow> nat \<Rightarrow> bool" where
  "stops toks b s \<longleftrightarrow> skip_white b s = length b \<or> s < length b \<and> b ! s \<in> of_char ` set toks"

lemma text_at_append [simp]: "text_at b s (t @ u) \<longleftrightarrow> text_at b s t \<and> text_at b (s + length t) u"
proof
  assume a: "text_at b s (t @ u)"
  have "b ! (s + length t + i) = u ! i" if "i < length u" for i
    using a that by (auto simp: text_at_def nth_append dest!: spec [of _ "length t + i"] simp: add.assoc)
  moreover have "b ! (s + i) = t ! i" if "i < length t" for i
    using a that by (auto simp: text_at_def nth_append dest!: spec [of _ i])
  ultimately show "text_at b s t \<and> text_at b (s + length t) u" using a by (auto simp: text_at_def)
next
  assume a: "text_at b s t \<and> text_at b (s + length t) u"
  have "b ! (s + i) = (t @ u) ! i" if "i < length t + length u" for i
  proof (cases "i < length t")
    case False
    have "\<forall>j<length u. b ! (s + length t + j) = u ! j" using a by (simp add: text_at_def)
    from spec [OF this, of "i - length t"] False that show ?thesis by (simp add: nth_append)
  qed (use a in \<open>simp add: text_at_def nth_append\<close>)
  with a show "text_at b s (t @ u)" by (simp add: text_at_def)
qed

lemma text_at_Nil [simp]: "text_at b s [] \<longleftrightarrow> s \<le> length b"
  by (simp add: text_at_def)

lemma text_at_single [simp]: "text_at b s [c] \<longleftrightarrow> s < length b \<and> b ! s = c"
  by (auto simp: text_at_def)

lemma text_at_Cons [simp]: "text_at b s (x # t) \<longleftrightarrow> s < length b \<and> b ! s = x \<and> text_at b (Suc s) t"
proof -
  have "text_at b s ([x] @ t) \<longleftrightarrow> text_at b s [x] \<and> text_at b (s + length [x]) t" by (rule text_at_append)
  then show ?thesis unfolding text_at_single by simp
qed

lemma solid_skip [simp]: "solid b s \<Longrightarrow> skip_white b s = s"
  by (subst skip_white.simps) (auto simp: solid_def arr_get_def)

lemma skip_white_idem [simp]: "s \<le> length b \<Longrightarrow> skip_white b (skip_white b s) = skip_white b s"
  using skip_white_spec [of s b] by (intro solid_skip) (simp add: solid_def)

lemma word_not_white: "is_word w \<Longrightarrow> text_at b s (w @ u) \<Longrightarrow> solid b s"
  by (cases w) (auto simp: is_word_def text_at_def solid_def plain_def dest!: spec [of _ 0])

lemma skip_word_at:
  assumes "text_at b s w" "\<forall>x\<in>set w. plain x" "s + length w < length b \<longrightarrow> \<not> plain (b ! (s + length w))" "0 \<notin> set b"
  shows "skip_word b s = s + length w"
  using assms(1-3)
proof (induction w arbitrary: s)
  case Nil
  then have "\<not> (s < length b \<and> \<not> is_white (arr_get b s) \<and> \<not> is_symbol (arr_get b s))"
    using assms(4) nth_mem [of s b] by (auto simp: plain_def arr_get_def simp del: nth_mem)
  then show ?case by (subst skip_word.simps) auto
next
  case (Cons x w)
  then have at: "s < length b" "b ! s = x" "text_at b (s + 1) w" by auto
  with Cons.prems(2) have "skip_word b s = skip_word b (s + 1)" by (subst skip_word.simps) (auto simp: plain_def arr_get_def)
  with Cons.IH [OF at(3)] Cons.prems show ?case by simp
qed

lemma gettoken_word:
  assumes "text_at b s (w @ [32])" "is_word w" "0 \<notin> set b"
  shows "gettoken b s = (of_char CHR ''a'', (s, s + length w), skip_white b (s + length w + 1))"
proof -
  obtain x w' where w: "w = x # w'" using assms(2) by (cases w) (auto simp: is_word_def)
  have x: "s < length b" "b ! s = x" "plain x"
    using assms(1,2) by (auto simp: w is_word_def)
  have sp: "s + length w < length b" "b ! (s + length w) = 32" "is_white 32"
    using assms(1) by (auto simp: is_white_iff whitespace_def)
  have "skip_word b s = s + length w"
    using assms sp by (intro skip_word_at) (auto simp: is_word_def plain_def)
  moreover have "skip_white b (s + length w) = skip_white b (s + length w + 1)"
    using sp by (subst skip_white.simps) (simp add: arr_get_def)
  ultimately show ?thesis
    using x word_not_white [OF assms(2,1)] by (simp add: gettoken_def Let_def arr_get_def plain_def is_symbol_iff)
qed

lemma gettoken_symbol:
  assumes "s < length b" "b ! s = of_char c" "c \<in> set ''|();&<''"
  shows "gettoken b s = (of_char c, (s, s + 1), skip_white b (s + 1))"
proof -
  have "solid b s" using assms(2,3) by (auto simp: solid_def is_white_iff whitespace_def)
  then show ?thesis using assms by (auto simp: gettoken_def Let_def arr_get_def)
qed

lemma peek_solid:
  assumes "solid b s"
  shows "peek b s toks = (s < length b \<and> b ! s \<noteq> 0 \<and> strchr_u (map of_char toks) (b ! s) \<noteq> None, s)"
  using assms by (auto simp: peek_def Let_def arr_get_def)

lemma peek_end: "skip_white b s = length b \<Longrightarrow> peek b s toks = (False, skip_white b s)"
  by (simp add: peek_def Let_def arr_get_def)

lemma strchr_in: "0 \<notin> set t \<Longrightarrow> strchr_u t c \<noteq> None \<longleftrightarrow> c \<in> set t"
  by (induction t) auto

text \<open>Every part of the parser skips white space first.\<close>

lemma peek_skip: "s \<le> length b \<Longrightarrow> peek b (skip_white b s) toks = peek b s toks"
  by (simp add: peek_def Let_def)

lemma gettoken_skip: "s \<le> length b \<Longrightarrow> gettoken b (skip_white b s) = gettoken b s"
  by (simp add: gettoken_def Let_def)

lemma parseredirs_skip: "s \<le> length b \<Longrightarrow> parseredirs b (c, skip_white b s) = parseredirs b (c, s)"
  unfolding parseredirs_def by (subst (1 2) loop_res_unfold) (simp add: parseredirs_step_def peek_skip)

lemma parseexec_loop_skip:
  "s \<le> length b \<Longrightarrow> loop_res (parseexec_step b) (c, n, skip_white b s) = loop_res (parseexec_step b) (c, n, s)"
  by (subst (1 2) loop_res_unfold) (simp add: parseexec_step_def peek_skip)

lemma parseexec_skip: "s \<le> length b \<Longrightarrow> parseexec line b (skip_white b s) = parseexec line b s"
  by (simp add: parseexec_def peek_skip)

lemma parsepipe_skip: "s \<le> length b \<Longrightarrow> parsepipe n line b (skip_white b s) = parsepipe n line b s"
  by (cases n) (simp_all add: parseexec_skip)

lemma parseback_skip:
  "s \<le> length b \<Longrightarrow> loop_res (parseback_step b) (c, skip_white b s) = loop_res (parseback_step b) (c, s)"
  by (subst (1 2) loop_res_unfold) (simp add: parseback_step_def peek_skip)

lemma parseline_skip: "s \<le> length b \<Longrightarrow> parseline n b (skip_white b s) = parseline n b s"
  by (cases n) (simp_all add: parsepipe_skip)

text \<open>Redirections at the end of a command.\<close>

type_synonym redirs = "(u8 list \<times> u32 \<times> int) list"

definition redirs_text :: "redirs \<Rightarrow> u8 list" where
  "redirs_text rs = concat (map (\<lambda>(f, m, fd). map of_char (redir_op m) @ f @ [32]) rs)"

definition redirs_ok :: "redirs \<Rightarrow> bool" where
  "redirs_ok rs \<longleftrightarrow> (\<forall>(f, m, fd)\<in>set rs. is_word f \<and> redir_ok m fd)"

definition wrap :: "scmd \<Rightarrow> redirs \<Rightarrow> scmd" where
  "wrap c rs = foldl (\<lambda>c (f, m, fd). SRedir c f m fd) c rs"

lemma show_wrap: "show_cmd 3 (wrap c rs) = show_cmd 3 c @ redirs_text rs"
  by (induction rs rule: rev_induct) (auto simp: wrap_def redirs_text_def)

lemma text_of_at: "text_at b s w \<Longrightarrow> text_of b (s, s + length w) = w"
  by (auto simp: text_of_def text_at_def intro!: nth_equalityI)

lemma modes_distinct:
  "word_of_int O_RDONLY \<noteq> O_WRONLY OR O_CREATE OR O_TRUNC" "word_of_int O_RDONLY \<noteq> O_WRONLY OR O_CREATE"
  "O_WRONLY OR O_CREATE OR O_TRUNC \<noteq> O_WRONLY OR O_CREATE"
  by (simp_all add: O_RDONLY_def O_WRONLY_def O_CREATE_def O_TRUNC_def)

lemma solid_redir: "text_at b s (map of_char (redir_op m) @ t) \<Longrightarrow> solid b s"
  by (auto simp: redir_op_def solid_def is_white_iff whitespace_def split: if_splits)

lemma peek_redir: "text_at b s (map of_char (redir_op m) @ t) \<Longrightarrow> peek b s ''<>'' = (True, s)"
  by (subst peek_solid [OF solid_redir]) (auto simp: redir_op_def split: if_splits)

lemma word_first: "is_word f \<Longrightarrow> text_at b s f \<Longrightarrow> s < length b \<and> plain (b ! s)"
  by (cases f) (auto simp: is_word_def)

lemma gettoken_redir:
  assumes "text_at b s (map of_char (redir_op m) @ f @ [32])" "is_word f" "redir_ok m fd"
  shows "\<exists>tok q. gettoken b s = (tok, q, s + length (redir_op m)) \<and>
    (if tok = of_char CHR ''<'' then REDIR c t (word_of_int O_RDONLY) 0
     else if tok = of_char CHR ''>'' then REDIR c t (O_WRONLY OR O_CREATE OR O_TRUNC) 1
     else if tok = of_char CHR ''+'' then REDIR c t (O_WRONLY OR O_CREATE) 1 else c) = REDIR c t m fd"
proof -
  have sol: "solid b s" using assms(1) by (rule solid_redir)
  have f: "text_at b (s + length (redir_op m)) f" using assms(1) by simp
  then have pl: "s + length (redir_op m) < length b" "plain (b ! (s + length (redir_op m)))" using word_first assms(2) by auto
  then have sol2: "solid b (s + length (redir_op m))" by (simp add: solid_def plain_def)
  from assms(3) consider "m = word_of_int O_RDONLY" "fd = 0" | "m = O_WRONLY OR O_CREATE OR O_TRUNC" "fd = 1"
    | "m = O_WRONLY OR O_CREATE" "fd = 1" by (auto simp: redir_ok_def)
  then show ?thesis
  proof cases
    case 1
    then have op: "redir_op m = ''<''" by (simp add: redir_op_def)
    have "gettoken b s = (of_char CHR ''<'', (s, s + 1), s + 1)"
      using assms(1) sol2 op gettoken_symbol [of s b "CHR ''<''"] by auto
    with 1 op show ?thesis by auto
  next
    case 2
    then have op: "redir_op m = ''>''" using modes_distinct by (auto simp: redir_op_def)
    have "b ! (s + 1) \<noteq> of_char CHR ''>''" using pl(2) op by (auto simp: plain_def is_symbol_iff)
    then have "gettoken b s = (of_char CHR ''>'', (s, s + 1), s + 1)"
      using assms(1) sol sol2 op pl(1) by (auto simp: gettoken_def Let_def arr_get_def)
    with 2 op show ?thesis by auto
  next
    case 3
    then have op: "redir_op m = ''>>''" using modes_distinct by (auto simp: redir_op_def)
    then have "gettoken b s = (of_char CHR ''+'', (s, s + 2), s + 2)"
      using assms(1) sol sol2 by (auto simp: gettoken_def Let_def arr_get_def)
    with 3 op show ?thesis by auto
  qed
qed

definition no_redir :: "u8 list \<Rightarrow> nat \<Rightarrow> bool" where
  "no_redir b s \<longleftrightarrow> skip_white b s = length b
     \<or> s < length b \<and> \<not> is_white (b ! s) \<and> b ! s \<noteq> of_char CHR ''<'' \<and> b ! s \<noteq> of_char CHR ''>''"

lemma parseredirs_none:
  assumes "no_redir b s"
  shows "parseredirs b (c, s) = Ok (c, skip_white b s)"
proof (cases "skip_white b s = length b")
  case True
  then show ?thesis unfolding parseredirs_def
    by (subst loop_res_unfold) (simp add: parseredirs_step_def peek_end)
next
  case False
  then have "solid b s" using assms by (auto simp: no_redir_def solid_def)
  with False assms show ?thesis unfolding parseredirs_def
    by (subst loop_res_unfold) (auto simp: parseredirs_step_def peek_solid no_redir_def)
qed

lemma parseredirs_reads:
  assumes "0 \<notin> set b" "text_at b s (redirs_text rs)" "redirs_ok rs" "no_redir b (s + length (redirs_text rs))"
  shows "\<exists>c'. parseredirs b (c, s) = Ok (c', skip_white b (s + length (redirs_text rs)))
    \<and> stands (text_of b) c' = wrap (stands (text_of b) c) rs"
  using assms(2-4)
proof (induction rs arbitrary: c s)
  case Nil
  then show ?case using parseredirs_none by (auto simp: redirs_text_def wrap_def)
next
  case (Cons r rs)
  obtain f m fd where r: "r = (f, m, fd)" by (cases r)
  let ?op = "map of_char (redir_op m)" and ?s = "s + length (redir_op m)"
  let ?t = "s + length (redir_op m) + length f + 1"
  have tx: "redirs_text (r # rs) = (?op @ f @ [32]) @ redirs_text rs" by (simp add: redirs_text_def r)
  have ok: "is_word f" "redir_ok m fd" "redirs_ok rs" using Cons.prems(2) by (auto simp: redirs_ok_def r)
  have at: "text_at b s (?op @ f @ [32])" "text_at b ?t (redirs_text rs)"
    using Cons.prems(1) by (auto simp: tx add.assoc)
  have nr: "no_redir b (?t + length (redirs_text rs))" using Cons.prems(3) by (simp add: tx add.assoc)
  have g2: "gettoken b ?s = (of_char CHR ''a'', (?s, ?s + length f), skip_white b ?t)"
    using gettoken_word [of b ?s f] at(1) ok(1) assms(1) by (auto simp: add.assoc)
  obtain tok q where g1: "gettoken b s = (tok, q, ?s)"
    "(if tok = of_char CHR ''<'' then REDIR c (?s, ?s + length f) (word_of_int O_RDONLY) 0
     else if tok = of_char CHR ''>'' then REDIR c (?s, ?s + length f) (O_WRONLY OR O_CREATE OR O_TRUNC) 1
     else if tok = of_char CHR ''+'' then REDIR c (?s, ?s + length f) (O_WRONLY OR O_CREATE) 1 else c) =
     REDIR c (?s, ?s + length f) m fd"
    using gettoken_redir [OF at(1) ok(1,2), of c "(?s, ?s + length f)"] by blast
  have "parseredirs_step b (c, s) = Ok (Next (REDIR c (?s, ?s + length f) m fd, skip_white b ?t))"
    unfolding parseredirs_step_def using peek_redir [OF at(1)] g1 g2 by (simp del: of_char_Char)
  then have "parseredirs b (c, s) = parseredirs b (REDIR c (?s, ?s + length f) m fd, skip_white b ?t)"
    unfolding parseredirs_def by (subst loop_res_unfold) simp
  also have "\<dots> = parseredirs b (REDIR c (?s, ?s + length f) m fd, ?t)" using at(2) by (intro parseredirs_skip) (simp add: text_at_def)
  finally have "parseredirs b (c, s) = parseredirs b (REDIR c (?s, ?s + length f) m fd, ?t)" .
  moreover obtain c' where "parseredirs b (REDIR c (?s, ?s + length f) m fd, ?t) = Ok (c', skip_white b (?t + length (redirs_text rs)))"
    "stands (text_of b) c' = wrap (stands (text_of b) (REDIR c (?s, ?s + length f) m fd)) rs"
    using Cons.IH [OF at(2) ok(3) nr] by blast
  moreover have "text_of b (?s, ?s + length f) = f" using at(1) by (intro text_of_at) simp
  moreover have "wrap d (r # rs) = wrap (SRedir d f m fd) rs" for d by (simp add: wrap_def r)
  ultimately show ?case by (intro exI [of _ c']) (simp add: tx add.assoc)
qed

text \<open>The words of a simple command and the redirections behind them.\<close>

abbreviation words_text :: "u8 list list \<Rightarrow> u8 list" where
  "words_text ws \<equiv> concat (map (\<lambda>w. w @ [32]) ws)"

lemma stops_no_redir: "stops toks b s \<Longrightarrow> set toks \<subseteq> set ''|&;()'' \<Longrightarrow> no_redir b s"
  by (auto simp: no_redir_def stops_def is_white_iff whitespace_def)

lemma exec_end:
  assumes "stops ''|)&;'' b e" "e \<le> length b"
  shows "loop_res (parseexec_step b) (c, n, e) = Ok (c, skip_white b e)"
proof (cases "skip_white b e = length b")
  case True
  then have "gettoken b (length b) = (0, (length b, length b), length b)"
    by (simp add: gettoken_def arr_get_def Let_def solid_def)
  with True show ?thesis by (subst loop_res_unfold) (simp add: parseexec_step_def peek_end)
next
  case False
  then have "solid b e" using assms by (auto simp: stops_def solid_def is_white_iff whitespace_def)
  with False assms show ?thesis
    by (subst loop_res_unfold) (auto simp: parseexec_step_def peek_solid stops_def)
qed

lemma words_read:
  assumes "0 \<notin> set b" "ws \<noteq> []" "text_at b s (words_text ws @ redirs_text rs)" "\<forall>w\<in>set ws. is_word w" "redirs_ok rs"
    "stops ''|)&;'' b (s + length (words_text ws @ redirs_text rs))" "length av + length ws < MAXARGS"
  shows "\<exists>c'. loop_res (parseexec_step b) (EXEC av, length av, s) = Ok (c', skip_white b (s + length (words_text ws @ redirs_text rs)))
    \<and> stands (text_of b) c' = wrap (SExec (map (text_of b) av @ ws)) rs"
  using assms(2-4,6,7)
proof (induction ws arbitrary: s av)
  case (Cons w ws)
  note IH = Cons.IH and prems = Cons.prems
  let ?s = "s + length w + 1" and ?a = "(s, s + length w)"
  have w: "is_word w" "text_at b s (w @ [32])" "text_at b ?s (words_text ws @ redirs_text rs)"
    using prems(2,3) by (auto simp: add.assoc)
  then have le: "?s \<le> length b" "?s + length (words_text ws @ redirs_text rs) \<le> length b" by (auto simp: text_at_def)
  have e: "stops ''|)&;'' b (?s + length (words_text ws @ redirs_text rs))" using prems(4) by (simp add: add.assoc)
  have sol0: "solid b s" using word_not_white [OF w(1,2)] .
  have pl: "s < length b" "plain (b ! s)" using word_first [OF w(1), of b s] w(2) by auto
  have pk: "peek b s ''|)&;'' = (False, s)" using pl sol0 by (auto simp: peek_solid plain_def is_symbol_iff)
  have tx1: "text_of b ?a = w" using w(2) by (intro text_of_at) simp
  have step: "parseexec_step b (EXEC av, length av, s) = bnd (parseredirs b (EXEC (av @ [?a]), ?s)) (\<lambda>(c, s). Ok (Next (c, length av + 1, s)))"
    using gettoken_word [OF w(2,1) assms(1)] pk prems(5) parseredirs_skip [OF le(1)] by (simp add: parseexec_step_def)
  show ?case
  proof (cases ws)
    case Nil
    let ?e = "?s + length (redirs_text rs)"
    have nr: "no_redir b ?e" using e Nil by (intro stops_no_redir [of "''|)&;''"]) auto
    obtain c' where c': "parseredirs b (EXEC (av @ [?a]), ?s) = Ok (c', skip_white b ?e)"
      "stands (text_of b) c' = wrap (SExec (map (text_of b) av @ [w])) rs"
      using parseredirs_reads [OF assms(1) _ assms(5) nr, of "EXEC (av @ [?a])"] w(3) Nil tx1 by auto
    have "loop_res (parseexec_step b) (c', length av + 1, skip_white b ?e) = Ok (c', skip_white b ?e)"
      using exec_end [of b ?e] parseexec_loop_skip [of ?e b] e le(2) Nil by simp
    then show ?thesis using step Nil c' by (subst loop_res_unfold) (simp add: add.assoc)
  next
    case (Cons w2 ws2)
    then have w2: "is_word w2" "text_at b ?s w2" using prems(3) w(3) by auto
    have sol: "solid b ?s" using word_first [OF w2] by (simp add: solid_def plain_def)
    moreover have "no_redir b ?s"
      using word_first [OF w2] by (auto simp: no_redir_def solid_def plain_def is_symbol_iff)
    ultimately have "loop_res (parseexec_step b) (EXEC av, length av, s) = loop_res (parseexec_step b) (EXEC (av @ [?a]), length (av @ [?a]), ?s)"
      using step parseredirs_none by (subst loop_res_unfold) simp
    moreover obtain c' where "loop_res (parseexec_step b) (EXEC (av @ [?a]), length (av @ [?a]), ?s) =
        Ok (c', skip_white b (?s + length (words_text ws @ redirs_text rs)))"
      "stands (text_of b) c' = wrap (SExec (map (text_of b) (av @ [?a]) @ ws)) rs"
      using IH [of ?s "av @ [?a]"] Cons w(3) e prems by auto
    ultimately show ?thesis using tx1 by (intro exI [of _ c']) (simp add: add.assoc)
  qed
qed simp

section \<open>The round trip\<close>

text \<open>The parser has read \<open>c\<close> up to \<open>e\<close> and the white space there; then for each level of the grammar.\<close>

definition reads :: "u8 list \<Rightarrow> (cmd \<times> nat) res \<Rightarrow> nat \<Rightarrow> scmd \<Rightarrow> bool" where
  "reads b r e c \<longleftrightarrow> (\<exists>c'. r = Ok (c', skip_white b e) \<and> stands (text_of b) c' = c)"

definition exec_level :: "u8 list \<Rightarrow> scmd \<Rightarrow> bool" where
  "exec_level b c \<longleftrightarrow> (\<forall>s n. text_at b s (show_cmd 3 c) \<longrightarrow> stops ''|)&;'' b (s + length (show_cmd 3 c)) \<longrightarrow>
     length b - s < n \<longrightarrow> reads b (parseexec (parseline n b) b s) (s + length (show_cmd 3 c)) c)"

definition pipe_level :: "u8 list \<Rightarrow> scmd \<Rightarrow> bool" where
  "pipe_level b c \<longleftrightarrow> (\<forall>s m n. text_at b s (show_cmd 2 c) \<longrightarrow> stops '')&;'' b (s + length (show_cmd 2 c)) \<longrightarrow>
     length b - s < m \<longrightarrow> length b - s < n \<longrightarrow> reads b (parsepipe m (parseline n b) b s) (s + length (show_cmd 2 c)) c)"

definition back_level :: "u8 list \<Rightarrow> scmd \<Rightarrow> bool" where
  "back_level b c \<longleftrightarrow> (\<forall>s n. text_at b s (show_cmd 1 c) \<longrightarrow> stops '')&;'' b (s + length (show_cmd 1 c)) \<longrightarrow>
     length b - s < n \<longrightarrow> (\<exists>c'. stands (text_of b) c' = c \<and>
       bnd (parsepipe n (parseline n b) b s) (loop_res (parseback_step b)) = loop_res (parseback_step b) (c', s + length (show_cmd 1 c))))"

definition line_level :: "u8 list \<Rightarrow> scmd \<Rightarrow> bool" where
  "line_level b c \<longleftrightarrow> (\<forall>s n. text_at b s (show_cmd 0 c) \<longrightarrow> stops '')'' b (s + length (show_cmd 0 c)) \<longrightarrow>
     length b - s + 1 < n \<longrightarrow> reads b (parseline n b s) (s + length (show_cmd 0 c)) c)"

lemma stops_mono: "stops t b s \<Longrightarrow> set t \<subseteq> set u \<Longrightarrow> stops u b s"
  by (auto simp: stops_def)

lemma stops_solid:
  "stops toks b s \<Longrightarrow> set toks \<subseteq> set ''<|>&;()'' \<Longrightarrow> skip_white b s \<noteq> length b \<Longrightarrow> solid b s"
  by (auto simp: stops_def solid_def is_white_iff whitespace_def)

lemma peek_stops:
  assumes "stops t b s" "set t \<subseteq> set ''<|>&;()''" "set t \<inter> set u = {}" "set u \<subseteq> set ''<|>&;()''"
  shows "peek b s u = (False, skip_white b s)"
proof (cases "skip_white b s = length b")
  case True
  then show ?thesis by (rule peek_end)
next
  case False
  then have here: "s < length b" "b ! s \<in> of_char ` set t" using assms(1) by (auto simp: stops_def)
  have "(0::u8) \<notin> of_char ` set u" using assms(4) by auto
  moreover have "b ! s \<notin> of_char ` set u"
  proof
    assume "b ! s \<in> of_char ` set u"
    then obtain x y where xy: "x \<in> set t" "y \<in> set u" "of_char x = (of_char y :: u8)" using here(2) by auto
    have "x \<in> set ''<|>&;()''" "y \<in> set ''<|>&;()''" using xy(1,2) assms(2,4) by blast+
    with xy(3) have "x = y" by auto
    with xy(1,2) assms(3) show False by auto
  qed
  ultimately have "strchr_u (map of_char u) (b ! s) = None" using strchr_in [of "map of_char u" "b ! s"] by simp
  then show ?thesis using peek_solid [OF stops_solid [OF assms(1,2) False], of u] stops_solid [OF assms(1,2) False] by simp
qed

lemma peek_symbol:
  assumes "s < length b" "b ! s = of_char c" "c \<in> set ''|();&<''" "c \<in> set u"  "set u \<subseteq> set ''<|>&;()''"
  shows "peek b s u = (True, s)"
proof -
  have "(0::u8) \<notin> of_char ` set u" using assms(5) by auto
  then have "strchr_u (map of_char u) (b ! s) \<noteq> None" using strchr_in [of "map of_char u" "b ! s"] assms(2,4) by simp
  moreover have "solid b s" "b ! s \<noteq> 0" using assms(2,3) by (auto simp: solid_def is_white_iff whitespace_def)
  ultimately show ?thesis using assms(1) by (simp add: peek_solid)
qed

lemma exec_to_pipe:
  assumes "exec_level b c" "show_cmd 2 c = show_cmd 3 c"
  shows "pipe_level b c"
  unfolding pipe_level_def
proof (intro allI impI)
  fix s m n
  assume a: "text_at b s (show_cmd 2 c)" "stops '')&;'' b (s + length (show_cmd 2 c))" "length b - s < m" "length b - s < n"
  have "stops ''|)&;'' b (s + length (show_cmd 3 c))" using a(2) assms(2) by (auto intro: stops_mono)
  then obtain c' where c': "parseexec (parseline n b) b s = Ok (c', skip_white b (s + length (show_cmd 3 c)))" "stands (text_of b) c' = c"
    using assms a unfolding exec_level_def reads_def by metis
  have le: "s + length (show_cmd 3 c) \<le> length b" using a(1) assms(2) by (simp add: text_at_def)
  have "peek b (skip_white b (s + length (show_cmd 3 c))) ''|'' = (False, skip_white b (s + length (show_cmd 3 c)))"
    unfolding peek_skip [OF le] using a(2) assms(2) by (intro peek_stops [of "'')&;''"]) auto
  with c' a(3) assms(2) show "reads b (parsepipe m (parseline n b) b s) (s + length (show_cmd 2 c)) c"
    by (cases m) (auto simp: reads_def)
qed

lemma pipe_to_back:
  assumes "pipe_level b c" "show_cmd 1 c = show_cmd 2 c"
  shows "back_level b c"
  unfolding back_level_def
proof (intro allI impI)
  fix s n
  assume a: "text_at b s (show_cmd 1 c)" "stops '')&;'' b (s + length (show_cmd 1 c))" "length b - s < n"
  then obtain c' where c': "parsepipe n (parseline n b) b s = Ok (c', skip_white b (s + length (show_cmd 2 c)))" "stands (text_of b) c' = c"
    using assms unfolding pipe_level_def reads_def by metis
  have "s + length (show_cmd 2 c) \<le> length b" using a(1) assms(2) by (simp add: text_at_def)
  from parseback_skip [OF this] c' show "\<exists>c'. stands (text_of b) c' = c \<and> bnd (parsepipe n (parseline n b) b s) (loop_res (parseback_step b)) =
      loop_res (parseback_step b) (c', s + length (show_cmd 1 c))"
    using assms(2) by auto
qed

lemma back_ends:
  assumes "stops '');'' b s"
  shows "loop_res (parseback_step b) (c, s) = Ok (c, skip_white b s)"
proof -
  have "peek b s ''&'' = (False, skip_white b s)" using assms by (intro peek_stops [of "'');''"]) auto
  then show ?thesis by (subst loop_res_unfold) (simp add: parseback_step_def)
qed

lemma parseline_split: "parseline (Suc n) b s =
     bnd (bnd (parsepipe n (parseline n b) b s) (loop_res (parseback_step b))) (\<lambda>(cmd, s).
     let (p, s) = peek b s '';''
     in if p then let (_, _, s) = gettoken b s
                  in bnd (parseline n b s) (\<lambda>(r, s). Ok (LIST cmd r, s))
        else Ok (cmd, s))"
  by simp

lemma back_to_line:
  assumes "back_level b c" "show_cmd 0 c = show_cmd 1 c"
  shows "line_level b c"
  unfolding line_level_def
proof (intro allI impI)
  fix s n
  assume a: "text_at b s (show_cmd 0 c)" "stops '')'' b (s + length (show_cmd 0 c))" "length b - s + 1 < n"
  let ?e = "s + length (show_cmd 1 c)"
  obtain k where n: "n = Suc k" "length b - s < k" using a(3) by (cases n) auto
  have "stops '')&;'' b ?e" using a(2) assms(2) by (auto intro: stops_mono)
  then obtain c' where c': "stands (text_of b) c' = c"
    "bnd (parsepipe k (parseline k b) b s) (loop_res (parseback_step b)) = loop_res (parseback_step b) (c', ?e)"
    using assms a(1) n(2) unfolding back_level_def by metis
  have e: "stops '');'' b ?e" using a(2) assms(2) by (auto intro: stops_mono)
  have le: "?e \<le> length b" using a(1) assms(2) by (simp add: text_at_def)
  have "peek b (skip_white b ?e) '';'' = (False, skip_white b ?e)"
    unfolding peek_skip [OF le] using a(2) assms(2) by (intro peek_stops [of "'')''"]) auto
  then have "parseline n b s = Ok (c', skip_white b ?e)" using c'(2) back_ends [OF e, of c'] unfolding n(1) parseline_split by simp
  with c'(1) assms(2) show "reads b (parseline n b s) (s + length (show_cmd 0 c)) c" by (simp add: reads_def)
qed

lemma block_reads:
  assumes "0 \<notin> set b" "line_level b c" "scmd_ok c" "redirs_ok rs" "length b - s < n"
    and at: "text_at b s (paren True (show_cmd 0 c) @ redirs_text rs)"
    and e: "stops ''|)&;'' b (s + length (paren True (show_cmd 0 c) @ redirs_text rs))"
  shows "reads b (parseexec (parseline n b) b s) (s + length (paren True (show_cmd 0 c) @ redirs_text rs)) (wrap c rs)"
proof -
  let ?l = "length (show_cmd 0 c)" and ?r = "redirs_text rs"
  let ?t = "s + 1 + ?l"
  have p: "s < length b" "b ! s = of_char CHR ''(''" "text_at b (s + 1) (show_cmd 0 c)" "?t < length b" "b ! ?t = of_char CHR '')''"
    "text_at b (?t + 1) ?r"
    using at by (auto simp: paren_def add.assoc)
  have e': "stops ''|)&;'' b (?t + 1 + length ?r)" using e by (simp add: paren_def add.assoc)
  have le: "s + 1 \<le> length b" "?t + 1 \<le> length b" using p by auto
  have sk: "skip_white b ?t = ?t" using p(4,5) by (intro solid_skip) (simp add: solid_def is_white_iff whitespace_def)
  have g: "gettoken b s = (of_char CHR ''('', (s, s + 1), skip_white b (s + 1))"
    "gettoken b ?t = (of_char CHR '')'', (?t, ?t + 1), skip_white b (?t + 1))"
    using p(1,2,4,5) gettoken_symbol [of s b "CHR ''(''"] gettoken_symbol [of ?t b "CHR '')''"] by simp_all
  have pk: "peek b s ''('' = (True, s)" "peek b ?t '')'' = (True, ?t)"
    using p(1,2,4,5) peek_symbol [of s b "CHR ''(''" "''(''"] peek_symbol [of ?t b "CHR '')''" "'')''"] by simp_all
  have "stops '')'' b ?t" using p(4,5) by (auto simp: stops_def)
  moreover have "length b - (s + 1) + 1 < n" using assms(5) p(1) by linarith
  ultimately obtain c' where c': "parseline n b (s + 1) = Ok (c', ?t)" "stands (text_of b) c' = c"
    using assms(2) p(3) sk unfolding line_level_def reads_def by metis
  obtain d where d: "parseredirs b (c', ?t + 1) = Ok (d, skip_white b (?t + 1 + length ?r))"
    "stands (text_of b) d = wrap (stands (text_of b) c') rs"
    using parseredirs_reads [OF assms(1) p(6) assms(4) stops_no_redir [OF e'], of c'] by auto
  have "parseexec (parseline n b) b s = Ok (d, skip_white b (?t + 1 + length ?r))"
    unfolding parseexec_def parseblock_def
    using pk g parseline_skip [OF le(1)] c'(1) parseredirs_skip [OF le(2)] d(1) by simp
  with d(2) c'(2) show ?thesis by (simp add: reads_def paren_def add.assoc)
qed

lemma wrap_Nil [simp]: "wrap c [] = c" "redirs_text [] = []" "redirs_ok []"
  by (simp_all add: wrap_def redirs_text_def redirs_ok_def)

lemma line_to_exec:
  assumes "0 \<notin> set b" "line_level b c" "scmd_ok c" "show_cmd 3 c = paren True (show_cmd 0 c)"
  shows "exec_level b c"
  unfolding exec_level_def using block_reads [OF assms(1-3), of "[]"] assms(4) by auto

lemma simple_reads:
  assumes "0 \<notin> set b" "scmd_ok (SExec ws)" "redirs_ok rs"
    and at: "text_at b s (words_text ws @ redirs_text rs)"
    and e: "stops ''|)&;'' b (s + length (words_text ws @ redirs_text rs))"
  shows "reads b (parseexec line b s) (s + length (words_text ws @ redirs_text rs)) (wrap (SExec ws) rs)"
proof (cases "ws = []")
  case True
  let ?e = "s + length (redirs_text rs)"
  have le: "s \<le> length b" "?e \<le> length b" using at True by (auto simp: text_at_def)
  have pk: "peek b s ''('' = (False, skip_white b s)"
  proof (cases rs)
    case Nil
    then show ?thesis using e True by (intro peek_stops [of "''|)&;''"]) auto
  next
    case (Cons r rs')
    then obtain m u where mu: "redirs_text rs = map of_char (redir_op m) @ u" by (cases r) (auto simp: redirs_text_def)
    then have "solid b s" using at True solid_redir [of b s m u] by simp
    with mu show ?thesis using at True by (auto simp: peek_solid redir_op_def split: if_splits)
  qed
  obtain c' where c': "parseredirs b (EXEC [], s) = Ok (c', skip_white b ?e)" "stands (text_of b) c' = wrap (SExec []) rs"
    using parseredirs_reads [OF assms(1) _ assms(3) stops_no_redir, of s "''|)&;''" "EXEC []"] at e True by auto
  have "loop_res (parseexec_step b) (c', 0, skip_white b ?e) = Ok (c', skip_white b ?e)"
    using exec_end [of b ?e] parseexec_loop_skip [OF le(2)] e le(2) True by simp
  then show ?thesis using True pk c' parseredirs_skip [OF le(1)] by (auto simp: parseexec_def reads_def)
next
  case False
  then obtain w ws' where ws: "ws = w # ws'" by (cases ws) auto
  then have w: "s < length b" "plain (b ! s)" using word_first [of w b s] assms(2) at by auto
  then have sol: "solid b s" by (simp add: solid_def plain_def)
  have "peek b s ''('' = (False, s)" using w sol by (auto simp: peek_solid plain_def is_symbol_iff)
  moreover have "parseredirs b (EXEC [], s) = Ok (EXEC [], s)"
    using w sol parseredirs_none [of b s "EXEC []"] by (auto simp: no_redir_def plain_def is_symbol_iff)
  moreover obtain c' where "loop_res (parseexec_step b) (EXEC [], 0, s) = Ok (c', skip_white b (s + length (words_text ws @ redirs_text rs)))"
    "stands (text_of b) c' = wrap (SExec ws) rs"
    using words_read [OF assms(1) False at _ assms(3) e, of "[]"] assms(2) by auto
  ultimately show ?thesis by (auto simp: parseexec_def reads_def)
qed

primrec base :: "scmd \<Rightarrow> scmd \<times> redirs" where
  "base (SExec ws) = (SExec ws, [])"
| "base (SRedir c f m fd) = (fst (base c), snd (base c) @ [(f, m, fd)])"
| "base (SPipe l r) = (SPipe l r, [])"
| "base (SList l r) = (SList l r, [])"
| "base (SBack c) = (SBack c, [])"

lemma base_spec:
  "wrap (fst (base c)) (snd (base c)) = c" "scmd_ok c \<Longrightarrow> scmd_ok (fst (base c)) \<and> redirs_ok (snd (base c))"
  "size (fst (base c)) \<le> size c" "\<nexists>d f m fd. fst (base c) = SRedir d f m fd"
  by (induction c) (auto simp: wrap_def redirs_ok_def)

lemma pipe_native:
  assumes "exec_level b l" "pipe_level b r"
  shows "pipe_level b (SPipe l r)"
  unfolding pipe_level_def
proof (intro allI impI)
  fix s m n
  let ?x = "show_cmd 3 l" and ?y = "show_cmd 2 r"
  let ?t = "s + length ?x"
  assume "text_at b s (show_cmd 2 (SPipe l r))" "stops '')&;'' b (s + length (show_cmd 2 (SPipe l r)))"
    and f: "length b - s < m" "length b - s < n"
  then have a: "text_at b s ?x" "?t < length b" "b ! ?t = of_char CHR ''|''" "text_at b (?t + 1) ?y"
    and e: "stops '')&;'' b (?t + 1 + length ?y)" by (auto simp: paren_def add.assoc)
  obtain k where m: "m = Suc k" using f(1) by (cases m) auto
  have le: "?t + 1 \<le> length b" using a(2) by simp
  have sk: "skip_white b ?t = ?t" using a(2,3) by (intro solid_skip) (simp add: solid_def is_white_iff whitespace_def)
  have "stops ''|)&;'' b ?t" using a(2,3) by (auto simp: stops_def)
  then obtain c' where c': "parseexec (parseline n b) b s = Ok (c', ?t)" "stands (text_of b) c' = l"
    using assms(1) a(1) f(2) sk unfolding exec_level_def reads_def by metis
  have g: "gettoken b ?t = (of_char CHR ''|'', (?t, ?t + 1), skip_white b (?t + 1))"
    using a(2,3) gettoken_symbol [of ?t b "CHR ''|''"] by simp
  have pk: "peek b ?t ''|'' = (True, ?t)" using a(2,3) peek_symbol [of ?t b "CHR ''|''" "''|''"] by simp
  have "length b - (?t + 1) < k" "length b - (?t + 1) < n" using f m a(2) by linarith+
  then obtain d where d: "parsepipe k (parseline n b) b (?t + 1) = Ok (d, skip_white b (?t + 1 + length ?y))" "stands (text_of b) d = r"
    using assms(2) a(4) e unfolding pipe_level_def reads_def by metis
  have "parsepipe m (parseline n b) b s = Ok (PIPE c' d, skip_white b (?t + 1 + length ?y))"
    using c'(1) pk g d(1) parsepipe_skip [OF le] by (simp add: m)
  with c'(2) d(2) show "reads b (parsepipe m (parseline n b) b s) (s + length (show_cmd 2 (SPipe l r))) (SPipe l r)"
    by (simp add: reads_def paren_def add.assoc)
qed

lemma back_native:
  assumes "back_level b c"
  shows "back_level b (SBack c)"
  unfolding back_level_def
proof (intro allI impI)
  fix s n
  let ?t = "s + length (show_cmd 1 c)"
  assume "text_at b s (show_cmd 1 (SBack c))" "stops '')&;'' b (s + length (show_cmd 1 (SBack c)))" and f: "length b - s < n"
  then have a: "text_at b s (show_cmd 1 c)" "?t < length b" "b ! ?t = of_char CHR ''&''" and e: "stops '')&;'' b (?t + 1)"
    by (auto simp: paren_def add.assoc)
  have "stops '')&;'' b ?t" using a(2,3) by (auto simp: stops_def)
  then obtain c' where c': "stands (text_of b) c' = c"
    "bnd (parsepipe n (parseline n b) b s) (loop_res (parseback_step b)) = loop_res (parseback_step b) (c', ?t)"
    using assms a(1) f unfolding back_level_def by metis
  have le: "?t + 1 \<le> length b" using a(2) by simp
  have g: "gettoken b ?t = (of_char CHR ''&'', (?t, ?t + 1), skip_white b (?t + 1))"
    using a(2,3) gettoken_symbol [of ?t b "CHR ''&''"] by simp
  have pk: "peek b ?t ''&'' = (True, ?t)" using a(2,3) peek_symbol [of ?t b "CHR ''&''" "''&''"] by simp
  have "loop_res (parseback_step b) (c', ?t) = loop_res (parseback_step b) (BACK c', ?t + 1)"
    using pk g parseback_skip [OF le] by (subst loop_res_unfold) (simp add: parseback_step_def)
  with c' show "\<exists>c'. stands (text_of b) c' = SBack c \<and> bnd (parsepipe n (parseline n b) b s) (loop_res (parseback_step b)) =
      loop_res (parseback_step b) (c', s + length (show_cmd 1 (SBack c)))"
    by (intro exI [of _ "BACK c'"]) (simp add: paren_def add.assoc)
qed

lemma list_native:
  assumes "back_level b l" "line_level b r"
  shows "line_level b (SList l r)"
  unfolding line_level_def
proof (intro allI impI)
  fix s n
  let ?x = "show_cmd 1 l" and ?y = "show_cmd 0 r"
  let ?t = "s + length ?x"
  assume "text_at b s (show_cmd 0 (SList l r))" "stops '')'' b (s + length (show_cmd 0 (SList l r)))" and f: "length b - s + 1 < n"
  then have a: "text_at b s ?x" "?t < length b" "b ! ?t = of_char CHR '';''" "text_at b (?t + 1) ?y"
    and e: "stops '')'' b (?t + 1 + length ?y)" by (auto simp: paren_def add.assoc)
  obtain k where n: "n = Suc k" "length b - s < k" using f by (cases n) auto
  have st: "stops '')&;'' b ?t" "stops '');'' b ?t" using a(2,3) by (auto simp: stops_def)
  then obtain c' where c': "stands (text_of b) c' = l"
    "bnd (parsepipe k (parseline k b) b s) (loop_res (parseback_step b)) = loop_res (parseback_step b) (c', ?t)"
    using assms(1) a(1) n(2) unfolding back_level_def by metis
  have le: "?t + 1 \<le> length b" using a(2) by simp
  have sk: "skip_white b ?t = ?t" using a(2,3) by (intro solid_skip) (simp add: solid_def is_white_iff whitespace_def)
  have g: "gettoken b ?t = (of_char CHR '';'', (?t, ?t + 1), skip_white b (?t + 1))"
    using a(2,3) gettoken_symbol [of ?t b "CHR '';''"] by simp
  have pk: "peek b ?t '';'' = (True, ?t)" using a(2,3) peek_symbol [of ?t b "CHR '';''" "'';''"] by simp
  have "length b - (?t + 1) + 1 < k" using n(2) a(2) by linarith
  then obtain d where d: "parseline k b (?t + 1) = Ok (d, skip_white b (?t + 1 + length ?y))" "stands (text_of b) d = r"
    using assms(2) a(4) e unfolding line_level_def reads_def by metis
  have "parseline n b s = Ok (LIST c' d, skip_white b (?t + 1 + length ?y))"
    using c'(2) back_ends [OF st(2), of c'] sk pk g d(1) parseline_skip [OF le] unfolding n(1) parseline_split by simp
  with c'(1) d(2) show "reads b (parseline n b s) (s + length (show_cmd 0 (SList l r))) (SList l r)"
    by (simp add: reads_def paren_def add.assoc)
qed

lemma all_levels:
  assumes "0 \<notin> set b"
  shows "scmd_ok c \<Longrightarrow> exec_level b c \<and> pipe_level b c \<and> back_level b c \<and> line_level b c"
proof (induction "size c" arbitrary: c rule: less_induct)
  case less
  note ok = less.prems
  show ?case
  proof (cases c)
    case (SExec ws)
    have E: "exec_level b c"
      unfolding exec_level_def SExec using simple_reads [OF assms, of ws "[]"] ok SExec by auto
    then have P: "pipe_level b c" by (rule exec_to_pipe) (simp add: SExec)
    then have B: "back_level b c" by (rule pipe_to_back) (simp add: SExec)
    then have "line_level b c" by (rule back_to_line) (simp add: SExec)
    with E P B show ?thesis by simp
  next
    case (SRedir d f m fd)
    obtain c0 rs where br: "base c = (c0, rs)" by (cases "base c")
    then have c: "c = wrap c0 rs" "scmd_ok c0" "redirs_ok rs" "\<nexists>d f m fd. c0 = SRedir d f m fd"
      using base_spec(1) [of c] base_spec(2) [OF ok] base_spec(4) [of c] by auto
    have "size c0 \<le> size d" using base_spec(3) [of d] br SRedir by auto
    then have "size c0 < size c" using SRedir by simp
    from less.hyps [OF this c(2)] have L: "line_level b c0" by simp
    have E: "exec_level b c"
    proof (cases "\<exists>ws. c0 = SExec ws")
      case True
      then obtain ws where ws: "c0 = SExec ws" by blast
      then show ?thesis
        unfolding exec_level_def c(1) show_wrap ws using simple_reads [OF assms _ c(3), of ws] c(2) ws by auto
    next
      case False
      then have "show_cmd 3 c0 = paren True (show_cmd 0 c0)" using c(4) by (cases c0) (auto simp: paren_def)
      then show ?thesis
        unfolding exec_level_def c(1) show_wrap using block_reads [OF assms L c(2,3)] by auto
    qed
    then have P: "pipe_level b c" by (rule exec_to_pipe) (simp add: SRedir)
    then have B: "back_level b c" by (rule pipe_to_back) (simp add: SRedir)
    then have "line_level b c" by (rule back_to_line) (simp add: SRedir)
    with E P B show ?thesis by simp
  next
    case (SPipe l r)
    have P: "pipe_level b c" unfolding SPipe using less.hyps [of l] less.hyps [of r] ok SPipe by (intro pipe_native) auto
    then have B: "back_level b c" by (rule pipe_to_back) (simp add: SPipe paren_def)
    then have L: "line_level b c" by (rule back_to_line) (simp add: SPipe paren_def)
    then have "exec_level b c" by (rule line_to_exec [OF assms _ ok]) (simp add: SPipe paren_def)
    with P B L show ?thesis by simp
  next
    case (SList l r)
    have L: "line_level b c" unfolding SList using less.hyps [of l] less.hyps [of r] ok SList by (intro list_native) auto
    then have E: "exec_level b c" by (rule line_to_exec [OF assms _ ok]) (simp add: SList paren_def)
    then have P: "pipe_level b c" by (rule exec_to_pipe) (simp add: SList paren_def)
    then have "back_level b c" by (rule pipe_to_back) (simp add: SList paren_def)
    with E P L show ?thesis by simp
  next
    case (SBack d)
    have B: "back_level b c" unfolding SBack using less.hyps [of d] ok SBack by (intro back_native) auto
    then have L: "line_level b c" by (rule back_to_line) (simp add: SBack paren_def)
    then have E: "exec_level b c" by (rule line_to_exec [OF assms _ ok]) (simp add: SBack paren_def)
    then have "pipe_level b c" by (rule exec_to_pipe) (simp add: SBack paren_def)
    with E B L show ?thesis by simp
  qed
qed

lemma show_nonzero: "scmd_ok c \<Longrightarrow> 0 \<notin> set (show_cmd p c)"
proof (induction c arbitrary: p)
  case (SExec ws)
  then show ?case by (auto simp: is_word_def plain_def)
next
  case (SRedir c f m fd)
  then show ?case by (auto simp: is_word_def plain_def redir_op_def)
qed (auto simp: paren_def)

lemma stands_cong: "(\<And>t. t \<in> set (tokens c) \<Longrightarrow> f t = g t) \<Longrightarrow> stands f c = stands g c"
  by (induction c) auto

lemma skip_white_tail: "\<forall>x\<in>set u. is_white x \<Longrightarrow> skip_white (t @ u) (length t) = length (t @ u)"
proof (induction u arbitrary: t)
  case (Cons x u)
  then have "skip_white (t @ x # u) (length t) = skip_white ((t @ [x]) @ u) (length (t @ [x]))"
    by (subst skip_white.simps) (simp add: arr_get_def)
  with Cons.IH [of "t @ [x]"] Cons.prems show ?case by simp
qed (simp add: solid_def)

lemma parsecmd_show:
  assumes "scmd_ok c" and "\<forall>x\<in>set u. is_white x"
  shows "\<exists>c' buf. parsecmd S (show_cmd 0 c @ u) k = Ok (Val (c', buf), k) \<and> stands (str_at buf) c' = c"
proof -
  let ?b = "show_cmd 0 c @ u" and ?e = "length (show_cmd 0 c)"
  have nz: "0 \<notin> set ?b" using show_nonzero [OF assms(1)] assms(2) by (auto simp: is_white_iff whitespace_def)
  have at: "text_at ?b 0 (show_cmd 0 c)" by (simp add: text_at_def nth_append)
  have e: "skip_white ?b ?e = length ?b" using skip_white_tail [OF assms(2)] .
  then have "stops '')'' ?b (0 + ?e)" by (simp add: stops_def)
  moreover have "line_level ?b c" using all_levels [OF nz assms(1)] by simp
  ultimately obtain c' where c': "parseline (length ?b + 2) ?b 0 = Ok (c', length ?b)" "stands (text_of ?b) c' = c"
    using at e unfolding line_level_def reads_def by fastforce
  have "cmd_ok ?b c'" using parseline_ok [OF nz, of 0 "length ?b + 2"] c'(1) by (simp add: parsed_def)
  then have "stands (str_at (nulterminate c' (?b @ [0]))) c' = c"
    using nulterminate_str [of ?b c'] c'(2) stands_cong [of c' "str_at (nulterminate c' (?b @ [0]))" "text_of ?b"] by simp
  moreover have "peek ?b (length ?b) [] = (False, length ?b)" by (simp add: peek_def arr_get_def solid_def Let_def)
  ultimately show ?thesis using c'(1) by (intro exI [of _ c'] exI [of _ "nulterminate c' (?b @ [0])"])
      (simp add: parsecmd_def uret_def)
qed

text \<open>
  C37: the shell understands every command: a command tree, written as a line with parentheses where the
  grammar needs them and white space behind it, is parsed to exactly that command: the same nesting of
  redirections, pipes, lists and background commands, and, after \<^verbatim>\<open>nulterminate\<close>, the same words and file names.
\<close>

theorem parse_print:
  assumes "scmd_ok c" and "\<forall>x\<in>set u. is_white x"
  shows "\<exists>c' buf. parsecmd S (show_cmd 0 c @ u) k = Ok (Val (c', buf), k) \<and> stands (str_at buf) c' = c"
  using assms by (rule parsecmd_show)

text \<open>The command \<^verbatim>\<open>(cat a ;ls )|wc >out &\<close>.\<close>

definition sample_cmd :: scmd where
  "sample_cmd = SBack (SPipe (SList (SExec [map of_char ''cat'', map of_char ''a'']) (SExec [map of_char ''ls'']))
     (SRedir (SExec [map of_char ''wc'']) (map of_char ''out'') (O_WRONLY OR O_CREATE OR O_TRUNC) 1))"

lemma sample_cmd_ok: "scmd_ok sample_cmd"
  by code_simp

lemma sample_cmd_line: "show_cmd 0 sample_cmd = map of_char ''(cat a ;ls )|wc >out &''"
  by code_simp

theorem parse_print_witness:
  "\<exists>c buf. parsecmd pipe_sys (map of_char ''(cat a ;ls )|wc >out &'' @ [10]) (old_pipe, [], []) = Ok (Val (c, buf), old_pipe, [], [])
     \<and> stands (str_at buf) c = sample_cmd"
proof -
  have "\<forall>x\<in>set [10]. is_white x" by (simp add: is_white_iff whitespace_def)
  from parse_print [OF sample_cmd_ok this, of pipe_sys "(old_pipe, [], [])"] show ?thesis unfolding sample_cmd_line .
qed

theorem parser_ends_witness:
  "(\<exists>c s. parseline 8 (map of_char ''ls -l'' @ [10]) 0 = Ok (c, s) \<and> s \<le> 6 \<and> cmd_ok (map of_char ''ls -l'' @ [10]) c)
    \<or> (\<exists>m\<in>syntax_errors. parseline 8 (map of_char ''ls -l'' @ [10]) 0 = Panic m)"
proof -
  have "0 \<notin> set (map of_char ''ls -l'' @ [10 :: u8])" "length (map of_char ''ls -l'' @ [10 :: u8]) = 6" by simp_all
  with parser_ends [of "map of_char ''ls -l'' @ [10]"] show ?thesis by (simp only: numeral_eq_Suc) simp
qed

theorem parsecmd_strings_witness:
  "\<exists>c buf t. parsecmd pipe_sys (map of_char ''ls -l '') (old_pipe, [], []) = Ok (Val (c, buf), old_pipe, [], [])
     \<and> t \<in> set (tokens c) \<and> str_at buf t = map of_char ''ls'' \<and> text_of (map of_char ''ls -l '') t = map of_char ''ls''"
proof -
  have ok: "scmd_ok (SExec [map of_char ''ls'', map of_char ''-l''])" by code_simp
  obtain c buf where c: "parsecmd pipe_sys (map of_char ''ls -l '') (old_pipe, [], []) = Ok (Val (c, buf), old_pipe, [], [])"
    "stands (str_at buf) c = SExec [map of_char ''ls'', map of_char ''-l'']"
    using parsecmd_show [OF ok, of "[]" pipe_sys "(old_pipe, [], [])"] by auto
  then obtain t ts where t: "c = EXEC (t # ts)" "str_at buf t = map of_char ''ls''" by (cases c) auto
  have nz: "0 \<notin> set (map of_char ''ls -l '' :: u8 list)" by simp
  from parsecmd_strings [OF nz c(1), of t] t c(1) show ?thesis
    by (intro exI [of _ c] exI [of _ buf] exI [of _ t]) simp
qed

end
