(* ===== verification/Xv6_Plumbing.thy ===== *)
theory Xv6_Plumbing
  imports Xv6_Shell
begin

text \<open>
  What a command of the shell finds in its file descriptors: the contract of the calls on descriptors, the two ends of
  a pipeline and redirections as \<open>runcmd\<close> sets them up, and the contract on the kernel's table of open files.
\<close>

section \<open>Descriptors\<close>

definition lowest :: "nat \<Rightarrow> (nat \<rightharpoonup> 'f) \<Rightarrow> bool" where
  "lowest m t \<longleftrightarrow> m < NOFILE \<and> t m = None \<and> (\<forall>i<m. t i \<noteq> None)"

lemma lowest_unique: "lowest m t \<Longrightarrow> lowest n t \<Longrightarrow> m = n"
  by (cases m n rule: linorder_cases) (auto simp: lowest_def)

text \<open>
  \<open>tab k\<close> are the open descriptors of the running process, \<open>waited k\<close> counts its calls of \<^verbatim>\<open>wait\<close>. \<^verbatim>\<open>dup\<close>, \<^verbatim>\<open>open\<close> and
  \<^verbatim>\<open>pipe\<close> take the lowest free descriptors. After \<^verbatim>\<open>fork\<close> both processes have the table of the caller.
\<close>

locale descriptors =
  fixes S :: "'k sys" and good :: "'k \<Rightarrow> bool" and tab :: "'k \<Rightarrow> nat \<rightharpoonup> 'f" and waited :: "'k \<Rightarrow> nat"
  assumes close: "good k \<Longrightarrow> tab k n \<noteq> None \<Longrightarrow>
      \<exists>k'. s_close S (int n) k = Ok (Val 0, k') \<and> good k' \<and> tab k' = (tab k)(n := None) \<and> waited k' = waited k"
    and dup: "good k \<Longrightarrow> tab k n = Some f \<Longrightarrow> lowest m (tab k) \<Longrightarrow>
      \<exists>k'. s_dup S (int n) k = Ok (Val (int m), k') \<and> good k' \<and> tab k' = (tab k)(m \<mapsto> f) \<and> waited k' = waited k"
    and open_file: "good k \<Longrightarrow> \<exists>r k'. s_open S nm mode k = Ok (Val r, k') \<and> good k' \<and> waited k' = waited k
      \<and> (r < 0 \<and> tab k' = tab k \<or> (\<exists>m f. r = int m \<and> lowest m (tab k) \<and> tab k' = (tab k)(m \<mapsto> f)))"
    and pipe: "good k \<Longrightarrow> \<exists>x a b k'. s_pipe S k = Ok (Val (x, a, b), k') \<and> good k' \<and> waited k' = waited k
      \<and> (x < 0 \<and> tab k' = tab k \<or> 0 \<le> x \<and> (\<exists>m n e0 e1. a = int m \<and> b = int n \<and> lowest m (tab k)
          \<and> lowest n ((tab k)(m \<mapsto> e0)) \<and> tab k' = (tab k)(m \<mapsto> e0, n \<mapsto> e1)))"
    and fork: "good k \<Longrightarrow> \<exists>pid k'. s_fork S k = Ok (Val pid, k') \<and> good k' \<and> tab k' = tab k \<and> waited k' = waited k"
    and wait_child: "good k \<Longrightarrow> \<exists>r k'. s_wait S k = Ok (Val r, k') \<and> good k' \<and> tab k' = tab k \<and> waited k' = Suc (waited k)"
begin

text \<open>A descriptor \<open>t\<close> is closed, and the end \<open>n\<close> of the pipe takes its place.\<close>

lemma replaces:
  assumes "good k" "tab k = T(m \<mapsto> e0, n \<mapsto> e1)" "lowest m T" "lowest n (T(m \<mapsto> e0))" "T t \<noteq> None" "\<forall>i<t. T i \<noteq> None"
    and "p = m \<and> e = e0 \<or> p = n \<and> e = e1"
  shows "\<exists>k'. ubnd (s_close S (int t)) (\<lambda>_. ubnd (s_dup S (int p)) (\<lambda>_. ubnd (s_close S (int m)) (\<lambda>_. ubnd (s_close S (int n)) (\<lambda>_. g)))) k = g k'
    \<and> good k' \<and> tab k' = T(t \<mapsto> e) \<and> waited k' = waited k"
proof -
  have mn: "T m = None" "T n = None" "m \<noteq> n" "t \<noteq> m" "t \<noteq> n" "m < NOFILE" using assms(3-5) by (auto simp: lowest_def split: if_splits)
  have tm: "t < m" using assms(3,5) mn(4) by (auto simp: lowest_def) (metis assms(6) mn(1) linorder_neqE_nat)
  obtain k1 where k1: "s_close S (int t) k = Ok (Val 0, k1)" "good k1" "tab k1 = (tab k)(t := None)" "waited k1 = waited k"
    using close [OF assms(1), of t] assms(2,5) mn by auto
  have "tab k1 p = Some e" using k1(3) assms(2,7) mn by auto
  moreover have "lowest t (tab k1)" using k1(3) assms(2,6) tm mn by (auto simp: lowest_def)
  ultimately obtain k2 where k2: "s_dup S (int p) k1 = Ok (Val (int t), k2)" "good k2" "tab k2 = (tab k1)(t \<mapsto> e)" "waited k2 = waited k1"
    using dup [OF k1(2)] by blast
  obtain k3 where k3: "s_close S (int m) k2 = Ok (Val 0, k3)" "good k3" "tab k3 = (tab k2)(m := None)" "waited k3 = waited k2"
    using close [OF k2(2), of m] k2(3) k1(3) assms(2) mn by auto
  obtain k4 where k4: "s_close S (int n) k3 = Ok (Val 0, k4)" "good k4" "tab k4 = (tab k3)(n := None)" "waited k4 = waited k3"
    using close [OF k3(2), of n] k3(3) k2(3) k1(3) assms(2) mn by auto
  have "tab k4 = T(t \<mapsto> e)" using k4(3) k3(3) k2(3) k1(3) assms(2) mn by (auto simp: fun_eq_iff)
  with k1 k2 k3 k4 show ?thesis by (intro exI [of _ k4]) (simp add: ubnd_def)
qed

end

text \<open>A program that does not return leaves nothing to do.\<close>

lemma noreturn_stops: "noreturn m \<Longrightarrow> ubnd m f = m"
proof (rule ext)
  fix k assume n: "noreturn m"
  show "ubnd m f k = m k"
  proof (cases "m k")
    case (Ok r)
    obtain v k' where r: "r = (v, k')" by (cases r)
    then show ?thesis using n Ok by (cases v) (auto simp: ubnd_def noreturn_def)
  qed (simp_all add: ubnd_def)
qed

section \<open>Pipelines and redirections\<close>

lemmas runcmd_stops = noreturn_stops [OF noreturn_runcmd]

lemma fork1_child: "s_fork S k = Ok (Val pid, k') \<Longrightarrow> pid \<noteq> -1 \<Longrightarrow> ubnd (fork1 S) g k = g pid k'"
  by (simp add: fork1_def ubnd_def uret_def)

lemma panic_stops: "ubnd (panic_u S m) g = panic_u S m"
  by (simp add: panic_u_def)

lemma fork1_fails: "s_fork S k = Ok (Val (-1), k') \<Longrightarrow> ubnd (fork1 S) g k = panic_u S ''fork'' k'"
  unfolding fork1_def ubnd_assoc by (subst ubnd_def) (simp add: panic_stops)

text \<open>A redirection: the command runs with the opened file in the place of the descriptor, or the process says so and exits.\<close>

lemma redirection_plumbing:
  assumes d: "descriptors S good tab waited" and k: "good k" and t: "tab k fd \<noteq> None" "\<forall>i<fd. tab k i \<noteq> None" "fd < NOFILE"
  shows "\<exists>k1 o' k2. s_close S (int fd) k = Ok (Val 0, k1) \<and> s_open S (str_at buf f) mode k1 = Ok (Val o', k2) \<and> good k2
    \<and> (if o' < 0 then runcmd S buf (REDIR c f mode (int fd)) k =
          ubnd (fprintf_u S 2 (''open %s failed'' @ [CHR 0x0A]) [VStr (Some (str_at buf f))]) (\<lambda>_. uexit 1) k2
        else runcmd S buf (REDIR c f mode (int fd)) k = runcmd S buf c k2 \<and> (\<exists>e. tab k2 = (tab k)(fd \<mapsto> e)))"
proof -
  obtain k1 where k1: "s_close S (int fd) k = Ok (Val 0, k1)" "good k1" "tab k1 = (tab k)(fd := None)" using descriptors.close [OF d k t(1)] by blast
  obtain o' k2 where k2: "s_open S (str_at buf f) mode k1 = Ok (Val o', k2)" "good k2"
    "o' < 0 \<or> (\<exists>m e. o' = int m \<and> lowest m (tab k1) \<and> tab k2 = (tab k1)(m \<mapsto> e))" using descriptors.open_file [OF d k1(2)] by metis
  have l: "lowest fd (tab k1)" using t k1(3) by (simp add: lowest_def)
  have run: "runcmd S buf (REDIR c f mode (int fd)) k =
      (if o' < 0 then ubnd (fprintf_u S 2 (''open %s failed'' @ [CHR 0x0A]) [VStr (Some (str_at buf f))]) (\<lambda>_. uexit 1)
       else ubnd (runcmd S buf c) (\<lambda>_. uexit 0)) k2" using k1(1) k2(1) by (simp add: ubnd_def)
  have "\<exists>e. tab k2 = (tab k)(fd \<mapsto> e)" if "\<not> o' < 0"
  proof -
    from that k2(3) obtain m e where m: "lowest m (tab k1)" "tab k2 = (tab k1)(m \<mapsto> e)" by blast
    then have "m = fd" using l lowest_unique by blast
    with m(2) k1(3) show ?thesis by auto
  qed
  then show ?thesis using run k1(1) k2(1,2) by (intro exI [of _ k1] exI [of _ o'] exI [of _ k2]) (simp add: runcmd_stops)
qed

text \<open>
  C40: the shell connects a pipeline correctly. When \<^verbatim>\<open>pipe\<close> succeeds and standard input and output are open, \<open>runcmd\<close> of
  a pipeline goes on, in the first child, as the left command with the write end as standard output, and in the second
  child as the right command with the read end as standard input, every other descriptor as before and no further
  descriptor of the pipe open; the parent, with both ends closed again, waits for two children and exits with
  status 0. When a \<^verbatim>\<open>fork\<close> fails the shell's process panics instead.
\<close>

theorem pipeline_plumbing:
  assumes d: "descriptors S good tab waited" and k: "good k" and t: "tab k 0 \<noteq> None" "tab k 1 \<noteq> None"
    and p: "s_pipe S k = Ok (Val (x, a, b), k1)" "0 \<le> x"
    and f: "s_fork S k1 = Ok (Val pid, k2)" "s_fork S k2 = Ok (Val pid', k3)"
  shows "\<exists>m n e0 e1. a = int m \<and> b = int n \<and> tab k1 = (tab k)(m \<mapsto> e0, n \<mapsto> e1)
    \<and> (pid = 0 \<longrightarrow> (\<exists>k'. runcmd S buf (PIPE l r) k = runcmd S buf l k' \<and> good k' \<and> tab k' = (tab k)(1 \<mapsto> e1)))
    \<and> (0 < pid \<and> pid' = 0 \<longrightarrow> (\<exists>k'. runcmd S buf (PIPE l r) k = runcmd S buf r k' \<and> good k' \<and> tab k' = (tab k)(0 \<mapsto> e0)))
    \<and> (0 < pid \<and> 0 < pid' \<longrightarrow> (\<exists>k'. runcmd S buf (PIPE l r) k = Ok (Exited 0, k') \<and> good k' \<and> tab k' = tab k
        \<and> waited k' = waited k + 2))
    \<and> (pid = -1 \<longrightarrow> runcmd S buf (PIPE l r) k = panic_u S ''fork'' k2)
    \<and> (0 < pid \<and> pid' = -1 \<longrightarrow> runcmd S buf (PIPE l r) k = panic_u S ''fork'' k3)"
proof -
  let ?tail = "\<lambda>a b. ubnd (s_close S a) (\<lambda>_. ubnd (s_close S b) (\<lambda>_. ubnd (s_wait S) (\<lambda>_. ubnd (s_wait S) (\<lambda>_. uexit 0))))"
  from descriptors.pipe [OF d k] p obtain m n e0 e1 where e: "a = int m" "b = int n" "lowest m (tab k)" "lowest n ((tab k)(m \<mapsto> e0))"
    "tab k1 = (tab k)(m \<mapsto> e0, n \<mapsto> e1)" and k1: "good k1" "waited k1 = waited k" by auto
  from descriptors.fork [OF d k1(1)] f(1) have k2: "good k2" "tab k2 = tab k1" "waited k2 = waited k1" by auto
  from descriptors.fork [OF d k2(1)] f(2) have k3: "good k3" "tab k3 = tab k2" "waited k3 = waited k2" by auto
  have start: "runcmd S buf (PIPE l r) k = ubnd (fork1 S) (\<lambda>pid. ubnd (if pid = 0
           then ubnd (s_close S 1) (\<lambda>_. ubnd (s_dup S b) (\<lambda>_. ubnd (s_close S a) (\<lambda>_. ubnd (s_close S b) (\<lambda>_. runcmd S buf l)))) else uret ()) (\<lambda>_.
     ubnd (fork1 S) (\<lambda>pid. ubnd (if pid = 0
           then ubnd (s_close S 0) (\<lambda>_. ubnd (s_dup S a) (\<lambda>_. ubnd (s_close S a) (\<lambda>_. ubnd (s_close S b) (\<lambda>_. runcmd S buf r)))) else uret ()) (\<lambda>_.
     ?tail a b)))) k1"
    using p by (simp add: ubnd_def)
  have left: "\<exists>k'. runcmd S buf (PIPE l r) k = runcmd S buf l k' \<and> good k' \<and> tab k' = (tab k)(1 \<mapsto> e1)" if "pid = 0"
  proof -
    have "runcmd S buf (PIPE l r) k = ubnd (s_close S (int 1)) (\<lambda>_. ubnd (s_dup S (int n)) (\<lambda>_. ubnd (s_close S (int m)) (\<lambda>_.
        ubnd (s_close S (int n)) (\<lambda>_. runcmd S buf l)))) k2"
      using that start e(1,2) by (simp add: fork1_child [OF f(1)] runcmd_stops)
    with descriptors.replaces [OF d k2(1) trans [OF k2(2) e(5)] e(3,4) t(2), of n e1 "runcmd S buf l"] t show ?thesis
      by (metis less_one)
  qed
  have rest: "runcmd S buf (PIPE l r) k = ubnd (if pid' = 0
           then ubnd (s_close S 0) (\<lambda>_. ubnd (s_dup S a) (\<lambda>_. ubnd (s_close S a) (\<lambda>_. ubnd (s_close S b) (\<lambda>_. runcmd S buf r)))) else uret ()) (\<lambda>_.
     ?tail a b) k3" if "0 < pid" "pid' \<noteq> -1"
    using that start by (simp add: fork1_child [OF f(1)] fork1_child [OF f(2)])
  have right: "\<exists>k'. runcmd S buf (PIPE l r) k = runcmd S buf r k' \<and> good k' \<and> tab k' = (tab k)(0 \<mapsto> e0)" if "0 < pid" "pid' = 0"
  proof -
    have "runcmd S buf (PIPE l r) k = ubnd (s_close S (int 0)) (\<lambda>_. ubnd (s_dup S (int m)) (\<lambda>_. ubnd (s_close S (int m)) (\<lambda>_.
        ubnd (s_close S (int n)) (\<lambda>_. runcmd S buf r)))) k3"
      using that rest e(1,2) by (simp add: runcmd_stops)
    with descriptors.replaces [OF d k3(1) trans [OF trans [OF k3(2) k2(2)] e(5)] e(3,4) t(1), of m e0 "runcmd S buf r"] show ?thesis by auto
  qed
  have parent: "\<exists>k'. runcmd S buf (PIPE l r) k = Ok (Exited 0, k') \<and> good k' \<and> tab k' = tab k \<and> waited k' = waited k + 2"
    if "0 < pid" "0 < pid'"
  proof -
    have mn: "tab k m = None" "tab k n = None" "m \<noteq> n" using e(3,4) by (auto simp: lowest_def split: if_splits)
    have t3: "tab k3 = (tab k)(m \<mapsto> e0, n \<mapsto> e1)" using k3(2) k2(2) e(5) by simp
    obtain k4 where k4: "s_close S (int m) k3 = Ok (Val 0, k4)" "good k4" "tab k4 = (tab k3)(m := None)" "waited k4 = waited k3"
      using descriptors.close [OF d k3(1), of m] t3 mn by auto
    obtain k5 where k5: "s_close S (int n) k4 = Ok (Val 0, k5)" "good k5" "tab k5 = (tab k4)(n := None)" "waited k5 = waited k4"
      using descriptors.close [OF d k4(2), of n] k4(3) t3 mn by auto
    obtain r6 k6 where k6: "s_wait S k5 = Ok (Val r6, k6)" "good k6" "tab k6 = tab k5" "waited k6 = Suc (waited k5)"
      using descriptors.wait_child [OF d k5(2)] by blast
    obtain r7 k7 where k7: "s_wait S k6 = Ok (Val r7, k7)" "good k7" "tab k7 = tab k6" "waited k7 = Suc (waited k6)"
      using descriptors.wait_child [OF d k6(2)] by blast
    have "runcmd S buf (PIPE l r) k = Ok (Exited 0, k7)"
      using that rest e(1,2) k4(1) k5(1) k6(1) k7(1) by (simp add: ubnd_def uexit_def)
    moreover have "tab k7 = tab k" using k7(3) k6(3) k5(3) k4(3) t3 mn by (auto simp: fun_eq_iff)
    moreover have "waited k7 = waited k + 2" using k7(4) k6(4) k5(4) k4(4) k3(3) k2(3) k1(2) by simp
    ultimately show ?thesis using k7(2) by blast
  qed
  have "runcmd S buf (PIPE l r) k = panic_u S ''fork'' k2" if "pid = -1"
    using that f(1) start by (simp add: fork1_fails)
  moreover have "runcmd S buf (PIPE l r) k = panic_u S ''fork'' k3" if "0 < pid" "pid' = -1"
    using that f(2) start by (simp add: fork1_child [OF f(1)] fork1_fails)
  ultimately show ?thesis using e left right parent by blast
qed

section \<open>The table of open files of a process\<close>

text \<open>
  The calls on the kernel's table of a process: \<open>fdalloc\<close> and \<open>set_ofile\<close> find and fill the entries; the files behind
  them, which the kernel counts, play no part here. A state holds the kernel, the number of calls of \<^verbatim>\<open>wait\<close> and what the
  next calls of \<^verbatim>\<open>fork\<close> return.
\<close>

definition fd_take :: "nat \<Rightarrow> world \<times> nat \<times> int list \<Rightarrow> (int uval \<times> world \<times> nat \<times> int list) res" where
  "fd_take f = (\<lambda>(w, c, ps). bnd (fdalloc f w) (\<lambda>(fd, w).
     Ok (Val (case fd of None \<Rightarrow> -1 | Some n \<Rightarrow> int n), w, c, ps)))"

definition fd_sys :: "nat \<Rightarrow> (world \<times> nat \<times> int list) sys" where
  "fd_sys p = \<lparr>
     s_fork = (\<lambda>(w, c, ps). case ps of [] \<Rightarrow> Ok (Val (-1), w, c, []) | pid # ps \<Rightarrow> Ok (Val pid, w, c, ps)),
     s_wait = (\<lambda>(w, c, ps). Ok (Val (1, 0), w, Suc c, ps)),
     s_pipe = (\<lambda>k. bnd (fd_take 6 k) (\<lambda>(v, k).
        case v of
          Val a \<Rightarrow> if a < 0 then Ok (Val (-1, 0, 0), k)
                   else bnd (fd_take 7 k) (\<lambda>(v, (w, k)).
                        case v of
                          Val b \<Rightarrow> if b < 0 then Ok (Val (-1, 0, 0), set_ofile p (nat a) None w, k) else Ok (Val (0, a, b), w, k)
                        | _ \<Rightarrow> Diverge)
        | _ \<Rightarrow> Diverge)),
     s_write = (\<lambda>_ bs. uret (int (length bs))), s_read = (\<lambda>_ _. uret (0, [])),
     s_close = (\<lambda>fd (w, k). if p_ofile (procs w p) (nat fd) = None then Ok (Val (-1), w, k) else Ok (Val 0, set_ofile p (nat fd) None w, k)),
     s_kill = (\<lambda>_. uret (-1)), s_exec = (\<lambda>_ _. uret (-1)), s_open = (\<lambda>_ _. fd_take 5), s_mknod = (\<lambda>_ _ _. uret (-1)),
     s_unlink = (\<lambda>_. uret (-1)), s_fstat = (\<lambda>_. uret (-1, \<lparr>st_dev = 0, st_ino = 0, st_type = 0, st_nlink = 0, st_size = 0\<rparr>)),
     s_link = (\<lambda>_ _. uret (-1)), s_mkdir = (\<lambda>_. uret (-1)), s_chdir = (\<lambda>_. uret (-1)),
     s_dup = (\<lambda>fd (w, k). case p_ofile (procs w p) (nat fd) of None \<Rightarrow> Ok (Val (-1), w, k) | Some f \<Rightarrow> fd_take f (w, k)),
     s_getpid = uret 1, s_sbrk = (\<lambda>_ _. uret (-1)), s_pause = (\<lambda>_. uret 0), s_uptime = uret 0,
     s_kqueue_wait = uret (-1, zero_event), s_kqueue_post = (\<lambda>_ _. uret 0)\<rparr>"

definition fd_good :: "nat \<Rightarrow> world \<times> nat \<times> int list \<Rightarrow> bool" where
  "fd_good p = (\<lambda>(w, k). cpu_ok (sync w) \<and> cur (sync w) = Some p)"

definition fd_tab :: "nat \<Rightarrow> world \<times> nat \<times> int list \<Rightarrow> nat \<rightharpoonup> nat" where
  "fd_tab p = (\<lambda>(w, k). p_ofile (procs w p))"

lemma find_lowest: "List.find (\<lambda>fd. t fd = None) [0..<NOFILE] = Some m \<longleftrightarrow> lowest m t"
proof
  assume "List.find (\<lambda>fd. t fd = None) [0..<NOFILE] = Some m"
  then obtain i where "i < NOFILE" "t i = None" "m = i" "\<forall>j<i. t j \<noteq> None" by (auto simp: find_Some_iff)
  then show "lowest m t" by (simp add: lowest_def)
next
  assume "lowest m t"
  then show "List.find (\<lambda>fd. t fd = None) [0..<NOFILE] = Some m"
    by (auto simp: find_Some_iff lowest_def intro!: exI [of _ m])
qed

lemma fd_take_spec:
  assumes "fd_good p (w, c, ps)"
  shows "\<exists>r w'. fd_take f (w, c, ps) = Ok (Val r, w', c, ps) \<and> fd_good p (w', c, ps)
    \<and> (r < 0 \<and> fd_tab p (w', c, ps) = fd_tab p (w, c, ps) \<and> (\<nexists>m. lowest m (fd_tab p (w, c, ps)))
       \<or> (\<exists>m. r = int m \<and> lowest m (fd_tab p (w, c, ps)) \<and> fd_tab p (w', c, ps) = (fd_tab p (w, c, ps))(m \<mapsto> f)))"
proof -
  let ?t = "p_ofile (procs w p)"
  have me: "myproc_deref w = Ok (p, w\<lparr>sync := settle (sync w)\<rparr>)" using assms by (simp add: fd_good_def myproc_deref_def lock_simps)
  have g: "fd_good p (w\<lparr>sync := settle (sync w), procs := x\<rparr>, c, ps)" for x using assms by (simp add: fd_good_def lock_simps)
  show ?thesis
  proof (cases "List.find (\<lambda>fd. ?t fd = None) [0..<NOFILE]")
    case None
    then have "\<nexists>m. lowest m ?t" using find_lowest [of ?t] by (metis option.distinct(1))
    with None g [of "procs w"] show ?thesis by (simp add: fd_take_def fdalloc_def me fd_tab_def)
  next
    case (Some m)
    then have "lowest m ?t" using find_lowest by blast
    with Some g show ?thesis by (simp add: fd_take_def fdalloc_def me fd_tab_def set_ofile_def upd_proc_def)
  qed
qed

interpretation fd_table: descriptors "fd_sys p" "fd_good p" "fd_tab p" "\<lambda>k. fst (snd k)" for p
proof (unfold_locales, goal_cases)
  case (1 k n)
  obtain w c ps where k: "k = (w, c, ps)" by (cases k)
  from 1 show ?case by (simp add: k fd_sys_def fd_good_def fd_tab_def set_ofile_def upd_proc_def)
next
  case (2 k n f m)
  obtain w c ps where k: "k = (w, c, ps)" by (cases k)
  have "fd_good p (w, c, ps)" and l: "lowest m (fd_tab p (w, c, ps))" using 2 k by simp_all
  from fd_take_spec [OF this(1), of f] l obtain w' m' where r: "fd_take f (w, c, ps) = Ok (Val (int m'), w', c, ps)" "fd_good p (w', c, ps)"
    "lowest m' (fd_tab p (w, c, ps))" "fd_tab p (w', c, ps) = (fd_tab p (w, c, ps))(m' \<mapsto> f)" by blast
  have "m' = m" by (rule lowest_unique [OF r(3) l])
  moreover have "s_dup (fd_sys p) (int n) k = fd_take f (w, c, ps)" using 2(2) k by (simp add: fd_sys_def fd_tab_def)
  ultimately show ?case using k r by (intro exI [of _ "(w', c, ps)"]) simp
next
  case (3 k nm mode)
  obtain w c ps where k: "k = (w, c, ps)" by (cases k)
  from fd_take_spec [of p w c ps 5] 3 k show ?case by (auto simp: fd_sys_def)
next
  case (4 k)
  obtain w c ps where k: "k = (w, c, ps)" by (cases k)
  from fd_take_spec [of p w c ps 6] 4 k obtain r w1 where r: "fd_take 6 (w, c, ps) = Ok (Val r, w1, c, ps)" "fd_good p (w1, c, ps)"
    "r < 0 \<and> fd_tab p (w1, c, ps) = fd_tab p (w, c, ps)
       \<or> (\<exists>m. r = int m \<and> lowest m (fd_tab p (w, c, ps)) \<and> fd_tab p (w1, c, ps) = (fd_tab p (w, c, ps))(m \<mapsto> 6))" by auto
  show ?case
  proof (cases "r < 0")
    case True
    then show ?thesis using r k by (auto simp: fd_sys_def)
  next
    case False
    then obtain m where m: "r = int m" "lowest m (fd_tab p k)" "fd_tab p (w1, c, ps) = (fd_tab p k)(m \<mapsto> 6)" using r(3) k by auto
    from fd_take_spec [OF r(2), of 7] obtain r2 w2 where r2: "fd_take 7 (w1, c, ps) = Ok (Val r2, w2, c, ps)" "fd_good p (w2, c, ps)"
      "r2 < 0 \<and> fd_tab p (w2, c, ps) = fd_tab p (w1, c, ps)
       \<or> (\<exists>n. r2 = int n \<and> lowest n (fd_tab p (w1, c, ps)) \<and> fd_tab p (w2, c, ps) = (fd_tab p (w1, c, ps))(n \<mapsto> 7))" by auto
    show ?thesis
    proof (cases "r2 < 0")
      case True
      let ?w = "set_ofile p m None w2"
      have "s_pipe (fd_sys p) k = Ok (Val (-1, 0, 0), ?w, c, ps)" using True False r(1) r2(1) k m(1) by (simp add: fd_sys_def)
      moreover have "fd_good p (?w, c, ps)" using r2(2) by (simp add: fd_good_def set_ofile_def upd_proc_def)
      moreover have "fd_tab p (?w, c, ps) = fd_tab p k"
      proof -
        have "fd_tab p (?w, c, ps) = (fd_tab p (w2, c, ps))(m := None)" by (simp add: fd_tab_def set_ofile_def upd_proc_def)
        also have "\<dots> = (fd_tab p k)(m := None)" using True r2(3) m(3) by auto
        also have "\<dots> = fd_tab p k" using m(2) by (auto simp: lowest_def fun_eq_iff)
        finally show ?thesis .
      qed
      ultimately show ?thesis using k by auto
    next
      case F2: False
      then obtain n where n: "r2 = int n" "lowest n (fd_tab p (w1, c, ps))" "fd_tab p (w2, c, ps) = (fd_tab p (w1, c, ps))(n \<mapsto> 7)" using r2(3) by auto
      have "s_pipe (fd_sys p) k = Ok (Val (0, int m, int n), w2, c, ps)" using F2 False r(1) r2(1) k m(1) n(1) by (simp add: fd_sys_def)
      then show ?thesis using m n r2(2) k by (intro exI [of _ 0] exI [of _ "int m"] exI [of _ "int n"] exI [of _ "(w2, c, ps)"]) auto
    qed
  qed
next
  case (5 k)
  obtain w c ps where k: "k = (w, c, ps)" by (cases k)
  from 5 show ?case by (cases ps) (auto simp: k fd_sys_def fd_good_def fd_tab_def)
next
  case (6 k)
  obtain w c ps where k: "k = (w, c, ps)" by (cases k)
  from 6 show ?case by (auto simp: k fd_sys_def fd_good_def fd_tab_def)
qed

text \<open>Process 0 has standard input, output and errors open, and the second child of a pipeline runs.\<close>

definition sh_world :: world where
  "sh_world = (let w = run_world (\<lambda>_ _. None) in w\<lparr>procs := (procs w)(0 := zero_proc\<lparr>p_ofile := [0 \<mapsto> 1, 1 \<mapsto> 2, 2 \<mapsto> 3]\<rparr>)\<rparr>)"

lemma sh_world_simps:
  "cpu_ok (sync sh_world)" "cur (sync sh_world) = Some 0" "p_ofile (procs sh_world 0) = [0 \<mapsto> 1, 1 \<mapsto> 2, 2 \<mapsto> 3]"
  by (simp_all add: sh_world_def Let_def)

lemma sh_world_pipe: "\<exists>w. s_pipe (fd_sys 0) (sh_world, 0, [4, 0]) = Ok (Val (0, 3, 4), w, 0, [4, 0]) \<and> p_ofile (procs w 0) 3 = Some 6"
proof -
  have "myproc_deref w = Ok (0, w\<lparr>sync := settle (sync w)\<rparr>)" if "cpu_ok (sync w)" "cur (sync w) = Some 0" for w :: world
    using that by (simp add: myproc_deref_def lock_simps)
  then show ?thesis
    by (simp add: fd_sys_def fd_take_def fdalloc_def sh_world_simps NOFILE_def upt_rec set_ofile_def upd_proc_def lock_simps)
qed

theorem pipeline_plumbing_witness:
  "\<exists>k'. runcmd (fd_sys 0) [] (PIPE (EXEC []) (EXEC [(0, 1)])) (sh_world, 0, [4, 0]) = runcmd (fd_sys 0) [] (EXEC [(0, 1)]) k'
     \<and> fd_tab 0 k' = [0 \<mapsto> 6, 1 \<mapsto> 2, 2 \<mapsto> 3]"
proof -
  let ?k = "(sh_world, 0, [4, 0])"
  obtain w where w: "s_pipe (fd_sys 0) ?k = Ok (Val (0, 3, 4), w, 0, [4, 0])" "p_ofile (procs w 0) 3 = Some 6" using sh_world_pipe by blast
  have g: "fd_good 0 ?k" and t: "fd_tab 0 ?k = [0 \<mapsto> 1, 1 \<mapsto> 2, 2 \<mapsto> 3]" by (simp_all add: fd_good_def fd_tab_def sh_world_simps)
  have f: "s_fork (fd_sys 0) (w, 0, [4, 0]) = Ok (Val 4, w, 0, [0])" "s_fork (fd_sys 0) (w, 0, [0]) = Ok (Val 0, w, 0, [])"
    by (simp_all add: fd_sys_def)
  have op: "fd_tab 0 ?k 0 \<noteq> None" "fd_tab 0 ?k 1 \<noteq> None" using t by simp_all
  from pipeline_plumbing [OF fd_table.descriptors_axioms g op w(1) _ f, of "[]" "EXEC []" "EXEC [(0, 1)]"]
  obtain m n e0 e1 k' where "3 = int m" "4 = int n" "fd_tab 0 (w, 0, [4, 0]) = (fd_tab 0 ?k)(m \<mapsto> e0, n \<mapsto> e1)"
    and k': "runcmd (fd_sys 0) [] (PIPE (EXEC []) (EXEC [(0, 1)])) ?k = runcmd (fd_sys 0) [] (EXEC [(0, 1)]) k'" "fd_tab 0 k' = (fd_tab 0 ?k)(0 \<mapsto> e0)"
    by auto
  then have "m = 3" "n = 4" "e0 = 6" using w(2) by (auto simp: fd_tab_def)
  with k'(2) t have "fd_tab 0 k' = [0 \<mapsto> 6, 1 \<mapsto> 2, 2 \<mapsto> 3]" by (simp add: fun_eq_iff)
  with k'(1) show ?thesis by blast
qed

end
