(* ===== verification/Xv6_Programs.thy ===== *)
theory Xv6_Programs
  imports Xv6_Filters
begin

text \<open>
  The other programs under \<^verbatim>\<open>user/\<close>: \<^verbatim>\<open>init\<close>, the file utilities \<^verbatim>\<open>echo\<close>, \<^verbatim>\<open>kill\<close>, \<^verbatim>\<open>ln\<close>, \<^verbatim>\<open>mkdir\<close>, \<^verbatim>\<open>rm\<close> and \<^verbatim>\<open>ls\<close>, and the
  small programs that exercise the kernel.
\<close>

section \<open>Utilities\<close>

text \<open>\<^verbatim>\<open>echo.c\<close>, \<^verbatim>\<open>kill.c\<close>, \<^verbatim>\<open>ln.c\<close>, \<^verbatim>\<open>mkdir.c\<close>, \<^verbatim>\<open>rm.c\<close>.\<close>

fun echo_args :: "'k sys \<Rightarrow> u8 list list \<Rightarrow> (unit, 'k) user" where
  "echo_args S [] = uret ()"
| "echo_args S (a # rest) =
     ubnd (s_write S 1 a) (\<lambda>_.
     ubnd (s_write S 1 (if rest \<noteq> [] then [32] else [10])) (\<lambda>_.
     echo_args S rest))"

definition echo_main :: "'k sys \<Rightarrow> u8 list list \<Rightarrow> (int, 'k) user" where
  "echo_main S argv = ubnd (echo_args S (drop 1 argv)) (\<lambda>_. uexit 0)"

definition kill_main :: "'k sys \<Rightarrow> u8 list list \<Rightarrow> (int, 'k) user" where
  "kill_main S argv =
     (if length argv < 2 then ubnd (fprintf_u S 2 (''usage: kill pid...'' @ [CHR 0x0A]) []) (\<lambda>_. uexit 1)
      else ubnd (ueach (\<lambda>a. ubnd (s_kill S (atoi_u a)) (\<lambda>_. uret ())) (drop 1 argv)) (\<lambda>_. uexit 0))"

definition ln_main :: "'k sys \<Rightarrow> u8 list list \<Rightarrow> (int, 'k) user" where
  "ln_main S argv =
     (if length argv \<noteq> 3 then ubnd (fprintf_u S 2 (''Usage: ln old new'' @ [CHR 0x0A]) []) (\<lambda>_. uexit 1)
      else ubnd (s_link S (argv ! 1) (argv ! 2)) (\<lambda>r.
           ubnd (if r < 0 then fprintf_u S 2 (''link %s %s: failed'' @ [CHR 0x0A]) [VStr (Some (argv ! 1)), VStr (Some (argv ! 2))]
                 else uret ()) (\<lambda>_. uexit 0)))"

text \<open>A loop over the arguments that stops at the first failure.\<close>

fun until_failure :: "(u8 list \<Rightarrow> (int, 'k) user) \<Rightarrow> (u8 list \<Rightarrow> (unit, 'k) user) \<Rightarrow> u8 list list \<Rightarrow> (unit, 'k) user" where
  "until_failure f g [] = uret ()"
| "until_failure f g (a # rest) = ubnd (f a) (\<lambda>r. if r < 0 then g a else until_failure f g rest)"

definition mkdir_main :: "'k sys \<Rightarrow> u8 list list \<Rightarrow> (int, 'k) user" where
  "mkdir_main S argv =
     (if length argv < 2 then ubnd (fprintf_u S 2 (''Usage: mkdir files...'' @ [CHR 0x0A]) []) (\<lambda>_. uexit 1)
      else ubnd (until_failure (s_mkdir S) (\<lambda>a. fprintf_u S 2 (''mkdir: %s failed to create'' @ [CHR 0x0A]) [VStr (Some a)])
             (drop 1 argv)) (\<lambda>_. uexit 0))"

definition rm_main :: "'k sys \<Rightarrow> u8 list list \<Rightarrow> (int, 'k) user" where
  "rm_main S argv =
     (if length argv < 2 then ubnd (fprintf_u S 2 (''Usage: rm files...'' @ [CHR 0x0A]) []) (\<lambda>_. uexit 1)
      else ubnd (until_failure (s_unlink S) (\<lambda>a. fprintf_u S 2 (''rm: %s failed to delete'' @ [CHR 0x0A]) [VStr (Some a)])
             (drop 1 argv)) (\<lambda>_. uexit 0))"

section \<open>\<^verbatim>\<open>ls.c\<close>\<close>

definition fmtname :: "u8 list \<Rightarrow> u8 list" where
  "fmtname path =
     (let p = rev (takeWhile (\<lambda>c. c \<noteq> slash) (rev path))
      in if length p \<ge> DIRSIZ then p else p @ replicate (DIRSIZ - length p) 32)"

definition ls_entry :: "'k sys \<Rightarrow> u8 list \<Rightarrow> stat \<Rightarrow> (unit, 'k) user" where
  "ls_entry S path st =
     printf_u S (''%s %d %d %d'' @ [CHR 0x0A])
       [VStr (Some (fmtname path)), VWord (scast (st_type st)), VWord (ucast (st_ino st)), VWord (st_size st)]"

definition ls_step :: "'k sys \<Rightarrow> int \<Rightarrow> u8 list \<Rightarrow> unit \<Rightarrow> ((unit, unit) ctl, 'k) user" where
  "ls_step S fd path _ =
     ubnd (s_read S fd 16) (\<lambda>(n, bs).
     if n \<noteq> 16 then uret (Done ())
     else let de = dirent_of bs
          in if de_inum de = 0 then uret (Next ())
             else let buf = path @ [slash] @ cstring (take DIRSIZ (de_name de))
                  in ubnd (stat_u S buf) (\<lambda>(r, st).
                     ubnd (if r < 0 then printf_u S (''ls: cannot stat %s'' @ [CHR 0x0A]) [VStr (Some buf)]
                           else case st of Some st \<Rightarrow> ls_entry S buf st | None \<Rightarrow> uret ()) (\<lambda>_.
                     uret (Next ()))))"

definition ls :: "'k sys \<Rightarrow> u8 list \<Rightarrow> (unit, 'k) user" where
  "ls S path =
     ubnd (s_open S path (word_of_int O_RDONLY)) (\<lambda>fd.
     if fd < 0 then fprintf_u S 2 (''ls: cannot open %s'' @ [CHR 0x0A]) [VStr (Some path)]
     else ubnd (s_fstat S fd) (\<lambda>(r, st).
          if r < 0
          then ubnd (fprintf_u S 2 (''ls: cannot stat %s'' @ [CHR 0x0A]) [VStr (Some path)]) (\<lambda>_.
               ubnd (s_close S fd) (\<lambda>_. uret ()))
          else ubnd (if st_type st = T_DEVICE \<or> st_type st = T_FILE then ls_entry S path st
                     else if st_type st = T_DIR
                     then if length path + 1 + DIRSIZ + 1 > 512 then printf_u S (''ls: path too long'' @ [CHR 0x0A]) []
                          else uloop (ls_step S fd path) ()
                     else uret ()) (\<lambda>_.
               ubnd (s_close S fd) (\<lambda>_. uret ()))))"

definition ls_main :: "'k sys \<Rightarrow> u8 list list \<Rightarrow> (int, 'k) user" where
  "ls_main S argv =
     (if length argv < 2 then ubnd (ls S (map of_char ''.'')) (\<lambda>_. uexit 0)
      else ubnd (ueach (ls S) (drop 1 argv)) (\<lambda>_. uexit 0))"

section \<open>\<^verbatim>\<open>init.c\<close>\<close>

definition init_wait :: "'k sys \<Rightarrow> int \<Rightarrow> unit \<Rightarrow> ((unit, unit) ctl, 'k) user" where
  "init_wait S pid _ =
     ubnd (s_wait S) (\<lambda>(wpid, _).
     if wpid = pid then uret (Done ())
     else if wpid < 0 then ubnd (printf_u S (''init: wait returned an error'' @ [CHR 0x0A]) []) (\<lambda>_. uexit 1)
     else uret (Next ()))"

definition init_step :: "'k sys \<Rightarrow> unit \<Rightarrow> ((int, unit) ctl, 'k) user" where
  "init_step S _ =
     ubnd (printf_u S (''init: starting sh'' @ [CHR 0x0A]) []) (\<lambda>_.
     ubnd (s_fork S) (\<lambda>pid.
     ubnd (if pid < 0 then ubnd (printf_u S (''init: fork failed'' @ [CHR 0x0A]) []) (\<lambda>_. uexit 1) else uret ()) (\<lambda>_.
     ubnd (if pid = 0
           then ubnd (s_exec S (map of_char ''sh'') [map of_char ''sh'']) (\<lambda>_.
                ubnd (printf_u S (''init: exec sh failed'' @ [CHR 0x0A]) []) (\<lambda>_. uexit 1))
           else uret ()) (\<lambda>_.
     ubnd (uloop (init_wait S pid) ()) (\<lambda>_. uret (Next ()))))))"

definition init_main :: "'k sys \<Rightarrow> (int, 'k) user" where
  "init_main S =
     ubnd (s_open S (map of_char ''console'') O_RDWR) (\<lambda>fd.
     ubnd (if fd < 0
           then ubnd (s_mknod S (map of_char ''console'') (of_nat CONSOLE) 0) (\<lambda>_.
                ubnd (s_open S (map of_char ''console'') O_RDWR) (\<lambda>_. uret ()))
           else uret ()) (\<lambda>_.
     ubnd (s_dup S 0) (\<lambda>_.
     ubnd (s_dup S 0) (\<lambda>_.
     uloop (init_step S) ()))))"

section \<open>Programs that exercise the kernel\<close>

text \<open>\<^verbatim>\<open>zombie.c\<close>, \<^verbatim>\<open>forktest.c\<close>.\<close>

definition zombie_main :: "'k sys \<Rightarrow> (int, 'k) user" where
  "zombie_main S = ubnd (s_fork S) (\<lambda>pid. ubnd (if pid > 0 then s_pause S 5 else uret 0) (\<lambda>_. uexit 0))"

definition print_u :: "'k sys \<Rightarrow> string \<Rightarrow> (unit, 'k) user" where
  "print_u S s = ubnd (s_write S 1 (map of_char s)) (\<lambda>_. uret ())"

text \<open>The number of forks that worked, at most \<open>n\<close>; then as many calls of \<^verbatim>\<open>wait\<close>.\<close>

primrec forktest_forks :: "nat \<Rightarrow> 'k sys \<Rightarrow> nat \<Rightarrow> (nat, 'k) user" where
  "forktest_forks 0 S n = uret n"
| "forktest_forks (Suc k) S n =
     ubnd (s_fork S) (\<lambda>pid.
     if pid < 0 then uret n
     else if pid = 0 then uexit 0
     else forktest_forks k S (n + 1))"

primrec forktest_waits :: "nat \<Rightarrow> 'k sys \<Rightarrow> (unit, 'k) user" where
  "forktest_waits 0 S = uret ()"
| "forktest_waits (Suc n) S =
     ubnd (s_wait S) (\<lambda>(pid, _).
     if pid < 0 then ubnd (print_u S (''wait stopped early'' @ [CHR 0x0A])) (\<lambda>_. uexit 1)
     else forktest_waits n S)"

definition forktest :: "'k sys \<Rightarrow> (unit, 'k) user" where
  "forktest S =
     ubnd (print_u S (''fork test'' @ [CHR 0x0A])) (\<lambda>_.
     ubnd (forktest_forks 1000 S 0) (\<lambda>n.
     ubnd (if n = 1000 then ubnd (print_u S (''fork claimed to work N times!'' @ [CHR 0x0A])) (\<lambda>_. uexit 1) else uret ()) (\<lambda>_.
     ubnd (forktest_waits n S) (\<lambda>_.
     ubnd (s_wait S) (\<lambda>(pid, _).
     ubnd (if pid \<noteq> -1 then ubnd (print_u S (''wait got too many'' @ [CHR 0x0A])) (\<lambda>_. uexit 1) else uret ()) (\<lambda>_.
     print_u S (''fork test OK'' @ [CHR 0x0A])))))))"

definition forktest_main :: "'k sys \<Rightarrow> (int, 'k) user" where
  "forktest_main S = ubnd (forktest S) (\<lambda>_. uexit 0)"

text \<open>\<^verbatim>\<open>eventtest.c\<close>, \<^verbatim>\<open>writetest.c\<close>: programs whose events a watcher shows.\<close>

definition eventtest_fork :: "'k sys \<Rightarrow> nat \<Rightarrow> (unit, 'k) user" where
  "eventtest_fork S i =
     ubnd (s_fork S) (\<lambda>pid.
     if pid = 0
     then ubnd (s_getpid S) (\<lambda>p.
          ubnd (printf_u S (''Child %d running'' @ [CHR 0x0A]) [VWord (word_of_int p)]) (\<lambda>_. uexit 0))
     else if pid > 0 then ubnd (s_wait S) (\<lambda>_. uret ())
     else printf_u S (''fork failed'' @ [CHR 0x0A]) [])"

definition eventtest_main :: "'k sys \<Rightarrow> (int, 'k) user" where
  "eventtest_main S =
     ubnd (printf_u S (''Test: Creating fork events'' @ [CHR 0x0A]) []) (\<lambda>_.
     ubnd (ueach (eventtest_fork S) [0..<3]) (\<lambda>_.
     ubnd (printf_u S (''Test: Writing to console'' @ [CHR 0x0A]) []) (\<lambda>_.
     ubnd (s_write S 1 (map of_char (''Hello from test'' @ [CHR 0x0A]))) (\<lambda>_.
     uexit 0))))"

definition writetest_child :: "'k sys \<Rightarrow> nat \<Rightarrow> string \<Rightarrow> (unit, 'k) user" where
  "writetest_child S n s = ubnd (ueach (\<lambda>_. ubnd (s_write S 1 (map of_char s)) (\<lambda>_. uret ())) [0..<n]) (\<lambda>_. uexit 0)"

definition writetest_main :: "'k sys \<Rightarrow> (int, 'k) user" where
  "writetest_main S =
     ubnd (printf_u S (''=== Write Test Program ==='' @ [CHR 0x0A]) []) (\<lambda>_.
     ubnd (printf_u S (''This test demonstrates write system calls being captured by watcher'' @ [CHR 0x0A, CHR 0x0A]) []) (\<lambda>_.
     ubnd (printf_u S (''Test 1: Parent process writes'' @ [CHR 0x0A]) []) (\<lambda>_.
     ubnd (ueach (\<lambda>i. printf_u S (''  Write #%d from parent'' @ [CHR 0x0A]) [VWord (of_nat (i + 1))]) [0..<3]) (\<lambda>_.
     ubnd (printf_u S ([CHR 0x0A] @ ''Test 2: Parent and child both write'' @ [CHR 0x0A]) []) (\<lambda>_.
     ubnd (s_fork S) (\<lambda>pid.
     ubnd (if pid = 0 then writetest_child S 3 (''    [Child] Writing to console'' @ [CHR 0x0A])
           else if pid > 0 then ubnd (s_wait S) (\<lambda>_. printf_u S (''Parent: child finished'' @ [CHR 0x0A]) [])
           else uret ()) (\<lambda>_.
     ubnd (printf_u S ([CHR 0x0A] @ ''Test 3: Multiple children writing'' @ [CHR 0x0A]) []) (\<lambda>_.
     ubnd (ueach (\<lambda>_. ubnd (s_fork S) (\<lambda>pid2.
             if pid2 = 0 then writetest_child S 2 (''    [Child] Message'' @ [CHR 0x0A]) else uret ())) [0..<2 :: nat]) (\<lambda>_.
     ubnd (s_wait S) (\<lambda>_.
     ubnd (s_wait S) (\<lambda>_.
     ubnd (printf_u S ([CHR 0x0A] @ ''=== Write Test Complete ==='' @ [CHR 0x0A]) []) (\<lambda>_.
     uexit 0))))))))))))"

text \<open>\<^verbatim>\<open>stressfs.c\<close>: the loop of forks leaves \<^verbatim>\<open>i\<close> as the number of the process.\<close>

primrec stressfs_forks :: "nat \<Rightarrow> 'k sys \<Rightarrow> nat \<Rightarrow> (nat, 'k) user" where
  "stressfs_forks 0 S i = uret i"
| "stressfs_forks (Suc k) S i = ubnd (s_fork S) (\<lambda>pid. if pid > 0 then uret i else stressfs_forks k S (i + 1))"

definition stressfs_main :: "'k sys \<Rightarrow> (int, 'k) user" where
  "stressfs_main S =
     ubnd (printf_u S (''stressfs starting'' @ [CHR 0x0A]) []) (\<lambda>_.
     ubnd (stressfs_forks 4 S 0) (\<lambda>i.
     ubnd (printf_u S (''write %d'' @ [CHR 0x0A]) [VWord (of_nat i)]) (\<lambda>_.
     let path = map of_char ''stressfs'' @ [48 + of_nat i]
     in ubnd (s_open S path (O_CREATE OR O_RDWR)) (\<lambda>fd.
        ubnd (ueach (\<lambda>_. ubnd (s_write S fd (replicate 512 97)) (\<lambda>_. uret ())) [0..<20 :: nat]) (\<lambda>_.
        ubnd (s_close S fd) (\<lambda>_.
        ubnd (printf_u S (''read'' @ [CHR 0x0A]) []) (\<lambda>_.
        ubnd (s_open S path (word_of_int O_RDONLY)) (\<lambda>fd.
        ubnd (ueach (\<lambda>_. ubnd (s_read S fd 512) (\<lambda>_. uret ())) [0..<20 :: nat]) (\<lambda>_.
        ubnd (s_close S fd) (\<lambda>_.
        ubnd (s_wait S) (\<lambda>_.
        uexit 0)))))))))))"

text \<open>\<^verbatim>\<open>forphan.c\<close>, \<^verbatim>\<open>dorphan.c\<close>: they wait to be killed, so that they do not end.\<close>

definition orphan_pause :: "'k sys \<Rightarrow> unit \<Rightarrow> ((int, unit) ctl, 'k) user" where
  "orphan_pause S _ = ubnd (s_pause S 1000) (\<lambda>_. uret (Next ()))"

definition fail_with :: "'k sys \<Rightarrow> u8 list \<Rightarrow> string \<Rightarrow> ('a, 'k) user" where
  "fail_with S s msg = ubnd (printf_u S (''%s: '' @ msg @ [CHR 0x0A]) [VStr (Some s)]) (\<lambda>_. uexit 1)"

definition dorphan_main :: "'k sys \<Rightarrow> u8 list list \<Rightarrow> (int, 'k) user" where
  "dorphan_main S argv =
     ubnd (s_mkdir S (map of_char ''dd'')) (\<lambda>r. if r \<noteq> 0 then fail_with S (argv ! 0) ''mkdir dd failed'' else
     ubnd (s_chdir S (map of_char ''dd'')) (\<lambda>r. if r \<noteq> 0 then fail_with S (argv ! 0) ''chdir dd failed'' else
     ubnd (s_unlink S (map of_char ''../dd'')) (\<lambda>r. if r < 0 then fail_with S (argv ! 0) ''unlink failed'' else
     ubnd (printf_u S (''wait for kill and reclaim'' @ [CHR 0x0A]) []) (\<lambda>_.
     uloop (orphan_pause S) ()))))"

definition forphan_main :: "'k sys \<Rightarrow> u8 list list \<Rightarrow> (int, 'k) user" where
  "forphan_main S argv =
     (let ff = map of_char ''file0'' in
     ubnd (s_open S ff (O_CREATE OR O_WRONLY)) (\<lambda>fd. if fd < 0 then fail_with S (argv ! 0) ''open failed'' else
     ubnd (s_fstat S fd) (\<lambda>(r, st).
       if r < 0
       then ubnd (fprintf_u S 2 (''%s: cannot stat %s'' @ [CHR 0x0A]) [VStr (Some (argv ! 0)), VStr (Some (map of_char ''ff''))]) (\<lambda>_. uexit 1)
       else
     ubnd (s_unlink S ff) (\<lambda>r. if r < 0 then fail_with S (argv ! 0) ''unlink failed'' else
     ubnd (s_open S ff (word_of_int O_RDONLY)) (\<lambda>r. if r \<noteq> -1 then fail_with S (argv ! 0) ''open successed'' else
     ubnd (printf_u S (''wait for kill and reclaim %d'' @ [CHR 0x0A]) [VWord (ucast (st_ino st))]) (\<lambda>_.
     uloop (orphan_pause S) ()))))))"

section \<open>\<^verbatim>\<open>echo\<close>\<close>

fun joined :: "u8 list list \<Rightarrow> u8 list" where
  "joined [] = []"
| "joined [a] = a @ [10]"
| "joined (a # rest) = a @ [32] @ joined rest"

context byte_feed
begin

lemma echo_writes: "writes (joined args) (echo_args S args)"
proof (induction args rule: joined.induct)
  case 1
  show ?case by (simp add: uret_def)
next
  case (2 a)
  from writes_bnd [OF writes_write writes_bnd [OF writes_write writes_ret], of a "[10]"] show ?case by simp
next
  case (3 a b rest)
  from writes_bnd [OF writes_write writes_bnd [OF writes_write 3], of a "[32]"] show ?case by simp
qed

end

end
