(* ===== verification/Xv6_Umalloc.thy ===== *)
theory Xv6_Umalloc
  imports Xv6_User
begin

text \<open>
  \<^verbatim>\<open>user/umalloc.c\<close>: the memory allocator of user programs, a circular list of free blocks in the order of
  their addresses. The headers are a store of their own: \<open>hdr h a\<close> is the header at the address \<open>a\<close>. A
  header has 16 bytes, and sizes count in units of as much.
\<close>

section \<open>The allocator\<close>

record header =
  h_ptr :: u64
  h_size :: u32

text \<open>\<open>um_base\<close> is the address of the variable \<^verbatim>\<open>base\<close>.\<close>

record uheap =
  hdr :: "u64 \<Rightarrow> header"
  freep :: u64
  um_base :: u64

definition ptr_of :: "uheap \<Rightarrow> u64 \<Rightarrow> u64" where
  "ptr_of h p = h_ptr (hdr h p)"

definition size_of :: "uheap \<Rightarrow> u64 \<Rightarrow> u32" where
  "size_of h p = h_size (hdr h p)"

definition set_ptr :: "u64 \<Rightarrow> u64 \<Rightarrow> uheap \<Rightarrow> uheap" where
  "set_ptr p v h = h\<lparr>hdr := (hdr h)(p := (hdr h p)\<lparr>h_ptr := v\<rparr>)\<rparr>"

definition set_size :: "u64 \<Rightarrow> u32 \<Rightarrow> uheap \<Rightarrow> uheap" where
  "set_size p v h = h\<lparr>hdr := (hdr h)(p := (hdr h p)\<lparr>h_size := v\<rparr>)\<rparr>"

text \<open>The header \<open>n\<close> units behind \<open>p\<close>.\<close>

definition past :: "u64 \<Rightarrow> u32 \<Rightarrow> u64" where
  "past p n = p + 16 * ucast n"

definition free_find :: "uheap \<Rightarrow> u64 \<Rightarrow> u64 \<Rightarrow> (u64, u64) ctl res" where
  "free_find h bp p =
     (if bp > p \<and> bp < ptr_of h p then Ok (Done p)
      else if p \<ge> ptr_of h p \<and> (bp > p \<or> bp < ptr_of h p) then Ok (Done p)
      else Ok (Next (ptr_of h p)))"

definition free_u :: "u64 \<Rightarrow> uheap \<Rightarrow> uheap res" where
  "free_u ap h =
     (let bp = ap - 16
      in bnd (loop_res (free_find h bp) (freep h)) (\<lambda>p.
         let h = (if past bp (size_of h bp) = ptr_of h p
                  then let h = set_size bp (size_of h bp + size_of h (ptr_of h p)) h
                       in set_ptr bp (ptr_of h (ptr_of h p)) h
                  else set_ptr bp (ptr_of h p) h);
             h = (if past p (size_of h p) = bp
                  then let h = set_size p (size_of h p + size_of h bp) h
                       in set_ptr p (ptr_of h bp) h
                  else set_ptr p bp h)
         in Ok (h\<lparr>freep := p\<rparr>)))"

definition SBRK_ERROR :: u64 where "SBRK_ERROR = -1"

definition morecore :: "'k sys \<Rightarrow> u32 \<Rightarrow> uheap \<Rightarrow> (u64 \<times> uheap, 'k) user" where
  "morecore S nu h =
     (let nu = (if nu < 4096 then 4096 else nu)
      in ubnd (sbrk_u S (sint (nu * 16))) (\<lambda>hp.
         if hp = SBRK_ERROR then uret (0, h)
         else (\<lambda>k. bnd (free_u (hp + 16) (set_size hp nu h)) (\<lambda>h. uret (freep h, h) k))))"

text \<open>One round of the loop of \<^verbatim>\<open>malloc\<close>; the state is \<^verbatim>\<open>prevp\<close>, \<^verbatim>\<open>p\<close> and the heap.\<close>

definition malloc_step :: "'k sys \<Rightarrow> u32 \<Rightarrow> u64 \<times> u64 \<times> uheap \<Rightarrow> ((u64 \<times> uheap, u64 \<times> u64 \<times> uheap) ctl, 'k) user" where
  "malloc_step S nunits = (\<lambda>(prevp, p, h).
     if size_of h p \<ge> nunits
     then let (p, h) = (if size_of h p = nunits then (p, set_ptr prevp (ptr_of h p) h)
                        else let h = set_size p (size_of h p - nunits) h; p = past p (size_of h p)
                             in (p, set_size p nunits h))
          in uret (Done (p + 16, h\<lparr>freep := prevp\<rparr>))
     else if p = freep h
     then ubnd (morecore S nunits h) (\<lambda>(p, h).
          if p = 0 then uret (Done (0, h)) else uret (Next (p, ptr_of h p, h)))
     else uret (Next (p, ptr_of h p, h)))"

definition units_for :: "u32 \<Rightarrow> u32" where
  "units_for nbytes = ucast ((ucast nbytes + 15) div 16 + 1 :: u64)"

definition malloc_u :: "'k sys \<Rightarrow> u32 \<Rightarrow> uheap \<Rightarrow> (u64 \<times> uheap, 'k) user" where
  "malloc_u S nbytes h =
     (let nunits = units_for nbytes;
          h = (if freep h = 0 then set_size (um_base h) 0 (set_ptr (um_base h) (um_base h) (h\<lparr>freep := um_base h\<rparr>)) else h)
      in uloop (malloc_step S nunits) (freep h, ptr_of h (freep h), h))"

section \<open>The free list\<close>

text \<open>The addresses \<open>xs\<close> lead from \<open>a\<close> to \<open>c\<close>.\<close>

fun chain :: "(u64 \<Rightarrow> u64) \<Rightarrow> u64 \<Rightarrow> u64 list \<Rightarrow> u64 \<Rightarrow> bool" where
  "chain nx a [] c \<longleftrightarrow> nx a = c"
| "chain nx a (x # xs) c \<longleftrightarrow> nx a = x \<and> chain nx x xs c"

lemma chain_append [simp]: "chain nx a (xs @ y # ys) c \<longleftrightarrow> chain nx a xs y \<and> chain nx y ys c"
  by (induction xs arbitrary: a) auto

lemma chain_upd: "z \<notin> set (a # xs) \<Longrightarrow> chain (nx(z := v)) a xs c = chain nx a xs c"
  by (induction xs arbitrary: a) auto

lemma chain_last: "chain nx a xs c \<Longrightarrow> nx (last (a # xs)) = c"
  by (induction xs arbitrary: a) auto

lemma chain_relink:
  assumes "chain nx a xs c" "distinct (a # xs)"
  shows "chain (nx(last (a # xs) := d)) a xs d"
  using assms
proof (induction xs arbitrary: a)
  case (Cons x xs)
  then have "chain (nx(last (x # xs) := d)) x xs d" by (intro Cons.IH) auto
  moreover have "last (x # xs) \<noteq> a" using Cons.prems(2) last_in_set [of "x # xs"] by auto
  ultimately show ?case using Cons.prems(1) by (cases "xs = []") (auto simp: fun_upd_def)
qed simp

abbreviation units :: "uheap \<Rightarrow> u64 \<Rightarrow> nat" where
  "units h a \<equiv> unat (size_of h a)"

text \<open>The bytes of a block; what a heap with the free blocks \<open>xs\<close> looks like, below the address \<open>hi\<close>; the free bytes.\<close>

definition block_at :: "u64 \<Rightarrow> nat \<Rightarrow> nat set" where
  "block_at a n = {unat a ..< unat a + 16 * n}"

definition before :: "uheap \<Rightarrow> u64 \<Rightarrow> u64 \<Rightarrow> bool" where
  "before h x y \<longleftrightarrow> unat x + 16 * units h x \<le> unat y"

definition within :: "uheap \<Rightarrow> nat \<Rightarrow> u64 \<Rightarrow> bool" where
  "within h hi x \<longleftrightarrow> unat (um_base h) + 16 \<le> unat x \<and> 1 \<le> units h x \<and> unat x + 16 * units h x \<le> hi"

definition heap_ok :: "uheap \<Rightarrow> nat \<Rightarrow> u64 list \<Rightarrow> bool" where
  "heap_ok h hi xs \<longleftrightarrow> chain (ptr_of h) (um_base h) xs (um_base h) \<and> size_of h (um_base h) = 0 \<and> um_base h \<noteq> 0
     \<and> sorted_wrt (before h) xs \<and> (\<forall>x\<in>set xs. within h hi x) \<and> hi \<le> 2 ^ 36
     \<and> freep h \<in> set (um_base h # xs)"

definition free_bytes :: "uheap \<Rightarrow> u64 list \<Rightarrow> nat set" where
  "free_bytes h xs = (\<Union>x\<in>set xs. block_at x (units h x))"

lemma heap_simps [simp]:
  "ptr_of (set_ptr p v h) = (ptr_of h)(p := v)" "size_of (set_ptr p v h) = size_of h"
  "ptr_of (set_size p n h) = ptr_of h" "size_of (set_size p n h) = (size_of h)(p := n)"
  "ptr_of (h\<lparr>freep := f\<rparr>) = ptr_of h" "size_of (h\<lparr>freep := f\<rparr>) = size_of h"
  "freep (set_ptr p v h) = freep h" "freep (set_size p n h) = freep h"
  "um_base (set_ptr p v h) = um_base h" "um_base (set_size p n h) = um_base h"
  by (auto simp: ptr_of_def size_of_def set_ptr_def set_size_def fun_eq_iff)

lemma unat_past: "unat p + 16 * unat n < 2 ^ 64 \<Longrightarrow> unat (past p n) = unat p + 16 * unat n"
proof -
  assume a: "unat p + 16 * unat n < 2 ^ 64"
  then have "unat (16 * ucast n :: u64) = 16 * unat n" by (simp add: unat_word_ariths unat_ucast_u32)
  with a show ?thesis by (simp add: past_def unat_word_ariths)
qed

lemma past_eq_iff: "unat p + 16 * unat n < 2 ^ 64 \<Longrightarrow> past p n = q \<longleftrightarrow> unat p + 16 * unat n = unat q"
  using unat_past [of p n] by (auto simp: word_unat_eq_iff)

section \<open>Finding the place of a block\<close>

lemma free_find_low:
  assumes "sorted_wrt (<) (a # us)" "\<forall>x\<in>set (a # us). x < bp" "chain (ptr_of h) a us c" "bp < c \<or> c \<le> last (a # us)"
  shows "loop_res (free_find h bp) a = Ok (last (a # us))"
  using assms
proof (induction us arbitrary: a)
  case Nil
  then show ?case by (subst loop_res_unfold) (auto simp: free_find_def)
next
  case (Cons u us)
  then have u: "ptr_of h a = u" "a < u" "u < bp" by auto
  then have "free_find h bp a = Ok (Next u)" by (auto simp: free_find_def)
  then have "loop_res (free_find h bp) a = loop_res (free_find h bp) u" by (subst loop_res_unfold) simp
  with Cons.IH [of u] Cons.prems show ?case by simp
qed

lemma free_find_high:
  assumes "sorted_wrt (<) (a # us)" "\<forall>x\<in>set (a # us). bp < x" "chain (ptr_of h) a us c" "c < bp"
  shows "loop_res (free_find h bp) a = loop_res (free_find h bp) c"
  using assms
proof (induction us arbitrary: a)
  case Nil
  then have "free_find h bp a = Ok (Next c)" by (auto simp: free_find_def)
  then show ?case by (subst loop_res_unfold) simp
next
  case (Cons u us)
  then have u: "ptr_of h a = u" "a < u" "bp < a" by auto
  then have "free_find h bp a = Ok (Next u)" by (auto simp: free_find_def)
  then have "loop_res (free_find h bp) a = loop_res (free_find h bp) u" by (subst loop_res_unfold) simp
  with Cons.IH [of u] Cons.prems show ?case by simp
qed

lemma heap_sorted:
  assumes "heap_ok h hi xs"
  shows "sorted_wrt (<) (um_base h # xs)" "distinct (um_base h # xs)"
proof -
  have w: "\<forall>x\<in>set xs. within h hi x" and s: "sorted_wrt (before h) xs" using assms by (auto simp: heap_ok_def)
  have "sorted_wrt (<) xs"
    using s w by (elim sorted_wrt_mono_rel [rotated]) (auto simp: before_def within_def word_less_nat_alt)
  moreover have "\<forall>x\<in>set xs. um_base h < x" using w by (auto simp: within_def word_less_nat_alt)
  ultimately show a: "sorted_wrt (<) (um_base h # xs)" by simp
  then show "distinct (um_base h # xs)" by (simp only: strict_sorted_iff)
qed

lemma chain_from:
  assumes "chain nx a xs c" "p \<in> set (a # xs)"
  shows "\<exists>us vs. a # xs = us @ p # vs \<and> chain nx p vs c"
  using assms
proof (induction xs arbitrary: a)
  case (Cons x xs)
  show ?case
  proof (cases "p = a")
    case False
    with Cons.prems Cons.IH [of x] obtain us vs where "x # xs = us @ p # vs" "chain nx p vs c" by auto
    then show ?thesis by (metis append_Cons)
  next
    case True
    then show ?thesis using Cons.prems by (intro exI [of _ "[]"] exI [of _ "x # xs"]) simp
  qed
qed (auto intro!: exI [of _ "[]"])

lemma free_finds:
  assumes ok: "heap_ok h hi (ys @ zs)" and low: "\<forall>x\<in>set (um_base h # ys). x < bp" and high: "\<forall>z\<in>set zs. bp < z"
  shows "loop_res (free_find h bp) (freep h) = Ok (last (um_base h # ys))"
proof -
  let ?B = "um_base h"
  have ch: "chain (ptr_of h) ?B (ys @ zs) ?B" and fp: "freep h \<in> set (?B # ys @ zs)" using ok by (auto simp: heap_ok_def)
  have srt: "sorted_wrt (<) (?B # ys @ zs)" using heap_sorted [OF ok] by simp
  define c where "c = hd (zs @ [?B])"
  have chy: "chain (ptr_of h) ?B ys c" using ch by (cases zs) (auto simp: c_def)
  have end': "bp < c \<or> c \<le> last (a # us)" if "\<forall>x\<in>set (a # us). ?B \<le> x" for a us
  proof (cases zs)
    case Nil
    then show ?thesis using that by (auto simp: c_def)
  next
    case (Cons z zs')
    then show ?thesis using high by (simp add: c_def)
  qed
  have ge: "\<forall>x\<in>set (?B # ys). ?B \<le> x" using srt by (auto intro: less_imp_le)
  have from_base: "loop_res (free_find h bp) ?B = Ok (last (?B # ys))"
    using srt low chy end' [OF ge] by (intro free_find_low) (auto simp: sorted_wrt_append)
  show ?thesis
  proof (cases "freep h \<in> set (?B # ys)")
    case True
    from chain_from [OF chy this] obtain us vs where uv: "?B # ys = us @ freep h # vs" "chain (ptr_of h) (freep h) vs c" by blast
    have srt2: "sorted_wrt (<) (us @ freep h # vs)" using srt unfolding uv(1) [symmetric] by (simp add: sorted_wrt_append)
    have sub: "set (freep h # vs) \<subseteq> set (?B # ys)" unfolding uv(1) by auto
    have "\<forall>x\<in>set (freep h # vs). ?B \<le> x" "\<forall>x\<in>set (freep h # vs). x < bp" using sub ge low by blast+
    then have "loop_res (free_find h bp) (freep h) = Ok (last (freep h # vs))"
      using srt2 uv(2) end' [of "freep h" vs] by (intro free_find_low [of _ _ _ _ c]) (auto simp: sorted_wrt_append)
    moreover have "last (?B # ys) = last (freep h # vs)" unfolding uv(1) by simp
    ultimately show ?thesis by simp
  next
    case False
    then have "freep h \<in> set zs" using fp by auto
    then obtain us vs where uv: "zs = us @ freep h # vs" by (metis split_list)
    then have "chain (ptr_of h) (freep h) vs ?B" using ch by (simp flip: append_assoc append_Cons)
    moreover have "sorted_wrt (<) (freep h # vs)" using srt unfolding uv by (auto simp: sorted_wrt_append)
    moreover have "\<forall>x\<in>set (freep h # vs). bp < x" using high uv by auto
    ultimately have "loop_res (free_find h bp) (freep h) = loop_res (free_find h bp) ?B"
      using low by (intro free_find_high) auto
    with from_base show ?thesis by simp
  qed
qed

section \<open>Freeing\<close>

text \<open>
  The list while a block is being linked in: it leads from \<^verbatim>\<open>base\<close> through \<open>ys\<close>, and from the block through \<open>zs\<close> back.
\<close>

definition linking :: "uheap \<Rightarrow> nat \<Rightarrow> u64 list \<Rightarrow> u64 \<Rightarrow> u64 list \<Rightarrow> bool" where
  "linking h hi ys bp zs \<longleftrightarrow> (\<exists>c. chain (ptr_of h) (um_base h) ys c) \<and> chain (ptr_of h) bp zs (um_base h)
     \<and> size_of h (um_base h) = 0 \<and> um_base h \<noteq> 0 \<and> hi \<le> 2 ^ 36
     \<and> sorted_wrt (before h) (ys @ bp # zs) \<and> (\<forall>x\<in>set (ys @ bp # zs). within h hi x)"

lemma block_at_merge: "unat p + 16 * a = unat q \<Longrightarrow> block_at p (a + b) = block_at p a \<union> block_at q b"
  by (auto simp: block_at_def)

lemma within_above: "within h hi x \<Longrightarrow> um_base h < x"
  by (auto simp: within_def word_less_nat_alt)

lemma linking_distinct:
  assumes "linking h hi ys bp zs"
  shows "distinct (um_base h # ys @ bp # zs)"
proof -
  have w: "\<forall>x\<in>set (ys @ bp # zs). within h hi x" and s: "sorted_wrt (before h) (ys @ bp # zs)"
    using assms by (auto simp: linking_def)
  have "x < y" if "before h x y" "within h hi x" for x y using that by (auto simp: before_def within_def word_less_nat_alt)
  with w have "x < y" if "x \<in> set (ys @ bp # zs)" "y \<in> set (ys @ bp # zs)" "before h x y" for x y using that by blast
  from sorted_wrt_mono_rel [OF this s] have "sorted_wrt (<) (ys @ bp # zs)" .
  moreover have "\<forall>x\<in>set (ys @ bp # zs). um_base h < x" using w within_above by blast
  ultimately have "sorted_wrt (<) (um_base h # ys @ bp # zs)" by simp
  then show ?thesis by (simp only: strict_sorted_iff)
qed

lemma link_in:
  assumes l: "linking h hi ys bp zs" and p: "p = last (um_base h # ys)"
    and h': "h' = (if past p (size_of h p) = bp then set_ptr p (ptr_of h bp) (set_size p (size_of h p + size_of h bp) h)
                  else set_ptr p bp h)\<lparr>freep := p\<rparr>"
  shows "\<exists>xs. heap_ok h' hi xs \<and> free_bytes h' xs = free_bytes h (ys @ bp # zs) \<and> um_base h' = um_base h
      \<and> (\<forall>a. a \<noteq> p \<longrightarrow> hdr h' a = hdr h a) \<and> (\<exists>x\<in>set xs. block_at bp (units h bp) \<subseteq> block_at x (units h' x))"
proof -
  let ?B = "um_base h"
  have d: "distinct (?B # ys @ bp # zs)" using linking_distinct [OF l] .
  obtain c where c: "chain (ptr_of h) ?B ys c" "chain (ptr_of h) bp zs ?B" using l by (auto simp: linking_def)
  have w: "\<forall>x\<in>set (ys @ bp # zs). within h hi x" and s: "sorted_wrt (before h) (ys @ bp # zs)" and hi: "hi \<le> 2 ^ 36"
    and b0: "size_of h ?B = 0" "?B \<noteq> 0" using l by (auto simp: linking_def)
  have wb: "within h hi bp" using w by simp
  have pin: "p \<in> set (?B # ys)" unfolding p by (rule last_in_set) simp
  show ?thesis
  proof (cases "past p (size_of h p) = bp")
    case False
    then have h'': "h' = set_ptr p bp h\<lparr>freep := p\<rparr>" using h' by simp
    have "chain ((ptr_of h)(p := bp)) ?B ys bp" using chain_relink [OF c(1), of bp] d unfolding p by auto
    moreover have "chain ((ptr_of h)(p := bp)) bp zs ?B" using c(2) pin d by (subst chain_upd) auto
    ultimately have "chain (ptr_of h') ?B (ys @ bp # zs) ?B" by (simp add: h'')
    moreover have "before h' = before h" "within h' = within h" by (auto simp: h'' before_def within_def fun_eq_iff)
    ultimately have "heap_ok h' hi (ys @ bp # zs)" using s w hi b0 pin by (auto simp: heap_ok_def h'')
    moreover have "free_bytes h' (ys @ bp # zs) = free_bytes h (ys @ bp # zs)" by (simp add: h'' free_bytes_def)
    moreover have "\<forall>a. a \<noteq> p \<longrightarrow> hdr h' a = hdr h a" by (simp add: h'' set_ptr_def)
    ultimately show ?thesis by (intro exI [of _ "ys @ bp # zs"]) (simp add: h'')
  next
    case True
    then have h'': "h' = set_ptr p (ptr_of h bp) (set_size p (size_of h p + size_of h bp) h)\<lparr>freep := p\<rparr>" using h' by simp
    have "p \<noteq> ?B"
    proof
      assume "p = ?B"
      then have "past p (size_of h p) = ?B" using b0 by (simp add: past_def)
      with True d show False by simp
    qed
    then obtain ys' where ys: "ys = ys' @ [p]" using p by (cases ys rule: rev_cases) auto
    have wp: "within h hi p" using w ys by simp
    have bnd: "unat p + 16 * units h p < 2 ^ 64" using wp hi by (auto simp: within_def)
    have adj: "unat p + 16 * units h p = unat bp" using True past_eq_iff [OF bnd] by simp
    have "units h p + units h bp < 2 ^ 32" using adj wb wp hi by (auto simp: within_def)
    then have sum: "unat (size_of h p + size_of h bp) = units h p + units h bp" by (simp add: unat_word_ariths)
    have u: "units h' x = (if x = p then units h p + units h bp else units h x)" for x by (simp add: h'' sum)
    have c1: "chain (ptr_of h) ?B ys' p" using c(1) unfolding ys by simp
    have pz: "p \<notin> set (bp # zs)" "p \<notin> set (?B # ys')" using d ys by auto
    have "chain ((ptr_of h)(p := ptr_of h bp)) p zs ?B"
    proof (cases zs)
      case (Cons z zs')
      then show ?thesis using c(2) pz(1) chain_upd [of p z zs'] by simp
    qed (use c(2) in simp)
    moreover have "chain ((ptr_of h)(p := ptr_of h bp)) ?B ys' p" using c1 pz(2) by (subst chain_upd) auto
    ultimately have "chain (ptr_of h') ?B (ys' @ p # zs) ?B" by (simp add: h'')
    moreover have "sorted_wrt (before h') (ys' @ p # zs)"
    proof -
      have od: "sorted_wrt (before h) ys'" "sorted_wrt (before h) zs" "\<forall>x\<in>set ys'. before h x p" "\<forall>z\<in>set zs. before h bp z"
        "\<forall>x\<in>set ys'. \<forall>z\<in>set zs. before h x z" using s by (auto simp: ys sorted_wrt_append)
      have keep: "before h' x y = before h x y" if "x \<noteq> p" for x y using that by (simp add: before_def u)
      have "before h' p z" if "before h bp z" for z using that adj by (simp add: before_def u)
      moreover have "sorted_wrt (before h') ys'" using pz by (intro sorted_wrt_mono_rel [OF _ od(1)]) (metis keep list.set_intros(2))
      moreover have "sorted_wrt (before h') zs" using pz by (intro sorted_wrt_mono_rel [OF _ od(2)]) (metis keep list.set_intros(2))
      moreover have "\<forall>x\<in>set ys'. before h' x y = before h x y" for y using pz keep by (metis list.set_intros(2))
      ultimately show ?thesis using od by (simp add: sorted_wrt_append)
    qed
    moreover have "\<forall>x\<in>set (ys' @ p # zs). within h' hi x"
    proof
      fix x assume "x \<in> set (ys' @ p # zs)"
      then have "within h hi x" using w ys by auto
      then show "within h' hi x" using wb adj unfolding within_def u by (auto simp: h'')
    qed
    ultimately have "heap_ok h' hi (ys' @ p # zs)" using hi b0 \<open>p \<noteq> ?B\<close> by (auto simp: heap_ok_def h'')
    moreover have "free_bytes h' (ys' @ p # zs) = free_bytes h (ys @ bp # zs)"
    proof -
      have "block_at x (units h' x) = block_at x (units h x)" if "x \<in> set (ys' @ zs)" for x using that pz by (auto simp: u)
      moreover have "block_at p (units h' p) = block_at p (units h p) \<union> block_at bp (units h bp)"
        using block_at_merge [OF adj] by (simp add: u)
      ultimately show ?thesis by (auto simp: free_bytes_def ys)
    qed
    moreover have "block_at bp (units h bp) \<subseteq> block_at p (units h' p)" using adj u by (auto simp: block_at_def)
    moreover have "\<forall>a. a \<noteq> p \<longrightarrow> hdr h' a = hdr h a" by (simp add: h'' set_ptr_def set_size_def)
    ultimately show ?thesis by (intro exI [of _ "ys' @ p # zs"]) (simp add: h'')
  qed
qed

lemma absorb:
  assumes ok: "heap_ok h hi (ys @ zs)" and bp: "within h hi bp" and c: "c = hd (zs @ [um_base h])"
    and low: "\<forall>y\<in>set ys. before h y bp" and high: "\<forall>z\<in>set zs. before h bp z"
    and h': "h' = (if past bp (size_of h bp) = c then set_ptr bp (ptr_of h c) (set_size bp (size_of h bp + size_of h c) h)
                   else set_ptr bp c h)"
  shows "\<exists>zs'. linking h' hi ys bp zs' \<and> free_bytes h' (ys @ bp # zs') = free_bytes h (ys @ zs) \<union> block_at bp (units h bp)
    \<and> units h bp \<le> units h' bp"
proof -
  let ?B = "um_base h"
  have ch: "chain (ptr_of h) ?B (ys @ zs) ?B" and w: "\<forall>x\<in>set (ys @ zs). within h hi x" and s: "sorted_wrt (before h) (ys @ zs)"
    and hi: "hi \<le> 2 ^ 36" and b0: "size_of h ?B = 0" "?B \<noteq> 0" using ok by (auto simp: heap_ok_def)
  have chy: "chain (ptr_of h) ?B ys c" using ch c by (cases zs) auto
  have lt: "x < y" if "before h x y" "within h hi x" for x y using that by (auto simp: before_def within_def word_less_nat_alt)
  have nin: "bp \<notin> set (?B # ys @ zs)" using low high w bp lt within_above [OF bp] by fastforce
  have pre: "chain (ptr_of h') ?B ys c" using chy nin by (auto simp: h' chain_upd)
  show ?thesis
  proof (cases "past bp (size_of h bp) = c")
    case False
    have post: "chain (ptr_of h') bp zs ?B"
    proof (cases zs)
      case (Cons z zs')
      then have "chain (ptr_of h) z zs' ?B" using ch by simp
      then show ?thesis using nin Cons False c by (simp add: h' chain_upd)
    qed (use False c in \<open>simp add: h'\<close>)
    have "before h' = before h" "within h' = within h" using False by (auto simp: h' before_def within_def fun_eq_iff)
    moreover have "sorted_wrt (before h) (ys @ bp # zs)" using s low high by (auto simp: sorted_wrt_append)
    ultimately have "linking h' hi ys bp zs" using pre post w bp hi b0 False unfolding linking_def by (auto simp: h')
    moreover have "free_bytes h' (ys @ bp # zs) = free_bytes h (ys @ zs) \<union> block_at bp (units h bp)"
      using False by (auto simp: h' free_bytes_def)
    moreover have "units h bp \<le> units h' bp" using False by (simp add: h')
    ultimately show ?thesis by blast
  next
    case True
    have bnd: "unat bp + 16 * units h bp < 2 ^ 64" using bp hi by (auto simp: within_def)
    have adj: "unat bp + 16 * units h bp = unat c" using True past_eq_iff [OF bnd] by simp
    have "zs \<noteq> []" using adj bp c by (auto simp: within_def)
    then obtain zs' where zs: "zs = c # zs'" using c by (cases zs) auto
    have h'': "h' = set_ptr bp (ptr_of h c) (set_size bp (size_of h bp + size_of h c) h)" using h' True by simp
    have wc: "within h hi c" using w zs by simp
    have "units h bp + units h c < 2 ^ 32" using adj wc bp hi by (auto simp: within_def)
    then have u: "units h' x = (if x = bp then units h bp + units h c else units h x)" for x
      by (simp add: h'' unat_word_ariths)
    have keep: "before h' x y = before h x y" if "x \<noteq> bp" for x y using that by (simp add: before_def u)
    have "chain (ptr_of h) c zs' ?B" using ch zs by simp
    then have post: "chain (ptr_of h') bp zs' ?B" using nin zs chain_upd [of bp] by (cases zs') (simp_all add: h'')
    have srt: "sorted_wrt (before h') (ys @ bp # zs')"
    proof -
      have od: "sorted_wrt (before h) ys" "sorted_wrt (before h) zs'" "\<forall>z\<in>set zs'. before h c z"
        "\<forall>x\<in>set ys. \<forall>z\<in>set zs'. before h x z" using s by (auto simp: zs sorted_wrt_append)
      have "before h' bp z" if "before h c z" for z using that adj by (simp add: before_def u)
      moreover have "sorted_wrt (before h') ys" using nin by (intro sorted_wrt_mono_rel [OF _ od(1)]) (metis keep in_set_conv_decomp list.set_intros(2) append.assoc append_Cons)
      moreover have "sorted_wrt (before h') zs'" using nin zs by (intro sorted_wrt_mono_rel [OF _ od(2)]) (metis keep UnCI list.set_intros(2) set_append)
      moreover have "\<forall>x\<in>set ys. before h' x y = before h x y" for y using nin keep by (metis UnCI list.set_intros(2) set_append)
      ultimately show ?thesis using od low by (simp add: sorted_wrt_append)
    qed
    have win: "within h' hi x" if "x \<in> set (ys @ bp # zs')" for x
    proof -
      have "within h hi x" using that w bp zs by auto
      then show ?thesis using wc adj unfolding within_def u by (auto simp: h'')
    qed
    have "linking h' hi ys bp zs'" using pre post srt win hi b0 nin unfolding linking_def by (auto simp: h'')
    moreover have "free_bytes h' (ys @ bp # zs') = free_bytes h (ys @ zs) \<union> block_at bp (units h bp)"
    proof -
      have "block_at x (units h' x) = block_at x (units h x)" if "x \<in> set (ys @ zs')" for x using that nin zs by (auto simp: u)
      moreover have "block_at bp (units h' bp) = block_at bp (units h bp) \<union> block_at c (units h c)"
        using block_at_merge [OF adj] by (simp add: u)
      ultimately show ?thesis by (auto simp: free_bytes_def zs)
    qed
    moreover have "units h bp \<le> units h' bp" by (simp add: u)
    ultimately show ?thesis by blast
  qed
qed

lemma block_at_le:
  assumes "block_at a n \<subseteq> block_at b m"
  shows "n \<le> m"
  using card_mono [OF _ assms] by (simp add: block_at_def)

lemma disjoint_order:
  assumes "block_at a n \<inter> block_at b m = {}" "1 \<le> n" "1 \<le> m"
  shows "unat a + 16 * n \<le> unat b \<or> unat b + 16 * m \<le> unat a"
proof (rule ccontr)
  assume "\<not> ?thesis"
  then have "max (unat a) (unat b) \<in> block_at a n \<inter> block_at b m" using assms(2,3) by (auto simp: block_at_def)
  with assms(1) show False by simp
qed

lemma free_spec:
  assumes ok: "heap_ok h hi xs" and bp: "within h hi bp" and dis: "block_at bp (units h bp) \<inter> free_bytes h xs = {}"
  shows "\<exists>h' xs'. free_u (bp + 16) h = Ok h' \<and> heap_ok h' hi xs' \<and> free_bytes h' xs' = free_bytes h xs \<union> block_at bp (units h bp)
    \<and> um_base h' = um_base h \<and> (\<forall>a. a \<notin> insert bp (set (um_base h # xs)) \<longrightarrow> hdr h' a = hdr h a)
    \<and> (\<exists>x\<in>set xs'. units h bp \<le> units h' x)"
proof -
  let ?B = "um_base h"
  define ys zs where "ys = takeWhile (\<lambda>x. x < bp) xs" and "zs = dropWhile (\<lambda>x. x < bp) xs"
  have xs: "xs = ys @ zs" by (simp add: ys_def zs_def)
  have w: "\<forall>x\<in>set xs. within h hi x" using ok by (simp add: heap_ok_def)
  have cmp: "before h x bp \<or> before h bp x" if "x \<in> set xs" for x
  proof -
    have "block_at x (units h x) \<inter> block_at bp (units h bp) = {}" using dis that by (auto simp: free_bytes_def)
    then show ?thesis using disjoint_order [of x "units h x" bp "units h bp"] w that bp by (auto simp: within_def before_def)
  qed
  have lt: "x < y" if "before h x y" "within h hi x" for x y using that by (auto simp: before_def within_def word_less_nat_alt)
  have srt: "sorted_wrt (<) xs" using heap_sorted [OF ok] by simp
  have low: "\<forall>y\<in>set ys. before h y bp"
  proof
    fix y assume "y \<in> set ys"
    then have "y < bp" "y \<in> set xs" by (auto simp: ys_def dest: set_takeWhileD)
    then show "before h y bp" using cmp [of y] lt [of bp y] bp by auto
  qed
  have zge: "\<forall>z\<in>set zs. bp \<le> z"
  proof (cases zs)
    case (Cons z zs')
    then have "bp \<le> z" using hd_dropWhile [of "\<lambda>x. x < bp" xs] by (auto simp: zs_def)
    moreover have "\<forall>y\<in>set zs'. z < y" using srt Cons by (simp add: xs sorted_wrt_append)
    ultimately show ?thesis using Cons by auto
  qed simp
  have high: "\<forall>z\<in>set zs. before h bp z"
  proof
    fix z assume z: "z \<in> set zs"
    then show "before h bp z" using cmp [of z] lt [of z bp] w zge by (auto simp: xs)
  qed
  have "\<forall>x\<in>set (?B # ys). x < bp" using low lt w within_above [OF bp] by (auto simp: xs)
  moreover have "\<forall>z\<in>set zs. bp < z" using high lt bp by blast
  ultimately have find: "loop_res (free_find h bp) (freep h) = Ok (last (?B # ys))"
    using ok by (intro free_finds) (simp_all add: xs)
  define p where "p = last (?B # ys)"
  define c where "c = hd (zs @ [?B])"
  define h1 where "h1 = (if past bp (size_of h bp) = c then set_ptr bp (ptr_of h c) (set_size bp (size_of h bp + size_of h c) h)
                         else set_ptr bp c h)"
  define h2 where "h2 = (if past p (size_of h1 p) = bp then set_ptr p (ptr_of h1 bp) (set_size p (size_of h1 p + size_of h1 bp) h1)
                         else set_ptr p bp h1)\<lparr>freep := p\<rparr>"
  have "chain (ptr_of h) ?B ys c" using ok by (cases zs) (auto simp: heap_ok_def xs c_def)
  then have pc: "ptr_of h p = c" using chain_last p_def by blast
  have find': "loop_res (free_find h bp) (freep h) = Ok p" using find by (simp only: p_def)
  have "free_u (bp + 16) h = Ok h2"
    unfolding free_u_def Let_def add_diff_cancel_right' find' bnd.simps pc heap_simps h1_def [symmetric] h2_def ..
  moreover obtain zs' where a: "linking h1 hi ys bp zs'" "free_bytes h1 (ys @ bp # zs') = free_bytes h xs \<union> block_at bp (units h bp)"
    "units h bp \<le> units h1 bp" using absorb [OF ok [unfolded xs] bp c_def low high h1_def] by (auto simp: xs)
  moreover have B: "um_base h1 = ?B" by (simp add: h1_def)
  moreover obtain xs' where "heap_ok h2 hi xs'" "free_bytes h2 xs' = free_bytes h1 (ys @ bp # zs')" "um_base h2 = um_base h1"
    "\<forall>a. a \<noteq> p \<longrightarrow> hdr h2 a = hdr h1 a" and x: "\<exists>x\<in>set xs'. block_at bp (units h1 bp) \<subseteq> block_at x (units h2 x)" using link_in [OF a(1) _ h2_def] p_def B by auto
  moreover have "\<exists>x\<in>set xs'. units h bp \<le> units h2 x"
  proof -
    from x obtain y where "y \<in> set xs'" "block_at bp (units h1 bp) \<subseteq> block_at y (units h2 y)" by blast
    then show ?thesis using block_at_le [of bp "units h1 bp" y "units h2 y"] a(3) by (intro bexI [of _ y]) auto
  qed
  moreover have "p \<in> set (?B # xs)" using last_in_set [of "?B # ys"] by (auto simp: p_def xs)
  moreover have "hdr h1 a = hdr h a" if "a \<noteq> bp" for a using that by (simp add: h1_def set_ptr_def set_size_def)
  moreover have "\<forall>a. a \<notin> insert bp (set (?B # xs)) \<longrightarrow> hdr h2 a = hdr h a" using calculation by (metis insertCI)
  ultimately show ?thesis by (intro exI [of _ h2] exI [of _ xs']) simp
qed

section \<open>Allocating\<close>

lemma chain_map: "chain nx a xs c \<longleftrightarrow> map nx (a # xs) = xs @ [c]"
  by (induction xs arbitrary: a) auto

lemma chain_rotate:
  assumes "chain nx a xs a" "p \<in> set (a # xs)" "distinct (a # xs)"
  shows "\<exists>rs. chain nx p rs p \<and> set (p # rs) = set (a # xs) \<and> distinct (p # rs)"
proof -
  obtain us vs where uv: "a # xs = us @ p # vs" "chain nx p vs a" using chain_from [OF assms(1,2)] by blast
  show ?thesis
  proof (cases us)
    case Nil
    with uv assms show ?thesis by (intro exI [of _ vs]) simp
  next
    case (Cons u us')
    then have "chain nx a us' p" "u = a" using uv assms by auto
    with uv have "chain nx p (vs @ a # us') p" by simp
    moreover have "set (p # vs @ a # us') = set (a # xs)" "distinct (p # vs @ a # us')" using uv Cons assms(3) by auto
    ultimately show ?thesis by blast
  qed
qed

text \<open>The loop passes the blocks that are too small.\<close>

lemma malloc_skips:
  assumes "chain (ptr_of h) prevp qs t" "\<forall>q\<in>set qs. size_of h q < n" "freep h \<notin> set qs"
  shows "uloop (malloc_step S n) (prevp, ptr_of h prevp, h) = uloop (malloc_step S n) (last (prevp # qs), t, h)"
  using assms
proof (induction qs arbitrary: prevp)
  case (Cons q qs)
  then have "malloc_step S n (prevp, ptr_of h prevp, h) = uret (Next (q, ptr_of h q, h))" by (auto simp: malloc_step_def)
  then have "uloop (malloc_step S n) (prevp, ptr_of h prevp, h) = uloop (malloc_step S n) (q, ptr_of h q, h)"
    by (subst uloop_unfold) simp
  with Cons show ?case by simp
qed simp

definition take_block :: "u32 \<Rightarrow> u64 \<Rightarrow> u64 \<Rightarrow> uheap \<Rightarrow> u64 \<times> uheap" where
  "take_block n prevp p h =
     (if size_of h p = n then (p, set_ptr prevp (ptr_of h p) h\<lparr>freep := prevp\<rparr>)
      else (past p (size_of h p - n),
            set_size (past p (size_of h p - n)) n (set_size p (size_of h p - n) h)\<lparr>freep := prevp\<rparr>))"

lemma malloc_takes:
  assumes "n \<le> size_of h p" "take_block n prevp p h = (q, h')"
  shows "uloop (malloc_step S n) (prevp, p, h) = uret (q + 16, h')"
  using assms by (subst uloop_unfold) (auto simp: malloc_step_def take_block_def Let_def split: if_splits)

lemma malloc_search:
  assumes ok: "heap_ok h hi xs" and fit: "\<exists>x\<in>set xs. n \<le> size_of h x" and n: "1 \<le> unat n"
  shows "\<exists>prevp p q h'. uloop (malloc_step S n) (freep h, ptr_of h (freep h), h) = uret (q + 16, h')
    \<and> p \<in> set xs \<and> n \<le> size_of h p \<and> prevp \<in> set (um_base h # xs) \<and> ptr_of h prevp = p \<and> take_block n prevp p h = (q, h')"
proof -
  let ?B = "um_base h" and ?f = "freep h"
  have "chain (ptr_of h) ?B xs ?B" "?f \<in> set (?B # xs)" using ok by (auto simp: heap_ok_def)
  from chain_rotate [OF this heap_sorted(2) [OF ok]]
  obtain rs where r: "chain (ptr_of h) ?f rs ?f" and st: "set (?f # rs) = set (?B # xs)" and ds: "distinct (?f # rs)" by blast
  have "\<exists>x\<in>set (rs @ [?f]). n \<le> size_of h x" using fit st by auto
  then obtain qs p ts where q: "rs @ [?f] = qs @ p # ts" "n \<le> size_of h p" "\<forall>q\<in>set qs. \<not> n \<le> size_of h q"
    using split_list_first_prop [of "rs @ [?f]" "\<lambda>x. n \<le> size_of h x"] by metis
  have "?f \<notin> set qs" "chain (ptr_of h) ?f qs p" "set qs \<subseteq> set rs" "p \<in> set (?f # rs)"
    using q(1) ds r by (cases ts rule: rev_cases; auto)+
  then have skip: "uloop (malloc_step S n) (?f, ptr_of h ?f, h) = uloop (malloc_step S n) (last (?f # qs), p, h)"
    and prev: "ptr_of h (last (?f # qs)) = p" and sub: "set (?f # qs) \<subseteq> set (?B # xs)"
    using malloc_skips [of h ?f qs p n S] q(3) chain_last [of "ptr_of h" ?f qs p] st by (auto simp: not_le)
  have "last (?f # qs) \<in> set (?B # xs)" using sub last_in_set [of "?f # qs"] by blast
  have "p \<noteq> ?B" using q(2) n ok by (auto simp: heap_ok_def word_le_nat_alt)
  with \<open>p \<in> set (?f # rs)\<close> st have "p \<in> set xs" by auto
  obtain q' h' where "take_block n (last (?f # qs)) p h = (q', h')" by (meson surj_pair)
  with \<open>last (?f # qs) \<in> set (?B # xs)\<close> skip prev \<open>p \<in> set xs\<close> q(2) malloc_takes [OF q(2) this, of S] show ?thesis by metis
qed

lemma ring_pred:
  assumes ok: "heap_ok h hi (as @ p # bs)" and pr: "prevp \<in> set (um_base h # as @ p # bs)" "ptr_of h prevp = p"
  shows "prevp = last (um_base h # as)"
proof -
  let ?B = "um_base h"
  have ch: "chain (ptr_of h) ?B (as @ p # bs) ?B" using ok by (simp add: heap_ok_def)
  then have "map (ptr_of h) (?B # as @ p # bs) = (as @ p # bs) @ [?B]" unfolding chain_map .
  moreover have "distinct ((as @ p # bs) @ [?B])" using heap_sorted(2) [OF ok] by auto
  ultimately have "inj_on (ptr_of h) (set (?B # as @ p # bs))" by (metis distinct_map)
  moreover have "ptr_of h (last (?B # as)) = p" using ch chain_last [of "ptr_of h" ?B as p] by simp
  moreover have "last (?B # as) \<in> set (?B # as @ p # bs)" using last_in_set [of "?B # as"] by auto
  ultimately show ?thesis using pr by (metis inj_onD)
qed

lemma blocks_apart:
  assumes "sorted_wrt (before h) (as @ p # bs)"
  shows "block_at p (units h p) \<inter> free_bytes h (as @ bs) = {}"
  using assms by (auto simp: sorted_wrt_append before_def free_bytes_def block_at_def)

lemma take_exact:
  assumes ok: "heap_ok h hi (as @ p # bs)" and q: "prevp = last (um_base h # as)"
  shows "heap_ok (set_ptr prevp (ptr_of h p) h\<lparr>freep := prevp\<rparr>) hi (as @ bs)"
proof -
  let ?B = "um_base h" and ?h = "set_ptr prevp (ptr_of h p) h\<lparr>freep := prevp\<rparr>"
  have ch: "chain (ptr_of h) ?B as p" "chain (ptr_of h) p bs ?B" using ok by (auto simp: heap_ok_def)
  have d: "distinct (?B # as @ p # bs)" using heap_sorted(2) [OF ok] .
  have pin: "prevp \<in> set (?B # as)" unfolding q by (rule last_in_set) simp
  have pre: "chain ((ptr_of h)(prevp := ptr_of h p)) ?B as (ptr_of h p)" using chain_relink [OF ch(1)] d unfolding q by auto
  have "chain (ptr_of ?h) ?B (as @ bs) ?B"
  proof (cases bs)
    case (Cons b bs')
    then have "ptr_of h p = b" "chain (ptr_of h) b bs' ?B" using ch by auto
    moreover have "prevp \<notin> set (b # bs')" using pin d Cons by auto
    ultimately show ?thesis using pre Cons by (simp add: chain_upd)
  qed (use pre ch in simp)
  moreover have "before ?h = before h" "within ?h = within h" by (auto simp: before_def within_def fun_eq_iff)
  moreover have "sorted_wrt (before h) (as @ bs)" using ok by (auto simp: heap_ok_def sorted_wrt_append)
  ultimately show ?thesis using ok pin by (auto simp: heap_ok_def)
qed

lemma take_split:
  assumes ok: "heap_ok h hi (as @ p # bs)" and q: "prevp \<in> set (um_base h # as @ p # bs)" and n: "n < size_of h p" "1 \<le> unat n"
    and r: "r = past p (size_of h p - n)" and h': "h' = set_size r n (set_size p (size_of h p - n) h)\<lparr>freep := prevp\<rparr>"
  shows "heap_ok h' hi (as @ p # bs)" "unat r = unat p + 16 * (units h p - unat n)" "units h' p = units h p - unat n"
    "r \<notin> set (um_base h # as @ p # bs)"
proof -
  let ?B = "um_base h"
  have w: "\<forall>x\<in>set (as @ p # bs). within h hi x" and s: "sorted_wrt (before h) (as @ p # bs)" and hi: "hi \<le> 2 ^ 36"
    using ok by (auto simp: heap_ok_def)
  have wp: "within h hi p" using w by simp
  have u: "unat (size_of h p - n) = units h p - unat n" using n(1) by (simp add: unat_sub word_less_nat_alt word_le_nat_alt)
  show ur: "unat r = unat p + 16 * (units h p - unat n)" using unat_past [of p "size_of h p - n"] wp hi u r by (auto simp: within_def)
  have nn: "unat n < units h p" using n(1) by (simp add: word_less_nat_alt)
  have "r \<noteq> x" if "x \<in> set as" for x
  proof -
    have "before h x p" "within h hi x" using s that w by (auto simp: sorted_wrt_append)
    then show ?thesis using ur by (auto simp: before_def within_def)
  qed
  moreover have "r \<noteq> x" if "x \<in> set bs" for x
  proof -
    have "before h p x" using s that by (auto simp: sorted_wrt_append)
    then show ?thesis using ur n(2) nn by (auto simp: before_def)
  qed
  moreover have "r \<noteq> p" using ur nn by auto
  moreover have "r \<noteq> ?B" using ur wp by (auto simp: within_def)
  ultimately show nin: "r \<notin> set (?B # as @ p # bs)" by auto
  then have sz: "units h' x = (if x = p then units h p - unat n else units h x)" if "x \<in> set (?B # as @ p # bs)" for x
    using that u by (auto simp: h')
  then show "units h' p = units h p - unat n" by simp
  have "before h' x y" if "x \<in> set (as @ p # bs)" "before h x y" for x y using that sz [of x] by (auto simp: before_def)
  then have "sorted_wrt (before h') (as @ p # bs)" using sorted_wrt_mono_rel [OF _ s] by blast
  moreover have "within h' hi x" if "x \<in> set (as @ p # bs)" for x
  proof -
    have "within h hi x" using that w by blast
    then show ?thesis using sz [of x] that nn unfolding within_def by (auto simp: h')
  qed
  moreover have "size_of h' ?B = 0" using nin wp ok within_above [OF wp] by (auto simp: h' heap_ok_def)
  moreover have "ptr_of h' = ptr_of h" "um_base h' = um_base h" "freep h' = prevp" by (simp_all add: h')
  ultimately show "heap_ok h' hi (as @ p # bs)" using ok q by (simp add: heap_ok_def)
qed

lemma take_block_spec:
  assumes ok: "heap_ok h hi xs" and p: "p \<in> set xs" and n: "n \<le> size_of h p" "1 \<le> unat n"
    and pr: "prevp \<in> set (um_base h # xs)" "ptr_of h prevp = p" and t: "take_block n prevp p h = (q, h')"
  shows "\<exists>xs'. heap_ok h' hi xs' \<and> free_bytes h' xs' \<union> block_at q (unat n) = free_bytes h xs
    \<and> free_bytes h' xs' \<inter> block_at q (unat n) = {} \<and> size_of h' q = n \<and> within h' hi q \<and> um_base h' = um_base h
    \<and> (\<forall>a. a \<notin> insert q (set (um_base h # xs)) \<longrightarrow> hdr h' a = hdr h a)"
proof -
  obtain as bs where xs: "xs = as @ p # bs" using p by (metis split_list)
  have s: "sorted_wrt (before h) (as @ p # bs)" and wp: "within h hi p" and w: "\<forall>x\<in>set xs. within h hi x" using ok p by (auto simp: heap_ok_def xs)
  have ap: "block_at p (units h p) \<inter> free_bytes h (as @ bs) = {}" using blocks_apart [OF s] .
  have fb: "free_bytes h xs = free_bytes h (as @ bs) \<union> block_at p (units h p)" by (auto simp: xs free_bytes_def)
  show ?thesis
  proof (cases "size_of h p = n")
    case True
    then have h': "q = p" "h' = set_ptr prevp (ptr_of h p) h\<lparr>freep := prevp\<rparr>" using t by (auto simp: take_block_def)
    have last: "prevp = last (um_base h # as)" using ring_pred [OF ok [unfolded xs] pr [unfolded xs]] .
    have "free_bytes h' (as @ bs) = free_bytes h (as @ bs)" by (simp add: free_bytes_def h')
    moreover have "hdr h' a = hdr h a" if "a \<notin> insert q (set (um_base h # xs))" for a
      using that pr(1) by (auto simp: h' set_ptr_def)
    moreover have "heap_ok h' hi (as @ bs)" using take_exact [OF ok [unfolded xs] last] h'(2) by simp
    ultimately show ?thesis using ap fb True wp pr(1)
      by (intro exI [of _ "as @ bs"]) (auto simp: h' within_def)
  next
    case False
    then have h': "q = past p (size_of h p - n)" "h' = set_size q n (set_size p (size_of h p - n) h)\<lparr>freep := prevp\<rparr>"
      using t by (auto simp: take_block_def)
    have lt: "n < size_of h p" using False n(1) by simp
    note sp = take_split [OF ok [unfolded xs] pr(1) [unfolded xs] lt n(2) h']
    have sz: "units h' x = units h x" if "x \<in> set (as @ bs)" for x
      using that sp(4) heap_sorted(2) [OF ok] xs by (auto simp: h'(2))
    have nn: "unat n < units h p" using lt by (simp add: word_less_nat_alt)
    have "block_at p (units h p) = block_at p (units h p - unat n) \<union> block_at q (unat n)"
      using block_at_merge [of p "units h p - unat n" q "unat n"] sp(2) nn by simp
    moreover have "block_at p (units h p - unat n) \<inter> block_at q (unat n) = {}" using sp(2) by (auto simp: block_at_def)
    moreover have "free_bytes h' xs = free_bytes h (as @ bs) \<union> block_at p (units h p - unat n)"
      using sz sp(3) by (auto simp: xs free_bytes_def)
    ultimately have "free_bytes h' xs \<union> block_at q (unat n) = free_bytes h xs" "free_bytes h' xs \<inter> block_at q (unat n) = {}"
      using fb ap by blast+
    moreover have "size_of h' q = n" by (simp add: h'(2))
    moreover have "within h' hi q" using wp sp(2) nn n(2) by (auto simp: within_def h'(2))
    moreover have "hdr h' a = hdr h a" if "a \<notin> insert q (set (um_base h # xs))" for a using that p by (auto simp: h'(2) set_size_def)
    ultimately show ?thesis using sp(1) by (intro exI [of _ xs]) (auto simp: xs h'(2))
  qed
qed

lemma unat_units_for: "unat (units_for nbytes) = (unat nbytes + 15) div 16 + 1"
proof -
  have b: "unat nbytes < 2 ^ 32" using unsigned_less [of nbytes] by simp
  have "unat (ucast nbytes + 15 :: u64) = unat nbytes + 15" using b by (simp add: unat_word_ariths unat_ucast_u32)
  then have "unat ((ucast nbytes + 15) div 16 + 1 :: u64) = (unat nbytes + 15) div 16 + 1"
    using b by (simp add: unat_word_ariths unat_div)
  then show ?thesis using b by (simp add: units_for_def unsigned_ucast_eq take_bit_eq_mod)
qed

lemma units_for_room: "unat nbytes \<le> 16 * (unat (units_for nbytes) - 1)" "1 \<le> unat (units_for nbytes)"
  by (simp_all add: unat_units_for)

text \<open>What allocating \<open>n\<close> units at \<open>q\<close> out of the bytes \<open>A\<close> means.\<close>

definition takes_block :: "uheap \<Rightarrow> nat \<Rightarrow> nat set \<Rightarrow> u32 \<Rightarrow> u64 \<Rightarrow> uheap \<Rightarrow> bool" where
  "takes_block h hi A n q h' \<longleftrightarrow> (\<exists>xs'. heap_ok h' hi xs' \<and> free_bytes h' xs' \<union> block_at q (unat n) = A
     \<and> free_bytes h' xs' \<inter> block_at q (unat n) = {}) \<and> size_of h' q = n \<and> within h' hi q \<and> um_base h' = um_base h
     \<and> (\<forall>a. unat a \<notin> A \<and> a \<noteq> um_base h \<longrightarrow> hdr h' a = hdr h a)"

lemma block_head: "1 \<le> n \<Longrightarrow> unat a \<in> block_at a n"
  by (simp add: block_at_def)

lemma free_heads: "heap_ok h hi xs \<Longrightarrow> x \<in> set xs \<Longrightarrow> unat x \<in> free_bytes h xs"
  using block_head by (fastforce simp: heap_ok_def within_def free_bytes_def)

lemma malloc_finds:
  assumes ok: "heap_ok h hi xs" and fit: "\<exists>x\<in>set xs. n \<le> size_of h x" and n: "1 \<le> unat n"
  shows "\<exists>q h'. uloop (malloc_step S n) (freep h, ptr_of h (freep h), h) = uret (q + 16, h') \<and> takes_block h hi (free_bytes h xs) n q h'"
proof -
  obtain prevp p q h' where m: "uloop (malloc_step S n) (freep h, ptr_of h (freep h), h) = uret (q + 16, h')"
    "p \<in> set xs" "n \<le> size_of h p" "prevp \<in> set (um_base h # xs)" "ptr_of h prevp = p" "take_block n prevp p h = (q, h')"
    using malloc_search [OF assms] by blast
  from take_block_spec [OF ok m(2,3) n m(4,5,6)] obtain xs' where x: "heap_ok h' hi xs'"
    "free_bytes h' xs' \<union> block_at q (unat n) = free_bytes h xs" "free_bytes h' xs' \<inter> block_at q (unat n) = {}"
    "size_of h' q = n" "within h' hi q" "um_base h' = um_base h" "\<forall>a. a \<notin> insert q (set (um_base h # xs)) \<longrightarrow> hdr h' a = hdr h a"
    by blast
  have "unat a \<in> free_bytes h xs" if "a \<in> insert q (set xs)" for a
    using that free_heads [OF ok] block_head [OF n, of q] x(2) by auto
  then have "\<forall>a. unat a \<notin> free_bytes h xs \<and> a \<noteq> um_base h \<longrightarrow> hdr h' a = hdr h a" using x(7) by auto
  with x m(1) show ?thesis unfolding takes_block_def by blast
qed

text \<open>
  C30: Where a free block is big enough, \<^verbatim>\<open>malloc\<close> ends without a system call and gives the address behind the header of
  a block with room for the bytes asked for; the bytes of the block were free and no longer are, every other free byte
  stays free, the list stays well formed, and no header outside the free memory changes.
\<close>

theorem malloc_takes_free:
  assumes ok: "heap_ok h hi xs" and fit: "\<exists>x\<in>set xs. units_for nbytes \<le> size_of h x"
  shows "\<exists>q h'. malloc_u S nbytes h k = Ok (Val (q + 16, h'), k) \<and> takes_block h hi (free_bytes h xs) (units_for nbytes) q h'
    \<and> unat nbytes \<le> 16 * (unat (units_for nbytes) - 1)"
proof -
  have "freep h \<noteq> 0" using ok heap_sorted(1) [OF ok] by (auto simp: heap_ok_def)
  then have "malloc_u S nbytes h = uloop (malloc_step S (units_for nbytes)) (freep h, ptr_of h (freep h), h)"
    by (simp add: malloc_u_def)
  with malloc_finds [OF ok fit units_for_room(2), of S] units_for_room(1) show ?thesis by (auto simp: uret_def)
qed

text \<open>The state of the allocator before its first use and afterwards.\<close>

definition initialised :: "uheap \<Rightarrow> uheap" where
  "initialised h = (if freep h = 0 then set_size (um_base h) 0 (set_ptr (um_base h) (um_base h) (h\<lparr>freep := um_base h\<rparr>)) else h)"

definition heap_state :: "uheap \<Rightarrow> nat \<Rightarrow> u64 list \<Rightarrow> bool" where
  "heap_state h hi xs \<longleftrightarrow> um_base h \<noteq> 0 \<and> unat (um_base h) + 16 \<le> hi \<and> hi \<le> 2 ^ 36 \<and> (if freep h = 0 then xs = [] else heap_ok h hi xs)"

lemma initialised_ok: "heap_state h hi xs \<Longrightarrow> heap_ok (initialised h) hi xs \<and> um_base (initialised h) = um_base h"
  by (auto simp: heap_state_def initialised_def heap_ok_def split: if_splits)

lemma malloc_initialised: "heap_state h hi xs \<Longrightarrow> malloc_u S nbytes h =
    uloop (malloc_step S (units_for nbytes)) (freep (initialised h), ptr_of (initialised h) (freep (initialised h)), initialised h)"
  by (simp add: malloc_u_def initialised_def Let_def)

lemma heap_extend:
  assumes "heap_ok h hi xs" "unat (um_base h) + 16 \<le> hi" "hi \<le> unat hp" "hi \<le> hi'" "hi' \<le> 2 ^ 36"
  shows "heap_ok (set_size hp nu h) hi' xs" "free_bytes (set_size hp nu h) xs = free_bytes h xs" "hp \<notin> set (um_base h # xs)"
    "\<forall>b\<in>free_bytes h xs. b < hi"
proof -
  have w: "\<forall>x\<in>set xs. within h hi x" using assms(1) by (simp add: heap_ok_def)
  have "x \<noteq> hp" if "x \<in> set xs" for x using w that assms(3) by (fastforce simp: within_def)
  then show nin: "hp \<notin> set (um_base h # xs)" using assms(2,3) by auto
  then have sz: "size_of (set_size hp nu h) x = size_of h x" if "x \<in> set (um_base h # xs)" for x using that by auto
  have so: "sorted_wrt (before h) xs" using assms(1) by (simp add: heap_ok_def)
  have "before (set_size hp nu h) x y" if "x \<in> set xs" "before h x y" for x y using that sz [of x] by (simp add: before_def)
  with sorted_wrt_mono_rel [OF _ so] have "sorted_wrt (before (set_size hp nu h)) xs" by blast
  moreover have "within (set_size hp nu h) hi' x" if "x \<in> set xs" for x
  proof -
    have "within h hi x" using w that by blast
    then show ?thesis using sz [of x] that assms(4) unfolding within_def by auto
  qed
  ultimately show "heap_ok (set_size hp nu h) hi' xs" using assms(1,5) sz by (auto simp: heap_ok_def)
  show "free_bytes (set_size hp nu h) xs = free_bytes h xs" using sz by (auto simp: free_bytes_def)
  show "\<forall>b\<in>free_bytes h xs. b < hi"
  proof
    fix b assume "b \<in> free_bytes h xs"
    then obtain x where "x \<in> set xs" "b \<in> block_at x (units h x)" by (auto simp: free_bytes_def)
    with w show "b < hi" by (auto simp: block_at_def within_def)
  qed
qed

lemma morecore_adds:
  assumes st: "heap_ok h hi xs" "unat (um_base h) + 16 \<le> hi" and nu: "nu = max 4096 n" "16 * unat nu < 2 ^ 31"
    and sb: "sbrk_u S (16 * int (unat nu)) k = Ok (Val hp, k')" and hp: "hi \<le> unat hp" "unat hp + 16 * unat nu \<le> hi'" "hi' \<le> 2 ^ 36"
  shows "\<exists>h' xs'. morecore S n h k = Ok (Val (freep h', h'), k') \<and> heap_ok h' hi' xs' \<and> um_base h' = um_base h
    \<and> free_bytes h' xs' = free_bytes h xs \<union> block_at hp (unat nu) \<and> (\<exists>x\<in>set xs'. nu \<le> size_of h' x)
    \<and> (\<forall>a. a \<notin> insert hp (set (um_base h # xs)) \<longrightarrow> hdr h' a = hdr h a)"
proof -
  have nu': "nu = (if n < 4096 then 4096 else n)" using nu(1) by (auto simp: max_def)
  have "sint (nu * 16) = 16 * int (unat nu)"
  proof -
    have "unat (nu * 16) = 16 * unat nu" using nu(2) by (simp add: unat_word_ariths)
    with nu(2) have "uint (nu * 16) = 16 * int (unat nu)" "uint (nu * 16) < 2 ^ 31" by (simp_all add: uint_nat del: of_nat_unat)
    moreover have "signed_take_bit 31 x = x" if "0 \<le> x" "x < 2 ^ 31" for x :: int using that by (intro signed_take_bit_int_eq_self) auto
    ultimately show ?thesis by (simp add: sint_uint)
  qed
  moreover have "hp \<noteq> SBRK_ERROR"
  proof -
    have "unat SBRK_ERROR = 2 ^ 64 - 1" by (simp add: SBRK_ERROR_def unsigned_minus_1_eq_mask mask_eq_exp_minus_1)
    with hp show ?thesis by auto
  qed
  ultimately have m: "morecore S n h k = bnd (free_u (hp + 16) (set_size hp nu h)) (\<lambda>h. uret (freep h, h) k')"
    using sb by (simp add: morecore_def ubnd_def nu' [symmetric] Let_def)
  have le: "hi \<le> hi'" using hp by simp
  note e = heap_extend [OF st hp(1) le hp(3)]
  have "4096 \<le> nu" using nu(1) by simp
  then have "1 \<le> unat nu" by (simp add: word_le_nat_alt)
  then have "within (set_size hp nu h) hi' hp" using hp st(2) by (simp add: within_def)
  moreover have "block_at hp (unat nu) \<inter> free_bytes h xs = {}" using e(4) hp(1) by (fastforce simp: block_at_def)
  ultimately obtain h' xs' where f: "free_u (hp + 16) (set_size hp nu h) = Ok h'" "heap_ok h' hi' xs'"
    "free_bytes h' xs' = free_bytes h xs \<union> block_at hp (unat nu)" "um_base h' = um_base h"
    "\<forall>a. a \<notin> insert hp (set (um_base h # xs)) \<longrightarrow> hdr h' a = hdr (set_size hp nu h) a" "\<exists>x\<in>set xs'. unat nu \<le> units h' x"
    using free_spec [OF e(1) [of nu], of hp] e(2) [of nu] by auto
  moreover have "hdr (set_size hp nu h) a = hdr h a" if "a \<noteq> hp" for a using that by (simp add: set_size_def)
  ultimately show ?thesis using m by (intro exI [of _ h'] exI [of _ xs']) (auto simp: uret_def word_le_nat_alt)
qed

lemma malloc_exhausts:
  assumes ok: "heap_ok h hi xs" and none: "\<forall>x\<in>set xs. size_of h x < n" and n: "1 \<le> unat n"
  shows "uloop (malloc_step S n) (freep h, ptr_of h (freep h), h) =
    ubnd (morecore S n h) (\<lambda>(p, h). if p = 0 then uret (0, h) else uloop (malloc_step S n) (p, ptr_of h p, h))"
proof -
  let ?B = "um_base h" and ?f = "freep h"
  have "chain (ptr_of h) ?B xs ?B" "?f \<in> set (?B # xs)" using ok by (auto simp: heap_ok_def)
  from chain_rotate [OF this heap_sorted(2) [OF ok]]
  obtain rs where r: "chain (ptr_of h) ?f rs ?f" and st: "set (?f # rs) = set (?B # xs)" and ds: "distinct (?f # rs)" by blast
  have "size_of h ?B < n" using n ok by (simp add: heap_ok_def word_less_nat_alt)
  with none have "\<forall>x\<in>set (?B # xs). size_of h x < n" by simp
  then have small: "size_of h x < n" if "x \<in> set (?f # rs)" for x using that unfolding st by blast
  then have "uloop (malloc_step S n) (?f, ptr_of h ?f, h) = uloop (malloc_step S n) (last (?f # rs), ?f, h)"
    using r ds by (intro malloc_skips) auto
  moreover have "malloc_step S n (last (?f # rs), ?f, h) = ubnd (morecore S n h) (\<lambda>(p, h).
      if p = 0 then uret (Done (0, h)) else uret (Next (p, ptr_of h p, h)))"
  proof -
    have "\<not> n \<le> size_of h ?f" using small [of ?f] by (simp add: not_le)
    then show ?thesis by (simp add: malloc_step_def)
  qed
  moreover have "ubnd (case x of (p, h) \<Rightarrow> if p = 0 then uret (Done (0, h)) else uret (Next (p, ptr_of h p, h)))
        (\<lambda>c. case c of Done r \<Rightarrow> uret r | Next s \<Rightarrow> uloop (malloc_step S n) s) =
      (case x of (p, h) \<Rightarrow> if p = 0 then uret (0, h) else uloop (malloc_step S n) (p, ptr_of h p, h))" for x
    by (cases x) auto
  ultimately show ?thesis using uloop_unfold [of "malloc_step S n" "(last (?f # rs), ?f, h)"] by simp
qed

text \<open>
  C31: Where no free block is big enough, or the allocator has not been used before, and \<^verbatim>\<open>sbrk\<close> gives memory above the
  heap, \<^verbatim>\<open>malloc\<close> takes its block out of the free bytes and the new ones together.
\<close>

theorem malloc_grows:
  assumes st: "heap_state h hi xs" and none: "\<forall>x\<in>set xs. size_of h x < units_for nbytes"
    and nu: "nu = max 4096 (units_for nbytes)" "16 * unat nu < 2 ^ 31"
    and sb: "sbrk_u S (16 * int (unat nu)) k = Ok (Val hp, k')" and hp: "hi \<le> unat hp" "unat hp + 16 * unat nu \<le> hi'" "hi' \<le> 2 ^ 36"
  shows "\<exists>q h'. malloc_u S nbytes h k = Ok (Val (q + 16, h'), k')
    \<and> takes_block h hi' (free_bytes h xs \<union> block_at hp (unat nu)) (units_for nbytes) q h'"
proof -
  let ?n = "units_for nbytes" and ?h = "initialised h"
  have ok: "heap_ok ?h hi xs" and B: "um_base ?h = um_base h" "unat (um_base ?h) + 16 \<le> hi" and n: "1 \<le> unat ?n"
    using initialised_ok [OF st] st units_for_room by (auto simp: heap_state_def)
  have sz: "size_of ?h x = size_of h x" if "x \<in> set xs" for x using that st by (auto simp: heap_state_def initialised_def split: if_splits)
  then have none': "\<forall>x\<in>set xs. size_of ?h x < ?n" and fb: "free_bytes ?h xs = free_bytes h xs" using none by (auto simp: free_bytes_def)
  from morecore_adds [OF ok B(2) nu sb hp] obtain h1 xs1 where m: "morecore S ?n ?h k = Ok (Val (freep h1, h1), k')" "heap_ok h1 hi' xs1"
    "um_base h1 = um_base h" "free_bytes h1 xs1 = free_bytes h xs \<union> block_at hp (unat nu)" "\<exists>x\<in>set xs1. nu \<le> size_of h1 x"
    "\<forall>a. a \<notin> insert hp (set (um_base h # xs)) \<longrightarrow> hdr h1 a = hdr ?h a" unfolding B(1) fb by blast
  have "?n \<le> nu" using nu(1) by simp
  then have "\<exists>x\<in>set xs1. ?n \<le> size_of h1 x" using m(5) by (meson order_trans)
  from malloc_finds [OF m(2) this n, of S] obtain q h' where f:
    "uloop (malloc_step S ?n) (freep h1, ptr_of h1 (freep h1), h1) = uret (q + 16, h')" "takes_block h1 hi' (free_bytes h1 xs1) ?n q h'" by blast
  have "freep h1 \<noteq> 0" using m(2) heap_sorted(1) [OF m(2)] by (auto simp: heap_ok_def)
  then have "malloc_u S nbytes h k = Ok (Val (q + 16, h'), k')"
    unfolding malloc_initialised [OF st] malloc_exhausts [OF ok none' n] using m(1) f(1) by (simp add: ubnd_def uret_def)
  moreover have "hdr h1 a = hdr h a" if "unat a \<notin> free_bytes h1 xs1" "a \<noteq> um_base h" for a
  proof -
    have "4096 \<le> nu" using nu(1) by simp
    then have "1 \<le> unat nu" by (simp add: word_le_nat_alt)
    then have "a \<notin> insert hp (set (um_base h # xs))"
      using that m(4) block_head [of "unat nu" hp] free_heads [OF ok] fb by auto
    then have "hdr h1 a = hdr ?h a" using m(6) by blast
    then show ?thesis using that(2) by (simp add: initialised_def set_ptr_def set_size_def)
  qed
  ultimately show ?thesis using f(2) m(3,4) unfolding takes_block_def by metis
qed

text \<open>
  C32: \<^verbatim>\<open>free\<close> ends and makes exactly the bytes of the block free in addition, whether or not it is merged with its
  neighbours; the list stays well formed and no header outside the free memory changes.
\<close>

theorem free_returns:
  assumes ok: "heap_ok h hi xs" and bp: "within h hi bp" and dis: "block_at bp (units h bp) \<inter> free_bytes h xs = {}"
  shows "\<exists>h' xs'. free_u (bp + 16) h = Ok h' \<and> heap_ok h' hi xs' \<and> free_bytes h' xs' = free_bytes h xs \<union> block_at bp (units h bp)
    \<and> (\<forall>a. unat a \<notin> free_bytes h' xs' \<and> a \<noteq> um_base h \<longrightarrow> hdr h' a = hdr h a)"
proof -
  obtain h' xs' where f: "free_u (bp + 16) h = Ok h'" "heap_ok h' hi xs'" "free_bytes h' xs' = free_bytes h xs \<union> block_at bp (units h bp)"
    "\<forall>a. a \<notin> insert bp (set (um_base h # xs)) \<longrightarrow> hdr h' a = hdr h a" using free_spec [OF assms] by blast
  have "unat a \<in> free_bytes h' xs'" if "a \<in> insert bp (set xs)" for a
    using that f(3) free_heads [OF ok] block_head [of "units h bp" bp] bp by (auto simp: within_def)
  then have "\<forall>a. unat a \<notin> free_bytes h' xs' \<and> a \<noteq> um_base h \<longrightarrow> hdr h' a = hdr h a" using f(4) by auto
  with f show ?thesis by blast
qed

text \<open>A request of 4294967280 bytes asks the kernel for no memory at all.\<close>

lemma morecore_wraps: "morecore S (units_for 4294967280) h = ubnd (sbrk_u S 0) (\<lambda>hp.
    if hp = SBRK_ERROR then uret (0, h)
    else (\<lambda>k. bnd (free_u (hp + 16) (set_size hp 268435456 h)) (\<lambda>h. uret (freep h, h) k)))"
proof -
  have "units_for 4294967280 = 268435456" by code_simp
  then show ?thesis by (simp add: morecore_def)
qed

text \<open>A system whose break is an address; a heap before its first use, one with a free block of ten units, and one with two around a block of three.\<close>

definition brk_sys :: "u64 sys" where
  "brk_sys = \<lparr>
     s_fork = uret (-1), s_wait = uret (-1, 0), s_pipe = uret (-1, 0, 0),
     s_write = (\<lambda>_ _. uret (-1)), s_read = (\<lambda>_ _. uret (0, [])), s_close = (\<lambda>_. uret 0), s_kill = (\<lambda>_. uret (-1)),
     s_exec = (\<lambda>_ _. uret (-1)), s_open = (\<lambda>_ _. uret (-1)), s_mknod = (\<lambda>_ _ _. uret (-1)),
     s_unlink = (\<lambda>_. uret (-1)), s_fstat = (\<lambda>_. uret (-1, \<lparr>st_dev = 0, st_ino = 0, st_type = 0, st_nlink = 0, st_size = 0\<rparr>)),
     s_link = (\<lambda>_ _. uret (-1)), s_mkdir = (\<lambda>_. uret (-1)), s_chdir = (\<lambda>_. uret (-1)), s_dup = (\<lambda>_. uret (-1)),
     s_getpid = uret 1, s_sbrk = (\<lambda>n _ b. Ok (Val b, b + word_of_int n)), s_pause = (\<lambda>_. uret 0), s_uptime = uret 0,
     s_kqueue_wait = uret (-1, \<lparr>ev_pid = 0, ev_name = [], ev_pad = [], ev_timestamp = 0\<rparr>),
     s_kqueue_post = (\<lambda>_ _. uret 0)\<rparr>"

definition heap_new :: uheap where
  "heap_new = \<lparr>hdr = (\<lambda>_. \<lparr>h_ptr = 0, h_size = 0\<rparr>), freep = 0, um_base = 4096\<rparr>"

definition heap_one :: uheap where
  "heap_one = \<lparr>hdr = (\<lambda>a. if a = 4096 then \<lparr>h_ptr = 8192, h_size = 0\<rparr> else \<lparr>h_ptr = 4096, h_size = 10\<rparr>),
     freep = 4096, um_base = 4096\<rparr>"

definition heap_two :: uheap where
  "heap_two = \<lparr>hdr = (\<lambda>a. if a = 4096 then \<lparr>h_ptr = 8192, h_size = 0\<rparr> else if a = 8192 then \<lparr>h_ptr = 8256, h_size = 1\<rparr>
     else if a = 8208 then \<lparr>h_ptr = 0, h_size = 3\<rparr> else \<lparr>h_ptr = 4096, h_size = 6\<rparr>), freep = 8192, um_base = 4096\<rparr>"

lemma heap_one_ok: "heap_ok heap_one 8352 [8192]"
  by (simp add: heap_ok_def heap_one_def ptr_of_def size_of_def within_def)

lemma heap_two_ok: "heap_ok heap_two 8352 [8192, 8256]"
  by (simp add: heap_ok_def heap_two_def ptr_of_def size_of_def within_def before_def)

theorem malloc_takes_free_witness: "\<exists>q h'. malloc_u brk_sys 100 heap_one 0 = Ok (Val (q + 16, h'), 0)
    \<and> takes_block heap_one 8352 (free_bytes heap_one [8192]) (units_for 100) q h' \<and> unat (100 :: u32) \<le> 16 * (unat (units_for 100) - 1)"
proof (rule malloc_takes_free [OF heap_one_ok])
  have "units_for 100 = 8" by code_simp
  then show "\<exists>x\<in>set [8192]. units_for 100 \<le> size_of heap_one x" by (simp add: heap_one_def size_of_def)
qed

theorem malloc_grows_witness: "\<exists>q h'. malloc_u brk_sys 100 heap_new 8192 = Ok (Val (q + 16, h'), 73728)
    \<and> takes_block heap_new 73728 (free_bytes heap_new [] \<union> block_at 8192 (unat (4096 :: u32))) (units_for 100) q h'"
proof (rule malloc_grows)
  have "units_for 100 = 8" by code_simp
  then show "4096 = max 4096 (units_for 100)" by simp
  show "heap_state heap_new 8192 []" by (simp add: heap_state_def heap_new_def)
  show "sbrk_u brk_sys (16 * int (unat (4096 :: u32))) 8192 = Ok (Val 8192, 73728)" by (simp add: sbrk_u_def brk_sys_def)
qed simp_all

theorem free_returns_witness: "\<exists>h' xs'. free_u (8208 + 16) heap_two = Ok h' \<and> heap_ok h' 8352 xs'
    \<and> free_bytes h' xs' = free_bytes heap_two [8192, 8256] \<union> block_at 8208 (units heap_two 8208)
    \<and> (\<forall>a. unat a \<notin> free_bytes h' xs' \<and> a \<noteq> um_base heap_two \<longrightarrow> hdr h' a = hdr heap_two a)"
proof (rule free_returns [OF heap_two_ok])
  show "within heap_two 8352 8208" by (simp add: within_def heap_two_def size_of_def)
  show "block_at 8208 (units heap_two 8208) \<inter> free_bytes heap_two [8192, 8256] = {}"
    by (auto simp: block_at_def free_bytes_def heap_two_def size_of_def)
qed

end
