(* ===== verification/Spec2Isabelle.thy ===== *)
theory Spec2Isabelle
  imports Xv6_Main Xv6_Fslayout Xv6_Watcher Xv6_Filters Xv6_Shell_Roundtrip Xv6_Plumbing Xv6_Programs Xv6_Umalloc
begin

text \<open>
  A model of the xv6 kernel for RISC-V with a kernel event queue (\<^verbatim>\<open>src/kernel\<close>) and of its user programs
  (\<^verbatim>\<open>src/user\<close>), with their correctness properties.

  \<^bold>\<open>The program.\<close> The kernel runs on several harts with one memory. Spin locks protect its data; pages come from
  \<^verbatim>\<open>kalloc.c\<close>, address spaces are built from them in \<^verbatim>\<open>vm.c\<close>, and \<^verbatim>\<open>proc.c\<close> runs processes in them, which wait for each
  other by \<^verbatim>\<open>sleep\<close> and \<^verbatim>\<open>wakeup\<close>. Below the file system calls lie, from the top, \<^verbatim>\<open>file.c\<close>, \<^verbatim>\<open>fs.c\<close>, the redo log
  (\<^verbatim>\<open>log.c\<close>), the buffer cache (\<^verbatim>\<open>bio.c\<close>) and the disk driver. The event queue of \<^verbatim>\<open>proc.c\<close> is a ring of 256 events:
  \<^verbatim>\<open>kfork\<close>, \<^verbatim>\<open>sleep\<close>, \<^verbatim>\<open>sys_write\<close> and \<^verbatim>\<open>sys_pause\<close> post to it, and \<^verbatim>\<open>user/watcher.c\<close> reads it through
  \<^verbatim>\<open>sys_kqueue_wait\<close>.

  \<^bold>\<open>State of the kernel.\<close> The record \<open>kernel\<close> (\<^verbatim>\<open>Xv6_Structs\<close>) has a field for each static variable of the kernel,
  byte memory, the registers of the harts and the devices. A device is a function of the accesses made to it so far.
  \<open>world\<close> adds the rest of the system: when the running thread gives up the processor or spins on a lock,
  \<open>others_run\<close> applies the next element of \<open>env\<close>, an arbitrary change of the kernel state, or \<open>None\<close> when the thread
  never runs again. What a theorem needs of the other threads is a hypothesis on \<open>env\<close>. The code of a thread is
  sequential between these points; \<open>lock_step\<close> (\<^verbatim>\<open>Xv6_Spinlock\<close>) interleaves all harts through the single steps of
  \<^verbatim>\<open>acquire\<close> and \<^verbatim>\<open>release\<close>. Kernel code returns \<open>Ok\<close>, \<open>Panic\<close> with the message, or \<open>Diverge\<close> when it does not return.

  \<^bold>\<open>State of a user program.\<close> A program is a function of the state \<open>'k\<close> behind the system calls (\<^verbatim>\<open>Xv6_User\<close>). It
  yields a value, \<open>Exited\<close> with a status, or \<open>Replaced\<close> by \<^verbatim>\<open>exec\<close>. The system calls are the record \<open>sys\<close>, a parameter of
  every program. Theorems on programs assume a contract of these calls, and the contract is interpreted on the kernel:
  \<open>kernel_sys\<close> waits by \<open>kqueue_wait_internal\<close> and posts by \<open>kqueue_post\<close>, \<open>pipe_sys\<close> reads from the kernel's pipe buffer,
  \<open>fd_sys\<close> keeps the kernel's table of open files. These show that the contracts can be met by the kernel's routines;
  they collect the bytes written in a list and are not models of whole system calls.

  \<^bold>\<open>Theories, and the source each models.\<close>
  \<^item> \<^verbatim>\<open>Xv6_Prelude\<close>: machine integers, results, loops and their rules. \<^verbatim>\<open>Xv6_Structs\<close>: the headers. \<^verbatim>\<open>Xv6_Memory\<close>:
    words and pages in byte memory. \<^verbatim>\<open>Xv6_String\<close>: \<^verbatim>\<open>string.c\<close>.
  \<^item> \<^verbatim>\<open>Xv6_Spinlock\<close>: \<^verbatim>\<open>spinlock.c\<close>. \<^verbatim>\<open>Xv6_Kalloc\<close>: \<^verbatim>\<open>kalloc.c\<close>. \<^verbatim>\<open>Xv6_Vm\<close>: \<^verbatim>\<open>vm.c\<close>, with its properties in
    \<^verbatim>\<open>Xv6_Pagetable\<close> and \<^verbatim>\<open>Xv6_Usermem\<close>. \<^verbatim>\<open>Xv6_Printf\<close>: \<^verbatim>\<open>printf.c\<close> and the polled half of \<^verbatim>\<open>uart.c\<close>.
  \<^item> \<^verbatim>\<open>Xv6_Proc\<close> and \<^verbatim>\<open>Xv6_Process\<close>: \<^verbatim>\<open>proc.c\<close>, with its properties in \<^verbatim>\<open>Xv6_Wakeup\<close> and \<^verbatim>\<open>Xv6_Kqueue\<close>. \<^verbatim>\<open>Xv6_Fifo\<close>:
    the contract of a queue in a circular buffer. \<^verbatim>\<open>Xv6_Sleeplock\<close>: \<^verbatim>\<open>sleeplock.c\<close>. \<^verbatim>\<open>Xv6_Pipe\<close>: \<^verbatim>\<open>pipe.c\<close>.
    \<^verbatim>\<open>Xv6_Console\<close>: \<^verbatim>\<open>console.c\<close> and the rest of \<^verbatim>\<open>uart.c\<close>.
  \<^item> \<^verbatim>\<open>Xv6_Virtio\<close>: \<^verbatim>\<open>virtio_disk.c\<close>. \<^verbatim>\<open>Xv6_Bio\<close>: \<^verbatim>\<open>bio.c\<close>. \<^verbatim>\<open>Xv6_Log\<close>: \<^verbatim>\<open>log.c\<close>. \<^verbatim>\<open>Xv6_Fs\<close>: \<^verbatim>\<open>fs.c\<close>, with the
    properties of its data in \<^verbatim>\<open>Xv6_Fslayout\<close>. \<^verbatim>\<open>Xv6_File\<close>: \<^verbatim>\<open>file.c\<close>. \<^verbatim>\<open>Xv6_Exec\<close>: \<^verbatim>\<open>exec.c\<close>.
  \<^item> \<^verbatim>\<open>Xv6_Sysfile\<close> and \<^verbatim>\<open>Xv6_Syscall\<close>: \<^verbatim>\<open>syscall.c\<close>, \<^verbatim>\<open>sysfile.c\<close>, \<^verbatim>\<open>sysproc.c\<close>. \<^verbatim>\<open>Xv6_Trap\<close>: \<^verbatim>\<open>trap.c\<close> and
    \<^verbatim>\<open>plic.c\<close>. \<^verbatim>\<open>Xv6_Main\<close>: \<^verbatim>\<open>start.c\<close> and \<^verbatim>\<open>main.c\<close>.
  \<^item> \<^verbatim>\<open>Xv6_User\<close>: \<^verbatim>\<open>ulib.c\<close> and \<^verbatim>\<open>printf.c\<close> of \<^verbatim>\<open>src/user\<close>. \<^verbatim>\<open>Xv6_Umalloc\<close>: \<^verbatim>\<open>umalloc.c\<close>. \<^verbatim>\<open>Xv6_Watcher\<close>:
    \<^verbatim>\<open>watcher.c\<close>. \<^verbatim>\<open>Xv6_Filters\<close>: \<^verbatim>\<open>cat.c\<close>, \<^verbatim>\<open>wc.c\<close>, \<^verbatim>\<open>grep.c\<close>. \<^verbatim>\<open>Xv6_Shell\<close>:
    \<^verbatim>\<open>sh.c\<close>, with properties in \<^verbatim>\<open>Xv6_Shell_Roundtrip\<close> and \<^verbatim>\<open>Xv6_Plumbing\<close>. \<^verbatim>\<open>Xv6_Programs\<close>:
    \<^verbatim>\<open>init.c\<close>, the file utilities and the exercise programs.

  A definition has the name of its C function; the user library's carry the suffix \<open>_u\<close>. The body of a loop is a
  definition of its own, mostly with the suffix \<open>_step\<close>.

  \<^bold>\<open>Interfaces.\<close> \<open>page_pool\<close> is what clients of the page allocator rely on, interpreted on \<^verbatim>\<open>kalloc\<close> and \<^verbatim>\<open>kfree\<close>.
  \<open>fifo\<close> and its extension \<open>dropping_fifo\<close> are queues in circular buffers, interpreted on the pipe buffer and on the ring
  of events. \<open>event_feed\<close> is what the watcher relies on, interpreted on \<open>kernel_sys\<close>; \<open>byte_feed\<close> is what the filters
  and \<^verbatim>\<open>echo\<close> rely on, interpreted on \<open>pipe_sys\<close>; \<open>descriptors\<close> is what the shell relies on, interpreted on \<open>fd_sys\<close>.

  \<^bold>\<open>What is shown.\<close>
  \<^item> Locks: matched nesting of \<^verbatim>\<open>push_off\<close>, mutual exclusion of all harts, ownership after \<^verbatim>\<open>acquiresleep\<close>.
  \<^item> Memory: \<^verbatim>\<open>kinit\<close> frees the RAM, \<^verbatim>\<open>kalloc\<close> gives different pages, mappings are found again and undone,
    \<^verbatim>\<open>copyin\<close> reads what \<^verbatim>\<open>copyout\<close> wrote, \<^verbatim>\<open>malloc\<close> and \<^verbatim>\<open>free\<close> keep the user heap.
  \<^item> Events and waiting: the ring is a queue that drops its oldest element, posting appends, waiting returns the oldest
    event, \<^verbatim>\<open>wakeup\<close> wakes exactly the sleepers on its channel, the watcher prints what it should round after round and
    goes silent in contextual mode once its buffer is full.
  \<^item> Pipes: a byte queue, what reads and writes move, and every error.
  \<^item> Storage: one buffer for a block and least recent use, the log header, absorption, room for each operation
    that \<open>begin_op\<close> admits however the critical sections of \<^verbatim>\<open>log.c\<close> interleave (\<open>log_step\<close>), the forms on disk of
    inodes and directory entries, the block bitmap, path elements.
  \<^item> Programs: number output, the regular expressions of \<^verbatim>\<open>grep\<close>, the output of \<^verbatim>\<open>grep\<close>, \<^verbatim>\<open>wc\<close> and \<^verbatim>\<open>cat\<close>; the parser of
    the shell ends, reads back printed commands and yields proper strings, and \<^verbatim>\<open>runcmd\<close> connects pipelines.

  \<^bold>\<open>Bounds and fuel.\<close> Loops are \<open>while_option\<close> underneath (\<open>while_res\<close>, \<open>loop_res\<close>): a loop that does not end is
  \<open>Diverge\<close>, and theorems that a routine returns state an \<open>Ok\<close> result. \<^verbatim>\<open>freewalk\<close> has a depth of 32769: memory
  has fewer pages, so only a cyclic table goes deeper, on which the C code does not return. The parser
  of the shell has the length of the line and two as fuel: each nested call has consumed a parenthesis or another
  symbol, and \<open>parser_ends\<close> shows that it suffices for every line. Addresses of a user heap are below \<open>2 ^ 36\<close> in the
  theorems on \<^verbatim>\<open>malloc\<close>, since a block counts its units of 16 bytes in 32 bits.

  \<^bold>\<open>Not modelled.\<close>
  \<^item> The assembly (\<^verbatim>\<open>entry.S\<close>, \<^verbatim>\<open>kernelvec.S\<close>, \<^verbatim>\<open>swtch.S\<close>, \<^verbatim>\<open>trampoline.S\<close>), the linker scripts and the generator of
    the call stubs: not C; \<^verbatim>\<open>swtch\<close> is a call of \<open>others_run\<close>, and the registers saved at a trap are the trapframe.
  \<^item> Fences, TLB flushes and the reordering of memory accesses: memory is sequentially consistent.
  \<^item> The inside of the devices, and the steps of other threads other than through \<open>env\<close>.
  \<^item> \<^verbatim>\<open>logstress.c\<close>: it writes past its array, and what follows depends on the layout of the program.
  \<^item> \<^verbatim>\<open>usertests.c\<close> and \<^verbatim>\<open>grind.c\<close>: they test the kernel from outside and hold none of the system's behaviour.
  \<^item> Overflow of counters that C declares as \<^verbatim>\<open>int\<close> (\<^verbatim>\<open>noff\<close>, \<^verbatim>\<open>nextpid\<close>, reference counts of files), which is
    undefined in C: they are unbounded here.
  \<^item> The matcher of \<^verbatim>\<open>grep\<close> takes the bytes of a C string before its NUL and is not meant for lists
    that contain one. The rings of the disk driver are typed, so their pages are not cleared byte by byte.
  \<^item> Nodes of the shell's command tree are values, so the shell does not run out of memory here.
\<close>

end
